(* ===== verification/C_Prelude.thy ===== *)
theory C_Prelude
  imports Main "HOL-Library.Word"
begin

text \<open>
  The fragment of C that the modelled programs use.

  \<^item> A C computation that may run into undefined behaviour has type \<open>fault + 'a\<close>: \<open>Inl\<close> carries
    the kind of the fault, \<open>Inr\<close> the result. \<open>bindc\<close> sequences two such computations.
  \<^item> A raw buffer obtained from \<open>malloc\<close> is a list of bytes whose length is the size of the
    allocation; \<open>memcpy_to\<close>, \<open>memcpy_from\<close> and \<open>memset_to\<close> are bounds checked.
  \<^item> A heap of structures of one type is a partial map from addresses to records; a pointer is
    \<open>None\<close> (NULL) or \<open>Some\<close> address. \<open>deref\<close>, \<open>upd_at\<close> and \<open>free_at\<close> fault on a null or dead pointer.
  \<^item> \<open>dll\<close> is the doubly linked list predicate that the queue of the log and the slab lists share.

  The lemma collection \<open>c_run\<close> unfolds the fault monad and the memory primitives.
\<close>

named_theorems c_run \<open>unfolding of the fault monad and of the memory primitives\<close>

type_synonym byte = "8 word"
type_synonym size_t = "64 word"
type_synonym int64_t = "64 word"
type_synonym uint8_t = "8 word"
type_synonym bytes = "byte list"
type_synonym ptr = "nat option"

lemma unat_size_t_less: "unat (w :: size_t) < 2 ^ 64"
proof -
  have "unat w < 2 ^ LENGTH(64)"
    by (rule unsigned_less)
  then show ?thesis by simp
qed

lemma unat_byte_less: "unat (c :: 8 word) < 256"
  by (rule order_less_le_trans [OF unsigned_less]) simp

lemma unat_of_nat_less: "n < 2 ^ 64 \<Longrightarrow> unat (of_nat n :: size_t) = n"
  by (simp only: unat_of_nat) simp

subsection \<open>The fault monad\<close>

datatype fault =
    NullDeref      \<comment> \<open>a null pointer is dereferenced\<close>
  | InvalidPtr     \<comment> \<open>a dangling or otherwise invalid pointer is dereferenced or freed\<close>
  | OutOfBounds    \<comment> \<open>an access outside the allocated object\<close>
  | Uninit         \<comment> \<open>an indeterminate value is used\<close>
  | Undefined      \<comment> \<open>an arithmetic operation whose result C leaves undefined\<close>
  | LockMisuse     \<comment> \<open>a lock is released that is not held\<close>
  | Blocked        \<comment> \<open>the calling thread waits for an event that nothing produces\<close>

definition bindc :: "fault + 'a \<Rightarrow> ('a \<Rightarrow> fault + 'b) \<Rightarrow> fault + 'b" where
  "bindc m f = (case m of Inl e \<Rightarrow> Inl e | Inr x \<Rightarrow> f x)"

definition guardc :: "fault \<Rightarrow> bool \<Rightarrow> fault + unit" where
  "guardc e b = (if b then Inr () else Inl e)"

lemma bindc_Inr [simp]: "bindc (Inr x) f = f x"
  by (simp add: bindc_def)

lemma bindc_Inl [simp]: "bindc (Inl e) f = Inl e"
  by (simp add: bindc_def)

lemma bindc_eq_Inr_iff: "bindc m f = Inr y \<longleftrightarrow> (\<exists>x. m = Inr x \<and> f x = Inr y)"
  by (cases m) simp_all

lemma bindc_assoc: "bindc (bindc m f) g = bindc m (\<lambda>x. bindc (f x) g)"
  by (cases m) simp_all

lemma guardc_simps [simp]: "guardc e True = Inr ()" "guardc e False = Inl e"
  by (simp_all add: guardc_def)

lemma guardc_eq_Inr_iff [simp]: "guardc e b = Inr u \<longleftrightarrow> b"
  by (simp add: guardc_def)

subsection \<open>Buffers of bytes\<close>

definition write_at :: "nat \<Rightarrow> 'a list \<Rightarrow> 'a list \<Rightarrow> 'a list" where
  "write_at i src dst = take i dst @ src @ drop (i + length src) dst"

definition memcpy_to :: "'a list \<Rightarrow> nat \<Rightarrow> 'a list \<Rightarrow> fault + 'a list" where
  "memcpy_to dst i src =
     (if i + length src \<le> length dst then Inr (write_at i src dst) else Inl OutOfBounds)"

definition memcpy_from :: "'a list \<Rightarrow> nat \<Rightarrow> nat \<Rightarrow> fault + 'a list" where
  "memcpy_from src i n =
     (if i + n \<le> length src then Inr (take n (drop i src)) else Inl OutOfBounds)"

definition memset_to :: "'a list \<Rightarrow> nat \<Rightarrow> 'a \<Rightarrow> nat \<Rightarrow> fault + 'a list" where
  "memset_to dst i b n = memcpy_to dst i (replicate n b)"

definition load_at :: "'a list \<Rightarrow> nat \<Rightarrow> fault + 'a" where
  "load_at buf i = (if i < length buf then Inr (buf ! i) else Inl OutOfBounds)"

definition store_at :: "'a list \<Rightarrow> nat \<Rightarrow> 'a \<Rightarrow> fault + 'a list" where
  "store_at buf i b = (if i < length buf then Inr (buf[i := b]) else Inl OutOfBounds)"

lemma length_write_at [simp]:
  "i + length src \<le> length dst \<Longrightarrow> length (write_at i src dst) = length dst"
  by (simp add: write_at_def)

lemma nth_write_at:
  assumes "i + length src \<le> length dst"
  shows "write_at i src dst ! k =
    (if k < i then dst ! k else if k < i + length src then src ! (k - i) else dst ! k)"
  using assms by (auto simp: write_at_def nth_append)

lemma take_write_at_le: "k \<le> i \<Longrightarrow> i \<le> length dst \<Longrightarrow> take k (write_at i src dst) = take k dst"
  by (simp add: write_at_def min_def)

lemma drop_write_at_ge:
  assumes "i + length src \<le> k" and "i + length src \<le> length dst"
  shows "drop k (write_at i src dst) = drop k dst"
  using assms by (simp add: write_at_def)

lemma slice_write_at_same [simp]:
  assumes "i + length src \<le> length dst"
  shows "take (length src) (drop i (write_at i src dst)) = src"
  using assms by (simp add: write_at_def)

lemma slice_write_at_other:
  assumes "i + length src \<le> length dst" and "j + n \<le> i \<or> i + length src \<le> j"
  shows "take n (drop j (write_at i src dst)) = take n (drop j dst)"
proof (rule nth_equalityI)
  show "length (take n (drop j (write_at i src dst))) = length (take n (drop j dst))"
    using assms(1) by simp
next
  fix k
  assume "k < length (take n (drop j (write_at i src dst)))"
  then have "k < n" and "j + k < length dst"
    using assms(1) by auto
  then show "take n (drop j (write_at i src dst)) ! k = take n (drop j dst) ! k"
    using assms by (auto simp: nth_write_at)
qed

lemma memcpy_to_Inr [c_run]:
  "i + length src \<le> length dst \<Longrightarrow> memcpy_to dst i src = Inr (write_at i src dst)"
  by (simp add: memcpy_to_def)

lemma memcpy_to_Inl [c_run]: "length dst < i + length src \<Longrightarrow> memcpy_to dst i src = Inl OutOfBounds"
  by (simp add: memcpy_to_def)

lemma memcpy_from_Inr [c_run]:
  "i + n \<le> length src \<Longrightarrow> memcpy_from src i n = Inr (take n (drop i src))"
  by (simp add: memcpy_from_def)

lemma memcpy_from_Inl [c_run]: "length src < i + n \<Longrightarrow> memcpy_from src i n = Inl OutOfBounds"
  by (simp add: memcpy_from_def)

lemma load_at_Inr [c_run]: "i < length buf \<Longrightarrow> load_at buf i = Inr (buf ! i)"
  by (simp add: load_at_def)

lemma store_at_Inr [c_run]: "i < length buf \<Longrightarrow> store_at buf i b = Inr (buf[i := b])"
  by (simp add: store_at_def)

lemma store_at_Inl [c_run]: "length buf \<le> i \<Longrightarrow> store_at buf i b = Inl OutOfBounds"
  by (simp add: store_at_def)

subsection \<open>Little-endian representation of integers\<close>

text \<open>The object representation of an integer on the x86-64 targets of the programs.\<close>

definition le_bytes :: "nat \<Rightarrow> 'a::len word \<Rightarrow> bytes" where
  "le_bytes n w = map (\<lambda>i. ucast (drop_bit (8 * i) w)) [0..<n]"

fun le_word :: "bytes \<Rightarrow> 64 word" where
  "le_word [] = 0"
| "le_word (b # bs) = or (ucast b) (push_bit 8 (le_word bs))"

lemma length_le_bytes [simp]: "length (le_bytes n w) = n"
  by (simp add: le_bytes_def)

lemma bit_le_word:
  "bit (le_word bs) n \<longleftrightarrow> n < 64 \<and> n div 8 < length bs \<and> bit (bs ! (n div 8)) (n mod 8)"
proof (induction bs arbitrary: n)
  case (Cons b bs)
  show ?case
  proof (cases "n < 8")
    case True
    then show ?thesis
      by (simp add: bit_or_iff bit_push_bit_iff bit_unsigned_iff)
  next
    case False
    then have "\<not> bit b n"
      using bit_imp_le_length [of b n] by auto
    moreover have "n div 8 = Suc ((n - 8) div 8)" and "(n - 8) mod 8 = n mod 8"
      using False by (simp_all add: le_div_geq le_mod_geq)
    ultimately show ?thesis
      using False Cons.IH [of "n - 8"] by (auto simp: bit_or_iff bit_push_bit_iff bit_unsigned_iff)
  qed
qed simp

lemma le_word_bytes [simp]: "le_word (le_bytes 8 (w :: 64 word)) = w"
proof (rule bit_word_eqI)
  fix n
  assume "n < LENGTH(64)"
  then have "n div 8 < 8" and "n = 8 * (n div 8) + n mod 8"
    by simp_all
  then show "bit (le_word (le_bytes 8 w)) n \<longleftrightarrow> bit w n"
    using \<open>n < LENGTH(64)\<close>
    by (simp add: bit_le_word le_bytes_def bit_unsigned_iff bit_drop_bit_eq)
qed

subsection \<open>Heaps of structures\<close>

definition deref :: "(nat \<rightharpoonup> 'v) \<Rightarrow> ptr \<Rightarrow> fault + 'v" where
  "deref h p = (case p of None \<Rightarrow> Inl NullDeref
     | Some a \<Rightarrow> (case h a of None \<Rightarrow> Inl InvalidPtr | Some v \<Rightarrow> Inr v))"

definition upd_at :: "(nat \<rightharpoonup> 'v) \<Rightarrow> ptr \<Rightarrow> ('v \<Rightarrow> 'v) \<Rightarrow> fault + (nat \<rightharpoonup> 'v)" where
  "upd_at h p f = (case p of None \<Rightarrow> Inl NullDeref
     | Some a \<Rightarrow> (case h a of None \<Rightarrow> Inl InvalidPtr | Some v \<Rightarrow> Inr (h(a \<mapsto> f v))))"

definition free_at :: "(nat \<rightharpoonup> 'v) \<Rightarrow> ptr \<Rightarrow> fault + (nat \<rightharpoonup> 'v)" where
  "free_at h p = (case p of None \<Rightarrow> Inr h
     | Some a \<Rightarrow> (case h a of None \<Rightarrow> Inl InvalidPtr | Some v \<Rightarrow> Inr (h(a := None))))"

lemma deref_simps [simp]:
  "deref h None = Inl NullDeref"
  "h a = Some v \<Longrightarrow> deref h (Some a) = Inr v"
  "h a = None \<Longrightarrow> deref h (Some a) = Inl InvalidPtr"
  by (simp_all add: deref_def)

lemma upd_at_simps [simp]:
  "upd_at h None f = Inl NullDeref"
  "h a = Some v \<Longrightarrow> upd_at h (Some a) f = Inr (h(a \<mapsto> f v))"
  "h a = None \<Longrightarrow> upd_at h (Some a) f = Inl InvalidPtr"
  by (simp_all add: upd_at_def)

lemma free_at_simps [simp]:
  "free_at h None = Inr h"
  "h a = Some v \<Longrightarrow> free_at h (Some a) = Inr (h(a := None))"
  "h a = None \<Longrightarrow> free_at h (Some a) = Inl InvalidPtr"
  by (simp_all add: free_at_def)

subsection \<open>Doubly linked lists\<close>

text \<open>
  \<open>dll nx pv h bk p xs\<close>: following the field \<open>nx\<close> from \<open>p\<close> visits exactly the addresses \<open>xs\<close>
  and then NULL, and the field \<open>pv\<close> of each node points at the node before it, that of the first
  node at \<open>bk\<close>.
\<close>

fun dll :: "('v \<Rightarrow> ptr) \<Rightarrow> ('v \<Rightarrow> ptr) \<Rightarrow> (nat \<rightharpoonup> 'v) \<Rightarrow> ptr \<Rightarrow> ptr \<Rightarrow> nat list \<Rightarrow> bool" where
  "dll nx pv h bk p [] \<longleftrightarrow> p = None"
| "dll nx pv h bk p (a # xs) \<longleftrightarrow> p = Some a \<and>
     (case h a of None \<Rightarrow> False
      | Some n \<Rightarrow> pv n = bk \<and> dll nx pv h (Some a) (nx n) xs)"

lemma dll_frame [simp]:
  "a \<notin> set xs \<Longrightarrow> dll nx pv (h(a := v)) bk p xs = dll nx pv h bk p xs"
  by (induction xs arbitrary: bk p) (auto split: option.splits)

lemma dll_set_dom: "dll nx pv h bk p xs \<Longrightarrow> set xs \<subseteq> dom h"
  by (induction xs arbitrary: bk p) (auto split: option.splits)

lemma dll_None_iff: "dll nx pv h bk None xs \<longleftrightarrow> xs = []"
  by (cases xs) auto

lemma dll_Some_iff:
  "dll nx pv h bk (Some a) xs \<longleftrightarrow>
     (\<exists>n ys. xs = a # ys \<and> h a = Some n \<and> pv n = bk \<and> dll nx pv h (Some a) (nx n) ys)"
  by (cases xs) (auto split: option.splits)

lemma dll_unique: "dll nx pv h bk p xs \<Longrightarrow> dll nx pv h bk p ys \<Longrightarrow> xs = ys"
proof (induction xs arbitrary: ys bk p)
  case (Cons a xs)
  then show ?case
    by (cases ys) (auto split: option.splits)
qed (simp add: dll_None_iff)

text \<open>A segment ends in an arbitrary pointer \<open>q\<close> instead of NULL; \<open>dlast\<close> is its last node.\<close>

fun dseg :: "('v \<Rightarrow> ptr) \<Rightarrow> ('v \<Rightarrow> ptr) \<Rightarrow> (nat \<rightharpoonup> 'v) \<Rightarrow> ptr \<Rightarrow> ptr \<Rightarrow> nat list \<Rightarrow> ptr \<Rightarrow> bool" where
  "dseg nx pv h bk p [] q \<longleftrightarrow> p = q"
| "dseg nx pv h bk p (a # xs) q \<longleftrightarrow> p = Some a \<and>
     (case h a of None \<Rightarrow> False
      | Some n \<Rightarrow> pv n = bk \<and> dseg nx pv h (Some a) (nx n) xs q)"

fun dlast :: "ptr \<Rightarrow> nat list \<Rightarrow> ptr" where
  "dlast bk [] = bk"
| "dlast bk (a # xs) = dlast (Some a) xs"

lemma dlast_snoc [simp]: "dlast bk (xs @ [a]) = Some a"
  by (induction xs arbitrary: bk) auto

lemma dlast_append: "dlast bk (xs @ ys) = dlast (dlast bk xs) ys"
  by (induction xs arbitrary: bk) auto

lemma dlast_eq: "dlast bk xs = (if xs = [] then bk else Some (last xs))"
  by (induction xs arbitrary: bk) auto

lemma dseg_frame [simp]:
  "a \<notin> set xs \<Longrightarrow> dseg nx pv (h(a := v)) bk p xs q = dseg nx pv h bk p xs q"
  by (induction xs arbitrary: bk p) (auto split: option.splits)

lemma dll_append:
  "dll nx pv h bk p (xs @ ys) \<longleftrightarrow>
     (\<exists>q. dseg nx pv h bk p xs q \<and> dll nx pv h (dlast bk xs) q ys)"
  by (induction xs arbitrary: bk p) (auto split: option.splits)

lemma dseg_append:
  "dseg nx pv h bk p (xs @ ys) q \<longleftrightarrow>
     (\<exists>r. dseg nx pv h bk p xs r \<and> dseg nx pv h (dlast bk xs) r ys q)"
  by (induction xs arbitrary: bk p) (auto split: option.splits)

lemma dll_hd: "dll nx pv h bk p xs \<Longrightarrow> p = (if xs = [] then None else Some (hd xs))"
  by (cases xs) auto


lemma dll_cong: "(\<And>x. x \<in> set xs \<Longrightarrow> h' x = h x) \<Longrightarrow> dll nx pv h' bk p xs = dll nx pv h bk p xs"
  by (induction xs arbitrary: bk p) (auto split: option.splits)

lemma dseg_cong: "(\<And>x. x \<in> set xs \<Longrightarrow> h' x = h x) \<Longrightarrow> dseg nx pv h' bk p xs q = dseg nx pv h bk p xs q"
  by (induction xs arbitrary: bk p) (auto split: option.splits)

end
