(* ===== verification/Double_Arith.thy ===== *)
theory Double_Arith
  imports C_Prelude "HOL-Library.Log_Nat" Complex_Main
begin

text \<open>
  IEEE binary64 arithmetic on positive normal values, the way the growth factor of the vector uses
  it: a double is a rational number, an operation is the exact operation followed by \<open>fl\<close>, rounding to
  nearest with ties to even at 53 significant bits. The exponent range is unbounded here; the
  quantities the vector computes lie between \<open>2 powi -60\<close> and \<open>2 powi 75\<close>, well inside the normal
  range. The section ends with the two facts that the vector needs, the relative error of a rounding
  and the exactness of integers below \<open>2 ^ 53\<close>.
\<close>

definition round_half_even :: "rat \<Rightarrow> int" where
  "round_half_even x = (let f = \<lfloor>x\<rfloor>; r = x - of_int f in
     if r < 1 / 2 then f else if 1 / 2 < r then f + 1 else if even f then f else f + 1)"

definition ilog2 :: "rat \<Rightarrow> int" where
  "ilog2 x = (let (p, q) = quotient_of x; a = bitlen p - bitlen q in
     if x < 2 powi a then a - 1 else a)"

definition fl :: "rat \<Rightarrow> rat" where
  "fl x = (if x \<le> 0 then 0 else
     (let u = 2 powi (ilog2 x - 52) in of_int (round_half_even (x / u)) * u))"

lemma round_half_even_error: "\<bar>of_int (round_half_even x) - x\<bar> \<le> 1 / 2"
proof -
  have "of_int \<lfloor>x\<rfloor> \<le> x" and "x < of_int \<lfloor>x\<rfloor> + 1"
    by linarith+
  then show ?thesis
    unfolding round_half_even_def Let_def abs_le_iff by (simp split: if_split) linarith
qed

lemma round_half_even_of_int [simp]: "round_half_even (of_int k) = k"
  by (simp add: round_half_even_def)

lemma bitlen_powi_bounds:
  assumes "0 < p"
  shows "2 powi (bitlen p - 1) \<le> (of_int p :: rat)" and "(of_int p :: rat) < 2 powi bitlen p"
proof -
  have b: "0 < bitlen p"
    using assms by (simp add: bitlen_nonneg bitlen_eq_zero_iff order.strict_iff_order)
  have lo: "(2::int) ^ nat (bitlen p - 1) \<le> p" and hi: "p < 2 ^ nat (bitlen p)"
    using bitlen_bounds [OF assms] by auto
  from lo have "(of_int (2 ^ nat (bitlen p - 1)) :: rat) \<le> of_int p"
    by (simp only: of_int_le_iff)
  then show "2 powi (bitlen p - 1) \<le> (of_int p :: rat)"
    using b by (simp add: power_int_def)
  from hi have "(of_int p :: rat) < of_int (2 ^ nat (bitlen p))"
    by (simp only: of_int_less_iff)
  then show "(of_int p :: rat) < 2 powi bitlen p"
    using b by (simp add: power_int_def)
qed

lemma ilog2_lower:
  assumes "0 < x"
  shows "2 powi ilog2 x \<le> x"
proof -
  obtain p q where pq: "quotient_of x = (p, q)"
    by (cases "quotient_of x")
  then have q: "0 < q" and x: "x = of_int p / of_int q"
    by (auto simp: quotient_of_denom_pos quotient_of_div)
  with assms have p: "0 < p"
    by (simp add: zero_less_divide_iff)
  have "2 powi (bitlen p - bitlen q - 1) = (2 powi (bitlen p - 1) / 2 powi bitlen q :: rat)"
    by (simp flip: power_int_diff add: algebra_simps)
  also have "\<dots> \<le> of_int p / of_int q"
    using bitlen_powi_bounds [OF p] bitlen_powi_bounds [OF q] p q
    by (intro frac_le) auto
  finally show ?thesis
    using pq x by (auto simp: ilog2_def Let_def)
qed

lemma fl_rel_error:
  assumes "0 < x"
  shows "\<bar>fl x - x\<bar> \<le> x / 2 ^ 53"
proof -
  define u :: rat where "u = 2 powi (ilog2 x - 52)"
  have u: "0 < u"
    by (simp add: u_def)
  have "fl x - x = (of_int (round_half_even (x / u)) - x / u) * u"
    using assms u by (simp add: fl_def u_def [symmetric] algebra_simps)
  then have "\<bar>fl x - x\<bar> = \<bar>of_int (round_half_even (x / u)) - x / u\<bar> * u"
    using u by (simp add: abs_mult)
  also have "\<dots> \<le> 1 / 2 * u"
    using round_half_even_error [of "x / u"] u by (intro mult_right_mono) auto
  also have "\<dots> = 2 powi ilog2 x / 2 ^ 53"
    by (simp add: u_def power_int_diff)
  also have "\<dots> \<le> x / 2 ^ 53"
    using ilog2_lower [OF assms] by (simp add: divide_right_mono)
  finally show ?thesis .
qed

lemma fl_bounds:
  assumes "0 < x"
  shows "x * (1 - 1 / 2 ^ 53) \<le> fl x" and "fl x \<le> x * (1 + 1 / 2 ^ 53)"
  using fl_rel_error [OF assms] unfolding abs_le_iff
  by (simp_all add: algebra_simps add_divide_distrib diff_divide_distrib)

lemma fl_nat_exact:
  assumes "n < 2 ^ 53"
  shows "fl (of_nat n) = of_nat n"
proof (cases "n = 0")
  case False
  define x :: rat where "x = of_nat n"
  define e where "e = ilog2 x"
  have x: "0 < x" and "x < 2 ^ 53"
    using False assms by (simp_all add: x_def)
  then have "2 powi e < (2 powi 53 :: rat)"
    using ilog2_lower [of x] by (simp add: e_def)
  then have e: "e < 53"
    using power_int_increasing [of 53 e "2 :: rat"] by linarith
  have inv: "2 powi (52 - e) * 2 powi (e - 52) = (1 :: rat)"
    by (simp flip: power_int_add)
  have pow: "2 powi (52 - e) = (2 ^ nat (52 - e) :: rat)"
    using e by (simp add: power_int_def)
  have "x / 2 powi (e - 52) = of_int (int n * 2 ^ nat (52 - e))"
    using inv by (simp add: x_def pow [symmetric] divide_simps mult.assoc)
  then have "round_half_even (x / 2 powi (e - 52)) = int n * 2 ^ nat (52 - e)"
    by (simp only: round_half_even_of_int)
  then have "fl x = of_nat n * (2 ^ nat (52 - e) * 2 powi (e - 52))"
    using x by (simp add: fl_def Let_def e_def [symmetric])
  then show ?thesis
    using inv by (simp add: x_def pow [symmetric])
qed (simp add: fl_def)

end
