(* ===== verification/Dynamic_Vector.thy ===== *)
theory Dynamic_Vector
  imports Double_Arith
begin

text \<open>
  The growable array of \<open>utils/collections/vector\<close>: \<open>vector.c\<close> with its typed front ends
  \<open>number_interface.c\<close> and \<open>string_interface.c\<close>.

  The struct is the record \<open>vector\<close>; the buffer that its field \<open>data\<close> points at is part of it. A
  \<open>vector *\<close> argument is a \<open>vector option\<close>, an element argument \<open>char *\<close> the bytes it points at. The
  allocator is the environment: a Boolean per call says whether the request succeeds, \<open>junk\<close> is the
  content of fresh memory. Every operation returns its error code with the new state, or the fault
  it runs into. Reader-writer locks are kept as a state of the lock, so that the operations with
  suffix \<open>_multithread\<close> are the sequential ones between an acquire and a release.

  The operations are followed by the invariant \<open>vec_inv\<close>, the list \<open>elems\<close> of the elements stored, the
  behaviour of every operation on it, and the interface \<open>dyn_array\<close> with its interpretation.
\<close>

subsection \<open>Constants and data\<close>

abbreviation NO_ERR :: uint8_t where "NO_ERR \<equiv> 0"
abbreviation ALLOC_ERR :: uint8_t where "ALLOC_ERR \<equiv> 1"
abbreviation REALLOC_ERR :: uint8_t where "REALLOC_ERR \<equiv> 2"
abbreviation NULL_PTR_ERR :: uint8_t where "NULL_PTR_ERR \<equiv> 3"
abbreviation OUT_OF_BOUND_ERR :: uint8_t where "OUT_OF_BOUND_ERR \<equiv> 4"
abbreviation LOCK_INIT_ERR :: uint8_t where "LOCK_INIT_ERR \<equiv> 5"
abbreviation MUTEX_INIT_ERR :: uint8_t where "MUTEX_INIT_ERR \<equiv> 6"
abbreviation COND_INIT_ERR :: uint8_t where "COND_INIT_ERR \<equiv> 7"
abbreviation ZERO_SIZE_VECTOR :: uint8_t where "ZERO_SIZE_VECTOR \<equiv> 8"
abbreviation REALLOC_TRIES :: nat where "REALLOC_TRIES \<equiv> 10"

text \<open>The field \<open>data\<close>: NULL, an allocated buffer, or a pointer some of whose bytes were overwritten.\<close>

datatype dptr = DNull | DBuf bytes | DWild

datatype rwlock = Unlocked | ReadHeld nat | WriteHeld

record vector =
  v_data :: dptr
  v_size :: size_t
  v_capacity :: size_t
  v_rwlock :: rwlock
  v_realloc_process :: bool
  v_lock_init :: bool

text \<open>The size of \<open>struct vector\<close> with the glibc types of \<open>x86-64\<close>.\<close>

abbreviation sizeof_vector :: nat where "sizeof_vector \<equiv> 184"

definition buf_of :: "dptr \<Rightarrow> fault + bytes" where
  "buf_of p = (case p of DNull \<Rightarrow> Inl NullDeref | DBuf d \<Rightarrow> Inr d | DWild \<Rightarrow> Inl InvalidPtr)"

lemma buf_of_simps [simp]:
  "buf_of DNull = Inl NullDeref" "buf_of (DBuf d) = Inr d" "buf_of DWild = Inl InvalidPtr"
  by (simp_all add: buf_of_def)

definition ptr_bytes :: "bytes option \<Rightarrow> fault + bytes" where
  "ptr_bytes p = (case p of None \<Rightarrow> Inl NullDeref | Some b \<Rightarrow> Inr b)"

lemma ptr_bytes_simps [simp]: "ptr_bytes None = Inl NullDeref" "ptr_bytes (Some b) = Inr b"
  by (simp_all add: ptr_bytes_def)

subsection \<open>Reader-writer lock\<close>

fun rw_rdlock :: "rwlock \<Rightarrow> fault + rwlock" where
  "rw_rdlock Unlocked = Inr (ReadHeld 1)"
| "rw_rdlock (ReadHeld n) = Inr (ReadHeld (Suc n))"
| "rw_rdlock WriteHeld = Inl Blocked"

fun rw_wrlock :: "rwlock \<Rightarrow> fault + rwlock" where
  "rw_wrlock Unlocked = Inr WriteHeld"
| "rw_wrlock (ReadHeld n) = Inl Blocked"
| "rw_wrlock WriteHeld = Inl Blocked"

fun rw_unlock :: "rwlock \<Rightarrow> fault + rwlock" where
  "rw_unlock Unlocked = Inl LockMisuse"
| "rw_unlock (ReadHeld n) = Inr (if n \<le> 1 then Unlocked else ReadHeld (n - 1))"
| "rw_unlock WriteHeld = Inr Unlocked"

definition with_lock :: "(rwlock \<Rightarrow> fault + rwlock) \<Rightarrow> vector \<Rightarrow> fault + vector" where
  "with_lock act v = bindc (act (v_rwlock v)) (\<lambda>l. Inr (v\<lparr>v_rwlock := l\<rparr>))"

text \<open>\<open>while (inst->realloc_process) sched_yield();\<close> with the lock held, so that no one resets it\<close>

definition spin_realloc :: "vector \<Rightarrow> fault + unit" where
  "spin_realloc v = guardc Blocked (\<not> v_realloc_process v)"

subsection \<open>vector.c: helpers\<close>

definition is_full :: "vector option \<Rightarrow> bool" where
  "is_full inst = (case inst of None \<Rightarrow> False | Some v \<Rightarrow> v_capacity v \<le> v_size v)"

definition is_out_range :: "vector option \<Rightarrow> size_t \<Rightarrow> bool" where
  "is_out_range inst index = (case inst of None \<Rightarrow> False | Some v \<Rightarrow> v_size v \<le> index)"

definition realloc_coefficient :: "rat \<Rightarrow> rat" where
  "realloc_coefficient x = fl (fl (1024 / fl (x + 128)) + 1)"

definition grown :: "nat \<Rightarrow> rat" where
  "grown c = (let d = fl (of_nat c) in fl (d * realloc_coefficient d))"

definition realloc :: "bool \<Rightarrow> (nat \<Rightarrow> byte) \<Rightarrow> bytes \<Rightarrow> nat \<Rightarrow> bytes option" where
  "realloc ok junk d n = (if ok then Some (take n d @ map junk [length d..<n]) else None)"

text \<open>
  The conversion of a double at or above \<open>2 ^ 64\<close> to \<open>size_t\<close> is undefined, and so is, since C23,
  \<open>realloc\<close> to the size zero (glibc frees the block and returns NULL).
\<close>

definition resize :: "vector \<Rightarrow> size_t \<Rightarrow> bool \<Rightarrow> (nat \<Rightarrow> byte) \<Rightarrow> fault + (uint8_t \<times> vector)" where
  "resize v type_size ok junk =
     bindc (guardc Uninit (grown (unat (v_capacity v)) < 2 ^ 64)) (\<lambda>_.
     let new_capacity = word_of_int \<lfloor>grown (unat (v_capacity v))\<rfloor> :: size_t;
         n = unat (new_capacity * type_size) in
     bindc (guardc InvalidPtr (0 < n)) (\<lambda>_.
     bindc (case v_data v of DNull \<Rightarrow> Inr [] | p \<Rightarrow> buf_of p) (\<lambda>d.
       case realloc ok junk d n of
         None \<Rightarrow> Inr (REALLOC_ERR, v)
       | Some d' \<Rightarrow> Inr (NO_ERR, v\<lparr>v_data := DBuf d', v_capacity := new_capacity\<rparr>))))"

fun insert_loop :: "bytes \<Rightarrow> bytes \<Rightarrow> nat \<Rightarrow> nat \<Rightarrow> fault + bytes" where
  "insert_loop dst src i 0 = Inr dst"
| "insert_loop dst src i (Suc k) =
     bindc (load_at src i) (\<lambda>b. bindc (store_at dst i b) (\<lambda>dst'. insert_loop dst' src (Suc i) k))"

definition insert_v :: "bytes option \<Rightarrow> bytes \<Rightarrow> size_t \<Rightarrow> fault + (uint8_t \<times> bytes option)" where
  "insert_v insert_pos val type_size =
     (case insert_pos of
        None \<Rightarrow> Inr (NULL_PTR_ERR, None)
      | Some dst \<Rightarrow> bindc (insert_loop dst val 0 (unat type_size)) (\<lambda>dst'. Inr (0, Some dst')))"

subsection \<open>vector.c: construction and destruction\<close>

definition vector_init ::
  "size_t \<Rightarrow> size_t \<Rightarrow> bool \<Rightarrow> bool \<Rightarrow> vector option \<Rightarrow> uint8_t \<times> vector option" where
  "vector_init capacity data_type_size ok1 ok2 res_vector =
     (let allocated_bytes = capacity * data_type_size in
      if \<not> ok1 then (ALLOC_ERR, res_vector)
      else if \<not> ok2 then (ALLOC_ERR, res_vector)
      else (NO_ERR, Some \<lparr>v_data = DBuf (replicate (unat allocated_bytes) 0), v_size = 0,
              v_capacity = capacity, v_rwlock = Unlocked, v_realloc_process = False,
              v_lock_init = False\<rparr>))"

definition vector_destroy :: "vector option \<Rightarrow> fault + uint8_t" where
  "vector_destroy inst = (case inst of None \<Rightarrow> Inr NULL_PTR_ERR
     | Some v \<Rightarrow> bindc (guardc InvalidPtr (v_data v \<noteq> DWild)) (\<lambda>_. Inr NO_ERR))"

definition vector_multithread_init ::
  "size_t \<Rightarrow> size_t \<Rightarrow> bool \<Rightarrow> bool \<Rightarrow> int \<Rightarrow> int \<Rightarrow> int \<Rightarrow> vector option \<Rightarrow> uint8_t \<times> vector option" where
  "vector_multithread_init capacity data_type_size ok1 ok2 rw mt cd res_vector =
     (let (init_res, r) = vector_init capacity data_type_size ok1 ok2 res_vector in
      if init_res = NO_ERR then
        (if rw \<noteq> 0 then (LOCK_INIT_ERR, r)
         else if mt \<noteq> 0 then (MUTEX_INIT_ERR, r)
         else if cd \<noteq> 0 then (COND_INIT_ERR, r)
         else (init_res, map_option (v_lock_init_update (\<lambda>_. True)) r))
      else (init_res, r))"

definition vector_multithread_destroy :: "vector option \<Rightarrow> fault + uint8_t" where
  "vector_multithread_destroy inst = (case inst of None \<Rightarrow> Inr NULL_PTR_ERR
     | Some v \<Rightarrow> bindc (guardc LockMisuse (v_rwlock v = Unlocked)) (\<lambda>_. vector_destroy inst))"

text \<open>
  \<open>clear\<close> passes \<open>inst\<close>, not \<open>inst->data\<close>, to \<open>memset\<close>: the \<open>n\<close> bytes that are zeroed are those of the
  struct, \<open>data\<close> at offset 0, \<open>size\<close> at 8, \<open>capacity\<close> at 16, the lock at 24, \<open>realloc_process\<close> at 80 and
  \<open>lock_init\<close> at 176.
\<close>

definition zero_low_bytes :: "nat \<Rightarrow> size_t \<Rightarrow> size_t" where
  "zero_low_bytes k w = (if 8 \<le> k then 0 else push_bit (8 * k) (drop_bit (8 * k) w))"

definition clear_struct :: "nat \<Rightarrow> vector \<Rightarrow> vector" where
  "clear_struct n v = v\<lparr>
     v_data := (if n = 0 then v_data v else if n < 8 then DWild else DNull),
     v_size := zero_low_bytes (n - 8) (v_size v),
     v_capacity := zero_low_bytes (n - 16) (v_capacity v),
     v_rwlock := (if n \<le> 24 then v_rwlock v else Unlocked),
     v_realloc_process := (n \<le> 80 \<and> v_realloc_process v),
     v_lock_init := (n \<le> 176 \<and> v_lock_init v)\<rparr>"

definition clear :: "vector option \<Rightarrow> size_t \<Rightarrow> fault + (uint8_t \<times> vector option)" where
  "clear inst el_type_size = (case inst of None \<Rightarrow> Inr (NULL_PTR_ERR, None)
     | Some v \<Rightarrow>
         let n = unat (v_size v * el_type_size) in
         bindc (guardc OutOfBounds (n \<le> sizeof_vector)) (\<lambda>_.
           Inr (NO_ERR, Some ((clear_struct n v)\<lparr>v_size := 0\<rparr>))))"

text \<open>The function has no \<open>return\<close> on its normal path: only the new state is modelled there.\<close>

definition clear_multithread :: "vector option \<Rightarrow> size_t \<Rightarrow> fault + (uint8_t option \<times> vector option)" where
  "clear_multithread inst el_type_size = (case inst of None \<Rightarrow> Inr (Some NULL_PTR_ERR, None)
     | Some v \<Rightarrow>
         bindc (with_lock rw_rdlock v) (\<lambda>v1.
         bindc (spin_realloc v1) (\<lambda>_.
         bindc (with_lock rw_unlock v1) (\<lambda>v2.
         bindc (with_lock rw_wrlock v2) (\<lambda>v3.
         bindc (clear (Some v3) el_type_size) (\<lambda>(_, r).
         case r of None \<Rightarrow> Inl NullDeref
         | Some v4 \<Rightarrow> bindc (with_lock rw_unlock v4) (\<lambda>v5. Inr (None, Some v5))))))))"

subsection \<open>vector.c: operations\<close>

text \<open>\<open>while (resize(inst, el_type_size) != NO_ERR && tries++ < REALLOC_TRIES) {}\<close>\<close>

function resize_loop ::
  "vector \<Rightarrow> size_t \<Rightarrow> (nat \<Rightarrow> bool) \<Rightarrow> (nat \<Rightarrow> byte) \<Rightarrow> nat \<Rightarrow> fault + vector" where
  "resize_loop v type_size rs junk tries =
     (case resize v type_size (rs tries) junk of
        Inl e \<Rightarrow> Inl e
      | Inr (r, v') \<Rightarrow>
          if r \<noteq> NO_ERR \<and> tries < REALLOC_TRIES
          then resize_loop v' type_size rs junk (Suc tries) else Inr v')"
  by pat_completeness auto
termination
  by (relation "measure (\<lambda>(_, _, _, _, tries). REALLOC_TRIES - tries)") auto

declare resize_loop.simps [simp del]

definition add ::
  "vector option \<Rightarrow> bytes option \<Rightarrow> size_t \<Rightarrow> (nat \<Rightarrow> bool) \<Rightarrow> (nat \<Rightarrow> byte) \<Rightarrow>
     fault + (uint8_t \<times> vector option)" where
  "add inst el el_type_size rs junk =
     (case (inst, el) of
        (Some v, Some src) \<Rightarrow>
          bindc (if is_full inst
                 then bindc (resize_loop (v\<lparr>v_realloc_process := True\<rparr>) el_type_size rs junk 0)
                        (\<lambda>v'. Inr (v'\<lparr>v_realloc_process := False\<rparr>))
                 else Inr v) (\<lambda>v1.
          bindc (memcpy_from src 0 (unat el_type_size)) (\<lambda>x.
          bindc (buf_of (v_data v1)) (\<lambda>d.
          bindc (memcpy_to d (unat (v_size v1 * el_type_size)) x) (\<lambda>d'.
            Inr (NO_ERR, Some (v1\<lparr>v_data := DBuf d', v_size := v_size v1 + 1\<rparr>))))))
      | _ \<Rightarrow> Inr (NULL_PTR_ERR, inst))"

definition get ::
  "vector option \<Rightarrow> size_t \<Rightarrow> size_t \<Rightarrow> bytes option \<Rightarrow> fault + (uint8_t \<times> bytes option)" where
  "get inst index el_type_size val =
     (case inst of None \<Rightarrow> Inr (NULL_PTR_ERR, val)
      | Some v \<Rightarrow>
          if v_size v = 0 then Inr (ZERO_SIZE_VECTOR, val)
          else if is_out_range inst index then Inr (OUT_OF_BOUND_ERR, val)
          else
            bindc (buf_of (v_data v)) (\<lambda>d.
            bindc (memcpy_from d (unat (index * el_type_size)) (unat el_type_size)) (\<lambda>x.
            bindc (ptr_bytes val) (\<lambda>b.
            bindc (memcpy_to b 0 x) (\<lambda>b'. Inr (NO_ERR, Some b'))))))"

definition set_v ::
  "vector option \<Rightarrow> size_t \<Rightarrow> size_t \<Rightarrow> bytes option \<Rightarrow> fault + (uint8_t \<times> vector option)" where
  "set_v inst index el_type_size el =
     (case (inst, el) of
        (Some v, Some src) \<Rightarrow>
          if is_out_range inst index then Inr (OUT_OF_BOUND_ERR, inst)
          else
            bindc (memcpy_from src 0 (unat el_type_size)) (\<lambda>x.
            bindc (buf_of (v_data v)) (\<lambda>d.
            bindc (memcpy_to d (unat (index * el_type_size)) x) (\<lambda>d'.
              Inr (NO_ERR, Some (v\<lparr>v_data := DBuf d'\<rparr>)))))
      | _ \<Rightarrow> Inr (NULL_PTR_ERR, inst))"

definition top_v ::
  "vector option \<Rightarrow> size_t \<Rightarrow> bytes option \<Rightarrow> fault + (uint8_t \<times> bytes option)" where
  "top_v inst el_type_size val =
     (case inst of None \<Rightarrow> Inr (NULL_PTR_ERR, val)
      | Some v \<Rightarrow>
          if v_size v = 0 then Inr (ZERO_SIZE_VECTOR, val)
          else get inst (v_size v - 1) el_type_size val)"

definition pop ::
  "vector option \<Rightarrow> size_t \<Rightarrow> bytes option \<Rightarrow> fault + (uint8_t \<times> vector option \<times> bytes option)" where
  "pop inst el_type_size val =
     (case inst of None \<Rightarrow> Inr (NULL_PTR_ERR, inst, val)
      | Some v \<Rightarrow>
          if v_size v = 0 then Inr (ZERO_SIZE_VECTOR, inst, val)
          else bindc (top_v inst el_type_size val) (\<lambda>(res, val').
            Inr (res, (if res = NO_ERR then Some (v\<lparr>v_size := v_size v - 1\<rparr>) else inst), val')))"

subsection \<open>vector.c: operations under the lock\<close>

definition add_multithread ::
  "vector option \<Rightarrow> bytes option \<Rightarrow> size_t \<Rightarrow> (nat \<Rightarrow> bool) \<Rightarrow> (nat \<Rightarrow> byte) \<Rightarrow>
     fault + (uint8_t \<times> vector option)" where
  "add_multithread inst el el_type_size rs junk =
     (case (inst, el) of
        (Some v, Some src) \<Rightarrow>
          if \<not> v_lock_init v then Inr (LOCK_INIT_ERR, inst)
          else
            bindc (with_lock rw_rdlock v) (\<lambda>v1.
            bindc (spin_realloc v1) (\<lambda>_.
            bindc (with_lock rw_unlock v1) (\<lambda>v2.
            bindc (with_lock rw_wrlock v2) (\<lambda>v3.
            bindc (add (Some v3) el el_type_size rs junk) (\<lambda>(res, r).
            case r of None \<Rightarrow> Inl NullDeref
            | Some v4 \<Rightarrow> bindc (with_lock rw_unlock v4) (\<lambda>v5. Inr (res, Some v5)))))))
      | _ \<Rightarrow> Inr (NULL_PTR_ERR, inst))"

definition get_multithread ::
  "vector option \<Rightarrow> size_t \<Rightarrow> size_t \<Rightarrow> bytes option \<Rightarrow>
     fault + (uint8_t \<times> vector option \<times> bytes option)" where
  "get_multithread inst index el_type_size val =
     (case (inst, val) of
        (Some v, Some _) \<Rightarrow>
          if \<not> v_lock_init v then Inr (LOCK_INIT_ERR, inst, val)
          else
            bindc (with_lock rw_rdlock v) (\<lambda>v1.
            bindc (spin_realloc v1) (\<lambda>_.
            bindc (get (Some v1) index el_type_size val) (\<lambda>(res, val').
            bindc (with_lock rw_unlock v1) (\<lambda>v2. Inr (res, Some v2, val')))))
      | _ \<Rightarrow> Inr (NULL_PTR_ERR, inst, val))"

definition set_multithread ::
  "vector option \<Rightarrow> size_t \<Rightarrow> size_t \<Rightarrow> bytes option \<Rightarrow> fault + (uint8_t \<times> vector option)" where
  "set_multithread inst index el_type_size el =
     (case (inst, el) of
        (Some v, Some _) \<Rightarrow>
          if \<not> v_lock_init v then Inr (LOCK_INIT_ERR, inst)
          else
            bindc (with_lock rw_wrlock v) (\<lambda>v1.
            bindc (spin_realloc v1) (\<lambda>_.
            bindc (set_v (Some v1) index el_type_size el) (\<lambda>(res, r).
            case r of None \<Rightarrow> Inl NullDeref
            | Some v2 \<Rightarrow> bindc (with_lock rw_unlock v2) (\<lambda>v3. Inr (res, Some v3)))))
      | _ \<Rightarrow> Inr (NULL_PTR_ERR, inst))"

definition top_multithread ::
  "vector option \<Rightarrow> size_t \<Rightarrow> bytes option \<Rightarrow>
     fault + (uint8_t \<times> vector option \<times> bytes option)" where
  "top_multithread inst el_type_size val =
     (case inst of None \<Rightarrow> Inr (NULL_PTR_ERR, inst, val)
      | Some v \<Rightarrow>
          if v_size v = 0 then Inr (ZERO_SIZE_VECTOR, inst, val)
          else get_multithread inst (v_size v - 1) el_type_size val)"

definition pop_multithread ::
  "vector option \<Rightarrow> size_t \<Rightarrow> bytes option \<Rightarrow>
     fault + (uint8_t \<times> vector option \<times> bytes option)" where
  "pop_multithread inst el_type_size val =
     (case inst of None \<Rightarrow> Inr (NULL_PTR_ERR, inst, val)
      | Some v \<Rightarrow>
          if v_size v = 0 then Inr (ZERO_SIZE_VECTOR, inst, val)
          else bindc (top_multithread inst el_type_size val) (\<lambda>(res, r, val').
            Inr (res, (if res = NO_ERR then map_option (v_size_update (\<lambda>n. n - 1)) r else r), val')))"

subsection \<open>Growth of the capacity\<close>

lemma fl_pos: "0 < x \<Longrightarrow> 0 < fl x"
  using fl_bounds(1) [of x] by (simp add: order_less_le_trans)

lemma fl_scaled_error:
  assumes "0 < x" and "0 \<le> c" and "c * x \<le> 2 ^ 53"
  shows "\<bar>c * fl x - c * x\<bar> \<le> 1"
proof -
  have "\<bar>c * fl x - c * x\<bar> = c * \<bar>fl x - x\<bar>"
    using assms(2) by (simp add: abs_mult flip: right_diff_distrib)
  also have "\<dots> \<le> c * (x / 2 ^ 53)"
    using fl_rel_error [OF assms(1)] assms(2) by (rule mult_left_mono)
  also have "\<dots> \<le> 1"
    using assms(3) by simp
  finally show ?thesis .
qed

lemma grown_near:
  assumes "1 \<le> c" and "c \<le> 2 ^ 50"
  defines "g \<equiv> 1024 * of_nat c / (of_nat c + 128) :: rat"
  shows "\<bar>grown c - (of_nat c + g)\<bar> \<le> 3" and "7 \<le> g" and "g \<le> 1024"
proof -
  define d :: rat where "d = of_nat c"
  have d: "1 \<le> d" "d \<le> 2 ^ 50"
    using assms(1,2) by (simp_all add: d_def)
  have g: "g = d * (1024 / (d + 128))"
    by (simp add: g_def d_def)
  show g7: "7 \<le> g" and g1024: "g \<le> 1024"
    using d by (simp_all add: g field_simps)
  have fld: "fl (of_nat c) = d"
    using assms(2) by (simp add: d_def fl_nat_exact)
  have s: "fl (d + 128) = d + 128"
    using fl_nat_exact [of "c + 128"] assms(2) by (simp add: d_def)
  define q where "q = fl (1024 / (d + 128))"
  define r where "r = fl (q + 1)"
  have q: "0 < q" and r: "0 < r"
    using d by (auto simp: q_def r_def intro!: fl_pos add_pos_pos divide_pos_pos)
  have e1: "\<bar>d * q - g\<bar> \<le> 1"
    unfolding q_def g using d g1024 by (intro fl_scaled_error) (auto simp: g)
  have e2: "\<bar>d * r - d * (q + 1)\<bar> \<le> 1"
    unfolding r_def using d q e1 g1024
    by (intro fl_scaled_error) (auto simp: abs_le_iff algebra_simps)
  have "d * r \<le> 2 ^ 53"
    using e1 e2 g1024 d by (simp add: abs_le_iff algebra_simps)
  then have e3: "\<bar>fl (d * r) - d * r\<bar> \<le> 1"
    using fl_scaled_error [of "d * r" 1] d r by simp
  have "grown c = fl (d * r)"
    unfolding grown_def realloc_coefficient_def Let_def fld s q_def [symmetric] r_def [symmetric] ..
  then show "\<bar>grown c - (of_nat c + g)\<bar> \<le> 3"
    using e1 e2 e3 unfolding d_def [symmetric] by (simp add: abs_le_iff algebra_simps)
qed

text \<open>
  The new capacity exceeds the old one by at least 4 and at most 1027, for every capacity from 1 up
  to \<open>2 ^ 50\<close>: the factor is geometric only for small vectors. A vector of capacity 0 never grows.
\<close>

lemma grown_floor:
  assumes "1 \<le> c" and "c \<le> 2 ^ 50"
  shows "int c + 4 \<le> \<lfloor>grown c\<rfloor>" and "\<lfloor>grown c\<rfloor> \<le> int c + 1027"
proof -
  have "of_int (int c + 4) \<le> grown c" and "grown c \<le> of_int (int c + 1027)"
    using grown_near [OF assms] by (simp_all add: abs_le_iff)
  then show "int c + 4 \<le> \<lfloor>grown c\<rfloor>" and "\<lfloor>grown c\<rfloor> \<le> int c + 1027"
    by (simp_all only: le_floor_iff floor_le_iff)
qed

lemma grown_0: "grown 0 = 0"
  by (simp add: grown_def fl_def)

subsection \<open>Invariant and abstraction\<close>

definition elem_at :: "nat \<Rightarrow> bytes \<Rightarrow> nat \<Rightarrow> bytes" where
  "elem_at n d i = take n (drop (i * n) d)"

definition elems :: "size_t \<Rightarrow> vector \<Rightarrow> bytes list" where
  "elems ts v = (case v_data v of
      DBuf d \<Rightarrow> map (elem_at (unat ts) d) [0..<unat (v_size v)] | _ \<Rightarrow> [])"

definition vec_inv :: "size_t \<Rightarrow> vector \<Rightarrow> bool" where
  "vec_inv ts v \<longleftrightarrow> (case v_data v of
      DBuf d \<Rightarrow> 0 < unat ts \<and> length d = unat (v_capacity v) * unat ts \<and> length d < 2 ^ 64 \<and>
        v_size v \<le> v_capacity v \<and> \<not> v_realloc_process v
    | _ \<Rightarrow> False)"

lemma vec_invE:
  assumes "vec_inv ts v"
  obtains d where "v_data v = DBuf d" "0 < unat ts" "length d = unat (v_capacity v) * unat ts"
    "unat (v_capacity v) * unat ts < 2 ^ 64" "unat (v_size v) \<le> unat (v_capacity v)"
    "\<not> v_realloc_process v"
  using assms by (auto simp: vec_inv_def word_le_nat_alt split: dptr.splits)

lemma length_elems: "vec_inv ts v \<Longrightarrow> length (elems ts v) = unat (v_size v)"
  by (auto simp: elems_def vec_inv_def split: dptr.splits)

lemma nth_elems:
  "v_data v = DBuf d \<Longrightarrow> i < unat (v_size v) \<Longrightarrow> elems ts v ! i = elem_at (unat ts) d i"
  by (simp add: elems_def)

lemma elems_empty_iff: "vec_inv ts v \<Longrightarrow> elems ts v = [] \<longleftrightarrow> v_size v = 0"
  by (metis length_0_conv length_elems unat_eq_zero)

lemma elem_at_take: "(i + 1) * n \<le> m \<Longrightarrow> elem_at n (take m d) i = elem_at n d i"
  by (simp add: elem_at_def take_drop min_def add.commute)

lemma elem_at_append: "(i + 1) * n \<le> length d \<Longrightarrow> elem_at n (d @ d') i = elem_at n d i"
  by (simp add: elem_at_def)

lemma mult_slot_le:
  assumes "i < (k :: nat)"
  shows "i * n + n \<le> k * n"
  using mult_le_mono1 [of "i + 1" k n] assms by simp

lemma elem_at_write:
  assumes "length x = n" and "j * n + n \<le> length d"
  shows "elem_at n (write_at (j * n) x d) i = (if i = j then x else elem_at n d i)"
proof -
  consider "i = j" | "i < j" | "j < i"
    by linarith
  then show ?thesis
  proof cases
    case 1
    then show ?thesis using assms by (simp add: elem_at_def) (metis slice_write_at_same)
  next
    case 2
    then have "i * n + n \<le> j * n" by (rule mult_slot_le)
    with 2 show ?thesis using assms unfolding elem_at_def by (subst slice_write_at_other) auto
  next
    case 3
    then have "j * n + n \<le> i * n" by (rule mult_slot_le)
    with 3 show ?thesis using assms unfolding elem_at_def by (subst slice_write_at_other) auto
  qed
qed

subsection \<open>A full vector grows\<close>

definition growable :: "size_t \<Rightarrow> vector \<Rightarrow> bool" where
  "growable ts v \<longleftrightarrow> 1 \<le> unat (v_capacity v) \<and> unat (v_capacity v) \<le> 2 ^ 50 \<and>
     (unat (v_capacity v) + 1027) * unat ts < 2 ^ 64"

definition grow :: "size_t \<Rightarrow> (nat \<Rightarrow> byte) \<Rightarrow> vector \<Rightarrow> vector" where
  "grow ts junk v = (case v_data v of
      DBuf d \<Rightarrow>
        let c = word_of_int \<lfloor>grown (unat (v_capacity v))\<rfloor>; n = unat (c * ts)
        in v\<lparr>v_data := DBuf (take n d @ map junk [length d..<n]), v_capacity := c\<rparr>
    | _ \<Rightarrow> v)"

lemma grown_capacity:
  assumes "growable ts v"
  defines "c \<equiv> word_of_int \<lfloor>grown (unat (v_capacity v))\<rfloor> :: size_t"
  shows "grown (unat (v_capacity v)) < 2 ^ 64"
    and "unat (v_capacity v) + 4 \<le> unat c" and "unat c \<le> unat (v_capacity v) + 1027"
    and "unat (c * ts) = unat c * unat ts"
proof -
  let ?k = "unat (v_capacity v)"
  have k: "1 \<le> ?k" "?k \<le> 2 ^ 50" "(?k + 1027) * unat ts < 2 ^ 64"
    using assms(1) by (simp_all add: growable_def)
  have lo: "int ?k + 4 \<le> \<lfloor>grown ?k\<rfloor>" and hi: "\<lfloor>grown ?k\<rfloor> \<le> int ?k + 1027"
    using grown_floor k by blast+
  moreover have "?k \<le> 1125899906842624"
    using k(2) by simp
  ultimately have "\<lfloor>grown ?k\<rfloor> < 18446744073709551616"
    by linarith
  then show "grown ?k < 2 ^ 64"
    by (simp add: floor_less_iff)
  have "uint c = \<lfloor>grown ?k\<rfloor>"
    using \<open>\<lfloor>grown ?k\<rfloor> < 18446744073709551616\<close> order_trans [OF _ lo, of 0]
    unfolding c_def uint_word_of_int by (intro mod_pos_pos_trivial) simp_all
  then have c: "int (unat c) = \<lfloor>grown ?k\<rfloor>"
    by simp
  then show "?k + 4 \<le> unat c" and c_le: "unat c \<le> ?k + 1027"
    using lo hi by linarith+
  have "unat c * unat ts \<le> (?k + 1027) * unat ts"
    using c_le by (rule mult_le_mono1)
  then have "unat c * unat ts < 2 ^ 64"
    using k(3) by (rule order_le_less_trans)
  then show "unat (c * ts) = unat c * unat ts"
    using unat_mult_lem [of c ts] by simp
qed

lemma resize_eq:
  assumes "v_data v = DBuf d" and "growable ts v" and "0 < unat ts"
  shows "resize v ts ok junk = (if ok then Inr (NO_ERR, grow ts junk v) else Inr (REALLOC_ERR, v))"
  using grown_capacity [OF assms(2)] assms(1,3)
  by (simp add: resize_def grow_def realloc_def Let_def)

lemma resize_loop_eq:
  assumes "v_data v = DBuf d" and "growable ts v" and "0 < unat ts" and "tries \<le> REALLOC_TRIES"
  shows "resize_loop v ts rs junk tries =
    Inr (if \<exists>i \<in> {tries..REALLOC_TRIES}. rs i then grow ts junk v else v)"
  using assms(4)
proof (induction "REALLOC_TRIES - tries" arbitrary: tries)
  case 0
  then have "tries = REALLOC_TRIES"
    by simp
  then show ?case
    using resize_eq [OF assms(1-3)] by (subst resize_loop.simps) simp
next
  case (Suc k)
  then have *: "tries < REALLOC_TRIES"
    by simp
  then have split: "{tries..REALLOC_TRIES} = insert tries {Suc tries..REALLOC_TRIES}"
    by auto
  have "resize_loop v ts rs junk (Suc tries) =
      Inr (if \<exists>i \<in> {Suc tries..REALLOC_TRIES}. rs i then grow ts junk v else v)"
    using Suc(2) * by (intro Suc(1)) auto
  then show ?case
    using resize_eq [OF assms(1-3)] * unfolding split by (subst resize_loop.simps) simp
qed

lemma grow_keeps:
  assumes "vec_inv ts v" and "growable ts v"
  shows "vec_inv ts (grow ts junk v)" and "elems ts (grow ts junk v) = elems ts v"
    and "v_size (grow ts junk v) = v_size v" and "v_size v < v_capacity (grow ts junk v)"
    and "v_rwlock (grow ts junk v) = v_rwlock v" and "v_lock_init (grow ts junk v) = v_lock_init v"
proof -
  obtain d where d: "v_data v = DBuf d" "0 < unat ts" "length d = unat (v_capacity v) * unat ts"
      "unat (v_size v) \<le> unat (v_capacity v)" "\<not> v_realloc_process v"
    using assms(1) by (auto elim: vec_invE)
  define c where "c = (word_of_int \<lfloor>grown (unat (v_capacity v))\<rfloor> :: size_t)"
  define n where "n = unat (c * ts)"
  have c: "unat (v_capacity v) + 4 \<le> unat c" and n: "n = unat c * unat ts"
    using grown_capacity [OF assms(2)] by (simp_all add: c_def n_def)
  have dn: "length d \<le> n"
    unfolding n d(3) using c by (intro mult_le_mono1) simp
  then have g: "grow ts junk v =
      v\<lparr>v_data := DBuf (d @ map junk [length d..<n]), v_capacity := c\<rparr>"
    by (simp add: grow_def d(1) c_def n_def Let_def)
  show "v_size (grow ts junk v) = v_size v" and "v_rwlock (grow ts junk v) = v_rwlock v"
      and "v_lock_init (grow ts junk v) = v_lock_init v"
    by (simp_all add: g)
  show "v_size v < v_capacity (grow ts junk v)"
    using c d(4) by (simp add: g word_less_nat_alt)
  have "length (d @ map junk [length d..<n]) = unat c * unat ts"
    using dn by (simp add: n)
  moreover have "n < 2 ^ 64"
    using unat_size_t_less [of "c * ts"] by (simp add: n_def)
  ultimately show "vec_inv ts (grow ts junk v)"
    using c d dn n by (simp add: vec_inv_def g word_le_nat_alt)
  have "elem_at (unat ts) (d @ map junk [length d..<n]) i = elem_at (unat ts) d i"
    if "i < unat (v_size v)" for i
    using that d(3,4) mult_slot_le [of i "unat (v_capacity v)" "unat ts"]
    by (intro elem_at_append) (simp add: add.commute)
  then show "elems ts (grow ts junk v) = elems ts v"
    by (simp add: g elems_def d(1))
qed

subsection \<open>Behaviour of the operations\<close>

lemma slot_offset:
  assumes "vec_inv ts v" and "v_data v = DBuf d" and "w < v_capacity v"
  shows "unat (w * ts) = unat w * unat ts" and "unat w * unat ts + unat ts \<le> length d"
proof -
  have len: "length d = unat (v_capacity v) * unat ts" "length d < 2 ^ 64"
    using assms(1,2) by (auto simp: vec_inv_def)
  show le: "unat w * unat ts + unat ts \<le> length d"
    unfolding len using assms(3) by (intro mult_slot_le) (simp add: word_less_nat_alt)
  then have "unat w * unat ts < 2 ^ 64"
    using len(2) by linarith
  then show "unat (w * ts) = unat w * unat ts"
    using unat_mult_lem [of w ts] by simp
qed

text \<open>The two writes of the vector: one slot of the buffer is replaced, one slot is appended.\<close>

lemma write_slot:
  assumes "vec_inv ts v" and "v_data v = DBuf d" and "w < v_capacity v" and "length x = unat ts"
  defines "d' \<equiv> write_at (unat w * unat ts) x d"
  shows "memcpy_to d (unat (w * ts)) x = Inr d'"
    and "vec_inv ts (v\<lparr>v_data := DBuf d'\<rparr>)"
    and "elem_at (unat ts) d' i = (if i = unat w then x else elem_at (unat ts) d i)"
proof -
  note off = slot_offset [OF assms(1-3)]
  show "memcpy_to d (unat (w * ts)) x = Inr d'"
    using off assms(4) by (simp add: d'_def c_run)
  show "vec_inv ts (v\<lparr>v_data := DBuf d'\<rparr>)"
    using assms(1,2,4) off(2) by (simp add: vec_inv_def d'_def)
  show "elem_at (unat ts) d' i = (if i = unat w then x else elem_at (unat ts) d i)"
    unfolding d'_def using assms(4) off(2) by (intro elem_at_write) simp_all
qed

lemma unat_Suc_size:
  assumes "v_size v < v_capacity v"
  shows "unat (v_size v + 1) = Suc (unat (v_size v))"
proof -
  have "unat (v_size v) + 1 < 2 ^ 64"
    using assms unat_size_t_less [of "v_capacity v"] by (simp add: word_less_nat_alt)
  then show ?thesis
    by (simp add: unat_add_lem [THEN iffD1])
qed

lemma append_slot:
  assumes "vec_inv ts v" and "v_size v < v_capacity v" and "unat ts \<le> length src"
    and "\<not> is_full (Some v)"
  shows "\<exists>v'. add (Some v) (Some src) ts rs junk = Inr (NO_ERR, Some v') \<and> vec_inv ts v' \<and>
     elems ts v' = elems ts v @ [take (unat ts) src] \<and>
     v_rwlock v' = v_rwlock v \<and> v_lock_init v' = v_lock_init v"
proof -
  obtain d where d: "v_data v = DBuf d"
    using assms(1) by (rule vec_invE)
  let ?x = "take (unat ts) src"
  let ?d' = "write_at (unat (v_size v) * unat ts) ?x d"
  let ?v' = "v\<lparr>v_data := DBuf ?d', v_size := v_size v + 1\<rparr>"
  have x: "length ?x = unat ts"
    using assms(3) by simp
  note w = write_slot [OF assms(1) d assms(2) x]
  have "add (Some v) (Some src) ts rs junk = Inr (NO_ERR, Some ?v')"
    using assms(3,4) d w(1) by (simp add: add_def c_run)
  moreover have "vec_inv ts ?v'"
    using w(2) assms(2) unat_Suc_size [OF assms(2)]
    by (auto simp: vec_inv_def word_le_nat_alt word_less_nat_alt)
  moreover have "elems ts ?v' = elems ts v @ [?x]"
    using w(3) unat_Suc_size [OF assms(2)] by (simp add: elems_def d)
  ultimately show ?thesis
    by auto
qed

text \<open>When \<open>add\<close> has room: the vector is not full, or one of the eleven calls of \<open>realloc\<close> succeeds.\<close>

definition has_room :: "size_t \<Rightarrow> (nat \<Rightarrow> bool) \<Rightarrow> vector \<Rightarrow> bool" where
  "has_room ts rs v \<longleftrightarrow>
     v_size v < v_capacity v \<or> growable ts v \<and> (\<exists>i \<in> set [0..<Suc REALLOC_TRIES]. rs i)"

lemma add_full_eq:
  assumes "vec_inv ts v" and "growable ts v" and "is_full (Some v)"
  shows "add (Some v) (Some src) ts rs junk =
    (if \<exists>i \<in> set [0..<Suc REALLOC_TRIES]. rs i
     then add (Some (grow ts junk v)) (Some src) ts rs junk
     else Inl OutOfBounds)"
proof -
  obtain d where d: "v_data v = DBuf d" "0 < unat ts" "length d = unat (v_capacity v) * unat ts"
      "unat (v_capacity v) * unat ts < 2 ^ 64" "\<not> v_realloc_process v"
    using assms(1) by (rule vec_invE)
  let ?t = "v\<lparr>v_realloc_process := True\<rparr>"
  have gt: "growable ts ?t"
    using assms(2) by (simp add: growable_def)
  have loop: "resize_loop ?t ts rs junk 0 =
      Inr (if \<exists>i \<in> {0..REALLOC_TRIES}. rs i then grow ts junk ?t else ?t)"
    using d(1,2) gt by (intro resize_loop_eq) auto
  have set: "set [0..<Suc REALLOC_TRIES] = {0..REALLOC_TRIES}"
    by auto
  have reset: "(grow ts junk ?t)\<lparr>v_realloc_process := False\<rparr> = grow ts junk v"
    using d(1,5) by (cases v) (simp add: grow_def Let_def)
  have nf: "\<not> is_full (Some (grow ts junk v))"
    using grow_keeps(3,4) [OF assms(1,2), of junk] by (simp add: is_full_def not_le)
  have sz: "v_size v = v_capacity v"
    using assms(1,3) by (auto simp: is_full_def vec_inv_def split: dptr.splits)
  then have "unat (v_size v * ts) = length d"
    using d(3,4) unat_mult_lem [of "v_capacity v" ts] by simp
  then have oob: "memcpy_to d (unat (v_size v * ts)) (take (unat ts) src) = Inl OutOfBounds"
    if "unat ts \<le> length src"
    using that d(2) by (simp add: c_run)
  show ?thesis
  proof (cases "\<exists>i \<in> {0..REALLOC_TRIES}. rs i")
    case True
    then show ?thesis
      unfolding set using assms(3) nf loop reset by (simp add: add_def)
  next
    case False
    then show ?thesis
      unfolding set using assms(3) loop oob d(1)
      by (cases "unat ts \<le> length src") (simp_all add: add_def c_run)
  qed
qed

lemma add_spec:
  assumes "vec_inv ts v" and "has_room ts rs v" and "unat ts \<le> length src"
  shows "\<exists>v'. add (Some v) (Some src) ts rs junk = Inr (NO_ERR, Some v') \<and> vec_inv ts v' \<and>
     elems ts v' = elems ts v @ [take (unat ts) src] \<and>
     v_rwlock v' = v_rwlock v \<and> v_lock_init v' = v_lock_init v"
proof (cases "is_full (Some v)")
  case True
  then have nlt: "\<not> v_size v < v_capacity v"
    by (simp add: is_full_def not_less)
  then have g: "growable ts v" "\<exists>i \<in> set [0..<Suc REALLOC_TRIES]. rs i"
    using assms(2) by (simp_all add: has_room_def)
  note keeps = grow_keeps [OF assms(1) g(1), of junk]
  have "\<not> is_full (Some (grow ts junk v))"
    using keeps(3,4) by (simp add: is_full_def not_le)
  then have "\<exists>v'. add (Some (grow ts junk v)) (Some src) ts rs junk = Inr (NO_ERR, Some v') \<and>
      vec_inv ts v' \<and> elems ts v' = elems ts (grow ts junk v) @ [take (unat ts) src] \<and>
      v_rwlock v' = v_rwlock (grow ts junk v) \<and> v_lock_init v' = v_lock_init (grow ts junk v)"
    using keeps assms(3) by (intro append_slot) simp_all
  then show ?thesis
    using add_full_eq [OF assms(1) g(1) True] g(2) keeps by simp
next
  case False
  then have "v_size v < v_capacity v"
    by (simp add: is_full_def not_le)
  with assms False show ?thesis
    by (intro append_slot) auto
qed

lemma get_spec:
  assumes "vec_inv ts v" and "unat ts \<le> length out"
  shows "get (Some v) i ts (Some out) = Inr (
     if v_size v = 0 then (ZERO_SIZE_VECTOR, Some out)
     else if v_size v \<le> i then (OUT_OF_BOUND_ERR, Some out)
     else (NO_ERR, Some (elems ts v ! unat i @ drop (unat ts) out)))"
proof (cases "v_size v = 0 \<or> v_size v \<le> i")
  case True
  then show ?thesis
    by (auto simp: get_def is_out_range_def)
next
  case False
  obtain d where d: "v_data v = DBuf d" and le: "v_size v \<le> v_capacity v"
    using assms(1) by (auto simp: vec_inv_def split: dptr.splits)
  have i: "i < v_capacity v"
    using False le by (meson not_le order_less_le_trans)
  note off = slot_offset [OF assms(1) d i]
  have "unat i < unat (v_size v)"
    using False by (simp add: word_less_nat_alt not_le)
  moreover have "length (elem_at (unat ts) d (unat i)) = unat ts"
    using off(2) by (simp add: elem_at_def)
  moreover have "memcpy_from d (unat (i * ts)) (unat ts) = Inr (elem_at (unat ts) d (unat i))"
    using off by (simp add: elem_at_def c_run)
  ultimately show ?thesis
    using False d assms(2)
    by (simp add: get_def is_out_range_def nth_elems c_run) (simp add: write_at_def)
qed

lemma set_spec:
  assumes "vec_inv ts v" and "unat ts \<le> length src"
  shows "\<exists>v'. set_v (Some v) i ts (Some src) =
       Inr (if v_size v \<le> i then OUT_OF_BOUND_ERR else NO_ERR, Some v') \<and> vec_inv ts v' \<and>
     elems ts v' = (elems ts v)[unat i := take (unat ts) src] \<and>
     v_rwlock v' = v_rwlock v \<and> v_lock_init v' = v_lock_init v"
proof (cases "v_size v \<le> i")
  case True
  then show ?thesis
    using assms(1) length_elems [OF assms(1)]
    by (simp add: set_v_def is_out_range_def word_le_nat_alt list_update_beyond)
next
  case False
  obtain d where d: "v_data v = DBuf d" and le: "v_size v \<le> v_capacity v"
    using assms(1) by (auto simp: vec_inv_def split: dptr.splits)
  have i: "i < v_capacity v"
    using False le by (meson not_le order_less_le_trans)
  let ?x = "take (unat ts) src"
  have x: "length ?x = unat ts"
    using assms(2) by simp
  note w = write_slot [OF assms(1) d i x]
  let ?v' = "v\<lparr>v_data := DBuf (write_at (unat i * unat ts) ?x d)\<rparr>"
  have "set_v (Some v) i ts (Some src) = Inr (NO_ERR, Some ?v')"
    using False assms(2) d w(1) by (simp add: set_v_def is_out_range_def c_run)
  moreover have "elems ts ?v' = (elems ts v)[unat i := ?x]"
    by (rule nth_equalityI) (auto simp: elems_def d w(3) nth_list_update)
  ultimately show ?thesis
    using False w(2) by auto
qed

lemma top_spec:
  assumes "vec_inv ts v" and "unat ts \<le> length out"
  shows "top_v (Some v) ts (Some out) = Inr (
     if v_size v = 0 then (ZERO_SIZE_VECTOR, Some out)
     else (NO_ERR, Some (last (elems ts v) @ drop (unat ts) out)))"
proof (cases "v_size v = 0")
  case True
  then show ?thesis by (simp add: top_v_def)
next
  case False
  then have pos: "0 < unat (v_size v)"
    by (simp add: unat_gt_0)
  have m: "unat (v_size v - 1) = unat (v_size v) - 1"
    using False by (simp add: unat_minus_one)
  then have "\<not> v_size v \<le> v_size v - 1"
    using pos by (simp add: word_le_nat_alt)
  moreover have "elems ts v ! unat (v_size v - 1) = last (elems ts v)"
    using pos length_elems [OF assms(1)] m by (subst last_conv_nth) auto
  ultimately show ?thesis
    using False get_spec [OF assms, of "v_size v - 1"] by (simp add: top_v_def)
qed

lemma pop_spec:
  assumes "vec_inv ts v" and "unat ts \<le> length out"
  shows "\<exists>v'. pop (Some v) ts (Some out) = Inr (
       if v_size v = 0 then (ZERO_SIZE_VECTOR, Some v', Some out)
       else (NO_ERR, Some v', Some (last (elems ts v) @ drop (unat ts) out))) \<and>
     vec_inv ts v' \<and> elems ts v' = butlast (elems ts v)"
proof (cases "v_size v = 0")
  case True
  then show ?thesis
    using assms(1) elems_empty_iff [OF assms(1)] by (simp add: pop_def)
next
  case False
  let ?v' = "v\<lparr>v_size := v_size v - 1\<rparr>"
  have m: "unat (v_size v - 1) = unat (v_size v) - 1" and pos: "0 < unat (v_size v)"
    using False by (simp_all add: unat_minus_one unat_gt_0)
  then have "vec_inv ts ?v'"
    using assms(1) by (auto simp: vec_inv_def word_le_nat_alt split: dptr.splits)
  moreover have "elems ts ?v' = butlast (elems ts v)"
  proof -
    obtain k where k: "unat (v_size v) = Suc k"
      using pos by (cases "unat (v_size v)") auto
    then show ?thesis
      using m by (cases "v_data v") (simp_all add: elems_def butlast_append)
  qed
  ultimately show ?thesis
    using False top_spec [OF assms] by (simp add: pop_def)
qed

subsection \<open>The interface of a growable array\<close>

text \<open>
  What a client relies on: \<open>push\<close> appends where there is room, \<open>pop\<close> removes and returns the last
  element, \<open>nth_el\<close> reads. \<open>room\<close> is the provider's condition for a push to succeed.
\<close>

locale dyn_array =
  fixes inv :: "'v \<Rightarrow> bool"
    and abs :: "'v \<Rightarrow> 'e list"
    and elt :: "'e \<Rightarrow> bool"
    and room :: "'v \<Rightarrow> bool"
    and push :: "'v \<Rightarrow> 'e \<Rightarrow> fault + (uint8_t \<times> 'v option)"
    and pop_el :: "'v \<Rightarrow> fault + (uint8_t \<times> 'v option \<times> 'e option)"
    and nth_el :: "'v \<Rightarrow> size_t \<Rightarrow> fault + (uint8_t \<times> 'e option)"
  assumes push_law: "inv v \<Longrightarrow> room v \<Longrightarrow> elt x \<Longrightarrow>
      \<exists>v'. push v x = Inr (NO_ERR, Some v') \<and> inv v' \<and> abs v' = abs v @ [x]"
    and pop_law: "inv v \<Longrightarrow> abs v \<noteq> [] \<Longrightarrow>
      \<exists>v'. pop_el v = Inr (NO_ERR, Some v', Some (last (abs v))) \<and> inv v' \<and> abs v' = butlast (abs v)"
    and nth_law: "inv v \<Longrightarrow> unat i < length (abs v) \<Longrightarrow> nth_el v i = Inr (NO_ERR, Some (abs v ! unat i))"
begin

lemma push_pop:
  assumes "inv v" and "room v" and "elt x"
  shows "\<exists>v' v''. push v x = Inr (NO_ERR, Some v') \<and>
    pop_el v' = Inr (NO_ERR, Some v'', Some x) \<and> inv v'' \<and> abs v'' = abs v"
proof -
  obtain v' where v': "push v x = Inr (NO_ERR, Some v')" "inv v'" "abs v' = abs v @ [x]"
    using push_law [OF assms] by blast
  then have "\<exists>v''. pop_el v' = Inr (NO_ERR, Some v'', Some x) \<and> inv v'' \<and> abs v'' = abs v"
    using pop_law [OF v'(2)] by simp
  with v'(1) show ?thesis by blast
qed

lemma push_keeps:
  assumes "inv v" and "room v" and "elt x" and "unat i < length (abs v)"
  shows "\<exists>v'. push v x = Inr (NO_ERR, Some v') \<and> nth_el v' i = nth_el v i"
proof -
  obtain v' where v': "push v x = Inr (NO_ERR, Some v')" "inv v'" "abs v' = abs v @ [x]"
    using push_law [OF assms(1-3)] by blast
  then have "nth_el v' i = nth_el v i"
    using nth_law [OF v'(2), of i] nth_law [OF assms(1,4)] assms(4) by (simp add: nth_append)
  with v'(1) show ?thesis by blast
qed

end

interpretation vec: dyn_array "vec_inv ts" "elems ts" "\<lambda>x :: bytes. length x = unat ts" "has_room ts rs"
    "\<lambda>v x. add (Some v) (Some x) ts rs junk"
    "\<lambda>v. pop (Some v) ts (Some (replicate (unat ts) 0))"
    "\<lambda>v i. get (Some v) i ts (Some (replicate (unat ts) 0))"
  for ts :: size_t and rs :: "nat \<Rightarrow> bool" and junk :: "nat \<Rightarrow> byte"
proof
  fix v and x :: bytes
  assume "vec_inv ts v" and "has_room ts rs v" and x: "length x = unat ts"
  then have "\<exists>v'. add (Some v) (Some x) ts rs junk = Inr (NO_ERR, Some v') \<and> vec_inv ts v' \<and>
     elems ts v' = elems ts v @ [take (unat ts) x] \<and>
     v_rwlock v' = v_rwlock v \<and> v_lock_init v' = v_lock_init v"
    by (intro add_spec) simp_all
  then show "\<exists>v'. add (Some v) (Some x) ts rs junk = Inr (NO_ERR, Some v') \<and> vec_inv ts v' \<and>
     elems ts v' = elems ts v @ [x]"
    using x by auto
next
  fix v
  assume "vec_inv ts v" and "elems ts v \<noteq> []"
  then show "\<exists>v'. pop (Some v) ts (Some (replicate (unat ts) 0)) =
      Inr (NO_ERR, Some v', Some (last (elems ts v))) \<and> vec_inv ts v' \<and>
      elems ts v' = butlast (elems ts v)"
    using pop_spec [of ts v "replicate (unat ts) 0"] elems_empty_iff [of ts v] by auto
next
  fix v and i :: size_t
  assume inv: "vec_inv ts v" and i: "unat i < length (elems ts v)"
  then have "\<not> v_size v \<le> i" and "v_size v \<noteq> 0"
    using length_elems [OF inv] by (auto simp: word_le_nat_alt)
  then show "get (Some v) i ts (Some (replicate (unat ts) 0)) = Inr (NO_ERR, Some (elems ts v ! unat i))"
    using get_spec [OF inv, of "replicate (unat ts) 0" i] by simp
qed

subsection \<open>The operations under the lock\<close>

lemma add_keeps_lock:
  assumes "vec_inv ts v"
  shows "vec_inv ts (v\<lparr>v_rwlock := l\<rparr>)" and "elems ts (v\<lparr>v_rwlock := l\<rparr>) = elems ts v"
    and "has_room ts rs (v\<lparr>v_rwlock := l\<rparr>) = has_room ts rs v"
  using assms by (cases "v_data v"; simp add: vec_inv_def elems_def has_room_def growable_def)+

lemmas lock_run = with_lock_def spin_realloc_def

lemma add_multithread_spec:
  assumes "vec_inv ts v" and "has_room ts rs v" and "unat ts \<le> length src"
    and "v_lock_init v" and "v_rwlock v = Unlocked"
  shows "\<exists>v'. add_multithread (Some v) (Some src) ts rs junk = Inr (NO_ERR, Some v') \<and>
     vec_inv ts v' \<and> elems ts v' = elems ts v @ [take (unat ts) src] \<and>
     v_lock_init v' \<and> v_rwlock v' = Unlocked"
proof -
  let ?w = "v\<lparr>v_rwlock := WriteHeld\<rparr>"
  note keeps = add_keeps_lock [OF assms(1)]
  have "\<exists>v'. add (Some ?w) (Some src) ts rs junk = Inr (NO_ERR, Some v') \<and> vec_inv ts v' \<and>
     elems ts v' = elems ts ?w @ [take (unat ts) src] \<and>
     v_rwlock v' = v_rwlock ?w \<and> v_lock_init v' = v_lock_init ?w"
    using keeps assms(2,3) by (intro add_spec) simp_all
  then obtain v' where v': "add (Some ?w) (Some src) ts rs junk = Inr (NO_ERR, Some v')"
      "vec_inv ts v'" "elems ts v' = elems ts v @ [take (unat ts) src]"
      "v_rwlock v' = WriteHeld" "v_lock_init v'"
    using assms(4) keeps(2) by auto
  have "\<not> v_realloc_process v"
    using assms(1) by (rule vec_invE)
  then have "add_multithread (Some v) (Some src) ts rs junk =
      Inr (NO_ERR, Some (v'\<lparr>v_rwlock := Unlocked\<rparr>))"
    using assms(4,5) v'(1,4) by (simp add: add_multithread_def lock_run)
  then show ?thesis
    using v' add_keeps_lock [OF v'(2)] by auto
qed

lemma get_multithread_spec:
  assumes "vec_inv ts v" and "unat ts \<le> length out" and "v_lock_init v" and "v_rwlock v = Unlocked"
  shows "get_multithread (Some v) i ts (Some out) =
    bindc (get (Some v) i ts (Some out)) (\<lambda>(r, b). Inr (r, Some v, b))"
proof -
  have "\<not> v_realloc_process v"
    using assms(1) by (rule vec_invE)
  moreover have "get (Some (v\<lparr>v_rwlock := l\<rparr>)) i ts (Some out) = get (Some v) i ts (Some out)" for l
    by (simp add: get_def is_out_range_def)
  moreover have "v\<lparr>v_rwlock := Unlocked\<rparr> = v"
    using assms(4) by (cases v) simp
  ultimately show ?thesis
    using assms(3,4)
    by (cases "get (Some v) i ts (Some out)") (auto simp: get_multithread_def lock_run)
qed

subsection \<open>number_interface.c\<close>

definition int_vector_init :: "size_t \<Rightarrow> bool \<Rightarrow> bool \<Rightarrow> vector option \<Rightarrow> uint8_t \<times> vector option" where
  "int_vector_init capacity ok1 ok2 res_vector = vector_init capacity 8 ok1 ok2 res_vector"

definition int_vector_destroy :: "vector option \<Rightarrow> fault + uint8_t" where
  "int_vector_destroy inst = vector_destroy inst"

definition int_vector_multithread_init ::
  "size_t \<Rightarrow> bool \<Rightarrow> bool \<Rightarrow> int \<Rightarrow> int \<Rightarrow> int \<Rightarrow> vector option \<Rightarrow> uint8_t \<times> vector option" where
  "int_vector_multithread_init capacity ok1 ok2 rw mt cd res_vector =
     vector_multithread_init capacity 8 ok1 ok2 rw mt cd res_vector"

definition int_vector_multithread_destroy :: "vector option \<Rightarrow> fault + uint8_t" where
  "int_vector_multithread_destroy inst = vector_multithread_destroy inst"

definition double_vector_init :: "size_t \<Rightarrow> bool \<Rightarrow> bool \<Rightarrow> vector option \<Rightarrow> uint8_t \<times> vector option" where
  "double_vector_init capacity ok1 ok2 res_vector = vector_init capacity 8 ok1 ok2 res_vector"

definition double_vector_destroy :: "vector option \<Rightarrow> fault + uint8_t" where
  "double_vector_destroy inst = vector_destroy inst"

text \<open>
  The local \<open>int num\<close> has four bytes and \<open>add\<close> is told to read \<open>sizeof(int64_t)\<close> of them: \<open>stk\<close> is what
  lies behind \<open>num\<close> on the stack. With an empty \<open>stk\<close> the read is the out-of-bounds access that C
  makes undefined; with at least four bytes it is what the machine does.
\<close>

definition int_arg :: "int64_t \<Rightarrow> bytes \<Rightarrow> bytes" where
  "int_arg el stk = le_bytes 4 (ucast el :: 32 word) @ stk"

definition add_int ::
  "vector option \<Rightarrow> int64_t \<Rightarrow> uint8_t \<Rightarrow> bytes \<Rightarrow> (nat \<Rightarrow> bool) \<Rightarrow> (nat \<Rightarrow> byte) \<Rightarrow>
     fault + (uint8_t \<times> vector option)" where
  "add_int inst el multithread_flag stk rs junk =
     (if multithread_flag = 0 then add inst (Some (int_arg el stk)) 8 rs junk
      else add_multithread inst (Some (int_arg el stk)) 8 rs junk)"

definition set_int ::
  "vector option \<Rightarrow> size_t \<Rightarrow> int64_t \<Rightarrow> uint8_t \<Rightarrow> bytes \<Rightarrow> fault + (uint8_t \<times> vector option)" where
  "set_int inst index el multithread_flag stk =
     (if multithread_flag = 0 then set_v inst index 8 (Some (int_arg el stk))
      else set_multithread inst index 8 (Some (int_arg el stk)))"

abbreviation NO_EL :: int64_t where "NO_EL \<equiv> - 1"

text \<open>\<open>num_buff\<close> is the initial content of the local array of that name.\<close>

definition read_num :: "uint8_t \<Rightarrow> bytes option \<Rightarrow> fault + int64_t" where
  "read_num res num_buff =
     (if res \<noteq> NO_ERR then Inr NO_EL else bindc (ptr_bytes num_buff) (\<lambda>b. Inr (le_word (take 8 b))))"

definition get_int ::
  "vector option \<Rightarrow> size_t \<Rightarrow> uint8_t \<Rightarrow> bytes \<Rightarrow> fault + (int64_t \<times> vector option)" where
  "get_int inst index multithread_flag num_buff =
     (if multithread_flag = 0
      then bindc (get inst index 8 (Some num_buff)) (\<lambda>(res, b).
             bindc (read_num res b) (\<lambda>el. Inr (el, inst)))
      else bindc (get_multithread inst index 8 (Some num_buff)) (\<lambda>(res, inst', b).
             bindc (read_num res b) (\<lambda>el. Inr (el, inst'))))"

text \<open>\<open>top_int\<close> and \<open>pop_int\<close> are declared with the result type \<open>uint8_t\<close>.\<close>

definition top_int ::
  "vector option \<Rightarrow> uint8_t \<Rightarrow> bytes \<Rightarrow> fault + (uint8_t \<times> vector option)" where
  "top_int inst multithread_flag num_buff =
     (if multithread_flag = 0
      then bindc (top_v inst 8 (Some num_buff)) (\<lambda>(res, b).
             bindc (read_num res b) (\<lambda>el. Inr (ucast el, inst)))
      else bindc (top_multithread inst 8 (Some num_buff)) (\<lambda>(res, inst', b).
             bindc (read_num res b) (\<lambda>el. Inr (ucast el, inst'))))"

definition pop_int ::
  "vector option \<Rightarrow> uint8_t \<Rightarrow> bytes \<Rightarrow> fault + (uint8_t \<times> vector option)" where
  "pop_int inst multithread_flag num_buff =
     bindc (if multithread_flag = 0 then pop inst 8 (Some num_buff)
            else pop_multithread inst 8 (Some num_buff)) (\<lambda>(res, inst', b).
       bindc (read_num res b) (\<lambda>el. Inr (ucast el, inst')))"

text \<open>A \<open>double\<close> is its 64-bit object representation here; \<open>-1.0\<close> is the value for no element.\<close>

definition add_double ::
  "vector option \<Rightarrow> 64 word \<Rightarrow> (nat \<Rightarrow> bool) \<Rightarrow> (nat \<Rightarrow> byte) \<Rightarrow> fault + (uint8_t \<times> vector option)" where
  "add_double inst el rs junk = add inst (Some (le_bytes 8 el)) 8 rs junk"

definition get_double :: "vector option \<Rightarrow> size_t \<Rightarrow> bytes \<Rightarrow> fault + 64 word" where
  "get_double inst index num_buff =
     bindc (get inst index 8 (Some num_buff)) (\<lambda>(res, b).
       if res \<noteq> NO_ERR then Inr 0xBFF0000000000000
       else bindc (ptr_bytes b) (\<lambda>b. Inr (le_word (take 8 b))))"

subsection \<open>string_interface.c\<close>

text \<open>
  Strings live in a heap of NUL-terminated byte sequences; the vector stores their addresses.
\<close>

type_synonym str_heap = "size_t \<rightharpoonup> bytes"

definition str_vector_init :: "size_t \<Rightarrow> bool \<Rightarrow> bool \<Rightarrow> vector option \<Rightarrow> uint8_t \<times> vector option" where
  "str_vector_init capacity ok1 ok2 res_vector = vector_init capacity 8 ok1 ok2 res_vector"

definition copy_str :: "str_heap \<Rightarrow> bytes \<Rightarrow> size_t option \<Rightarrow> fault + (str_heap \<times> size_t)" where
  "copy_str h str m = (case m of None \<Rightarrow> Inl NullDeref
     | Some p \<Rightarrow> Inr (h(p \<mapsto> takeWhile (\<lambda>c. c \<noteq> 0) str @ [0]), p))"

definition add_string ::
  "vector option \<Rightarrow> str_heap \<Rightarrow> bytes \<Rightarrow> size_t option \<Rightarrow> (nat \<Rightarrow> bool) \<Rightarrow> (nat \<Rightarrow> byte) \<Rightarrow>
     fault + (uint8_t \<times> vector option \<times> str_heap)" where
  "add_string inst h el m rs junk =
     bindc (copy_str h el m) (\<lambda>(h', stored_str).
     bindc (add inst (Some (le_bytes 8 stored_str)) 8 rs junk) (\<lambda>(r, inst'). Inr (r, inst', h')))"

text \<open>
  The parameter \<open>str_res\<close> is a copy of the caller's pointer, which the assignment does not reach: the
  caller learns the return code only. On an error it is \<open>NO_EL\<close> converted to \<open>uint8_t\<close>.
\<close>

definition get_string :: "vector option \<Rightarrow> size_t \<Rightarrow> bytes \<Rightarrow> fault + uint8_t" where
  "get_string inst index string_ptr_buff =
     bindc (get inst index 8 (Some string_ptr_buff)) (\<lambda>(res, b).
       Inr (if res \<noteq> NO_ERR then - 1 else NO_ERR))"

text \<open>\<open>free\<close> gets the pointer that \<open>get_string\<close> did not set: any iteration uses an indeterminate value.\<close>

definition str_vector_destroy :: "vector option \<Rightarrow> fault + uint8_t" where
  "str_vector_destroy inst = (case inst of None \<Rightarrow> Inr NULL_PTR_ERR
     | Some v \<Rightarrow> if 0 < v_size v then Inl Uninit else vector_destroy inst)"

subsection \<open>Properties\<close>

lemma le_word_split:
  assumes "length t = 4"
  shows "le_word (le_bytes 4 (w :: 32 word) @ t) = or (ucast w) (push_bit 32 (le_word t))"
proof (rule bit_word_eqI)
  fix n
  assume "n < LENGTH(64)"
  then have n: "n < 64" by simp
  show "bit (le_word (le_bytes 4 w @ t)) n = bit (or (ucast w) (push_bit 32 (le_word t))) n"
  proof (cases "n < 32")
    case True
    define q r where "q = n div 8" and "r = n mod 8"
    have "n = 8 * q + r" and "q < 4" and "r < 8"
      using True by (simp_all add: q_def r_def less_mult_imp_div_less)
    then show ?thesis
      using n by (simp add: bit_le_word bit_or_iff bit_push_bit_iff bit_unsigned_iff nth_append
          le_bytes_def bit_drop_bit_eq)
  next
    case False
    then have "\<not> bit w n"
      using bit_imp_le_length [of w n] by auto
    moreover obtain m where "n = m + 4 * 8"
      using False le_Suc_ex [of 32 n] by auto
    then have "n div 8 = (n - 32) div 8 + 4" and "(n - 32) mod 8 = n mod 8"
      using mod_mult_self1 [of m 4 8] by simp_all
    ultimately show ?thesis
      using False n assms
      by (auto simp: bit_le_word bit_or_iff bit_push_bit_iff bit_unsigned_iff nth_append)
  qed
qed

lemma low_high_eq_iff:
  assumes "length stk = 4"
  shows "or (ucast (ucast el :: 32 word)) (push_bit 32 (le_word stk)) = el \<longleftrightarrow>
    le_word stk = drop_bit 32 (el :: 64 word)" (is "?l = el \<longleftrightarrow> _")
proof
  assume eq: "?l = el"
  show "le_word stk = drop_bit 32 el"
  proof (rule bit_word_eqI)
    fix n
    assume "n < LENGTH(64)"
    have "\<not> bit (le_word stk) n" if "32 \<le> n"
    proof -
      have "\<not> n div 8 < 4"
        using div_le_mono [OF that, of 8] by simp
      then show ?thesis
        using assms by (auto simp: bit_le_word)
    qed
    moreover have "bit (drop_bit 32 el) n = bit ?l (n + 32)"
      by (simp add: eq bit_drop_bit_eq add.commute)
    moreover have "\<not> bit (ucast el :: 32 word) (n + 32)"
      using bit_imp_le_length [of "ucast el :: 32 word" "n + 32"] by auto
    ultimately show "bit (le_word stk) n = bit (drop_bit 32 el) n"
      by (auto simp: bit_or_iff bit_push_bit_iff bit_unsigned_iff)
  qed
next
  assume eq: "le_word stk = drop_bit 32 el"
  show "?l = el"
  proof (rule bit_word_eqI)
    fix n
    assume "n < LENGTH(64)"
    then have n: "n < 64"
      by simp
    show "bit ?l n = bit el n"
    proof (cases "n < 32")
      case True
      with n show ?thesis
        by (simp add: bit_or_iff bit_push_bit_iff bit_unsigned_iff)
    next
      case False
      then obtain m where "n = 32 + m"
        by (metis le_iff_add not_less)
      then show ?thesis
        using n by (simp add: eq bit_or_iff bit_push_bit_iff bit_unsigned_iff bit_drop_bit_eq)
    qed
  qed
qed

lemma get_after_add:
  assumes "vec_inv ts v" and "has_room ts rs v" and "unat ts \<le> length src" and "length out = unat ts"
  shows "\<exists>v'. add (Some v) (Some src) ts rs junk = Inr (NO_ERR, Some v') \<and> vec_inv ts v' \<and>
     get (Some v') (v_size v) ts (Some out) = Inr (NO_ERR, Some (take (unat ts) src))"
proof -
  obtain v' where v': "add (Some v) (Some src) ts rs junk = Inr (NO_ERR, Some v')" "vec_inv ts v'"
      "elems ts v' = elems ts v @ [take (unat ts) src]"
    using add_spec [OF assms(1-3)] by blast
  have len: "unat (v_size v') = Suc (unat (v_size v))"
    using length_elems [OF assms(1)] length_elems [OF v'(2)] v'(3) by simp
  then have "v_size v' \<noteq> 0" and "\<not> v_size v' \<le> v_size v"
    by (auto simp: word_le_nat_alt)
  moreover have "elems ts v' ! unat (v_size v) = take (unat ts) src"
    using v'(3) length_elems [OF assms(1)] by (simp add: nth_append)
  ultimately show ?thesis
    using v' get_spec [OF v'(2), of out "v_size v"] assms(4) by simp
qed

text \<open>C11: \<open>add\<close> appends. On a well-formed vector with room (a free slot, or a successful \<open>realloc\<close> among
  the eleven attempts) it returns \<open>NO_ERR\<close>, keeps the invariant and every stored element, and the
  elements afterwards are the old ones followed by the bytes of the new one.\<close>

theorem add_appends:
  assumes "vec_inv ts v" and "has_room ts rs v" and "unat ts \<le> length src"
  shows "\<exists>v'. add (Some v) (Some src) ts rs junk = Inr (NO_ERR, Some v') \<and> vec_inv ts v' \<and>
     elems ts v' = elems ts v @ [take (unat ts) src]"
  using add_spec [OF assms] by blast

definition one_slot :: vector where
  "one_slot = \<lparr>v_data = DBuf [7, 8], v_size = 1, v_capacity = 1, v_rwlock = Unlocked,
     v_realloc_process = False, v_lock_init = True\<rparr>"

lemma one_slot_facts:
  "vec_inv 2 one_slot" "growable 2 one_slot" "is_full (Some one_slot)" "elems 2 one_slot = [[7, 8]]"
  by (simp_all add: one_slot_def vec_inv_def growable_def is_full_def elems_def elem_at_def)

theorem add_appends_witness:
  "\<exists>v'. add (Some one_slot) (Some [1, 2, 3]) 2 (\<lambda>i. i = 4) (\<lambda>_. 0) = Inr (NO_ERR, Some v') \<and>
     vec_inv 2 v' \<and> elems 2 v' = [[7, 8], [1, 2]]"
proof -
  have "has_room 2 (\<lambda>i. i = 4) one_slot"
    using one_slot_facts(2) by (simp add: has_room_def)
  then show ?thesis
    using add_appends [of 2 one_slot "\<lambda>i. i = 4" "[1, 2, 3]" "\<lambda>_. 0"] one_slot_facts by simp
qed

text \<open>\<open>add\<close> ignores the failure of \<open>resize\<close>. On a full vector, when \<open>realloc\<close> fails in all eleven
  attempts, it goes on and copies the element behind the end of the buffer instead of returning
  \<open>REALLOC_ERR\<close>.\<close>

theorem add_out_of_memory:
  assumes "vec_inv ts v" and "growable ts v" and "is_full (Some v)"
    and "\<forall>i \<le> REALLOC_TRIES. \<not> rs i"
  shows "add (Some v) (Some src) ts rs junk = Inl OutOfBounds"
  using add_full_eq [OF assms(1-3), of src rs junk] assms(4) by (auto simp: less_Suc_eq_le)

theorem add_out_of_memory_witness:
  "add (Some one_slot) (Some [1, 2]) 2 (\<lambda>_. False) (\<lambda>_. 0) = Inl OutOfBounds"
  using add_out_of_memory [OF one_slot_facts(1-3)] by simp

text \<open>The reading and writing operations act on the list of elements. With an index below the
  size \<open>get\<close> returns that element and \<open>set\<close> replaces it and nothing else; with any other index both
  return their error code and change nothing.\<close>

theorem get_set_elements:
  assumes "vec_inv ts v" and "length out = unat ts" and "unat ts \<le> length src"
  shows "get (Some v) i ts (Some out) = Inr (
      if elems ts v = [] then (ZERO_SIZE_VECTOR, Some out)
      else if length (elems ts v) \<le> unat i then (OUT_OF_BOUND_ERR, Some out)
      else (NO_ERR, Some (elems ts v ! unat i))) \<and>
    (\<exists>v'. set_v (Some v) i ts (Some src) =
        Inr (if length (elems ts v) \<le> unat i then OUT_OF_BOUND_ERR else NO_ERR, Some v') \<and>
      vec_inv ts v' \<and> elems ts v' = (elems ts v)[unat i := take (unat ts) src])"
  using get_spec [of ts v out i] set_spec [OF assms(1,3), of i] assms(1,2) length_elems [OF assms(1)]
    elems_empty_iff [OF assms(1)]
  by (auto simp: word_le_nat_alt)

theorem get_set_elements_witness:
  "get (Some one_slot) 0 2 (Some [0, 0]) = Inr (NO_ERR, Some [7, 8]) \<and>
   (\<exists>v'. set_v (Some one_slot) 0 2 (Some [5, 6]) = Inr (NO_ERR, Some v') \<and> elems 2 v' = [[5, 6]])"
  using get_set_elements [of 2 one_slot "[0, 0]" "[5, 6]" 0] one_slot_facts by auto

text \<open>C32: the vector is a stack. Whatever \<open>add\<close> pushed, the next \<open>pop\<close> returns it and leaves the
  elements that were there before, also when the push had to grow the buffer.\<close>

theorem add_pop_roundtrip:
  assumes "vec_inv ts v" and "has_room ts rs v" and "length x = unat ts"
  shows "\<exists>v' v''. add (Some v) (Some x) ts rs junk = Inr (NO_ERR, Some v') \<and>
    pop (Some v') ts (Some (replicate (unat ts) 0)) = Inr (NO_ERR, Some v'', Some x) \<and>
    vec_inv ts v'' \<and> elems ts v'' = elems ts v"
  using assms by (rule vec.push_pop)

theorem add_pop_roundtrip_witness:
  "\<exists>v' v''. add (Some one_slot) (Some [1, 2]) 2 (\<lambda>_. True) (\<lambda>_. 0) = Inr (NO_ERR, Some v') \<and>
    pop (Some v') 2 (Some [0, 0]) = Inr (NO_ERR, Some v'', Some [1, 2]) \<and> elems 2 v'' = [[7, 8]]"
proof -
  have "has_room 2 (\<lambda>_. True) one_slot"
    using one_slot_facts(2) unfolding has_room_def by (intro disjI2 conjI bexI [of _ 0]) simp_all
  moreover have "unat (2 :: size_t) = Suc (Suc 0)"
    by simp
  then have "replicate (unat (2 :: size_t)) (0 :: byte) = [0, 0]"
    by (simp only: replicate.simps)
  ultimately show ?thesis
    using add_pop_roundtrip [of 2 one_slot "\<lambda>_. True" "[1, 2]" "\<lambda>_. 0"] one_slot_facts by auto
qed

text \<open>\<open>clear\<close> erases the struct instead of the elements. After clearing a vector that holds between 24
  and 184 bytes of elements, \<open>data\<close> is NULL and the capacity 0, the buffer is lost, and every
  following \<open>add\<close> runs into undefined behaviour.\<close>

theorem clear_destroys_vector:
  assumes "24 \<le> unat (v_size v * ts)" and "unat (v_size v * ts) \<le> sizeof_vector"
  shows "\<exists>v'. clear (Some v) ts = Inr (NO_ERR, Some v') \<and> v_data v' = DNull \<and> v_capacity v' = 0 \<and>
    add (Some v') (Some src) ts rs junk = Inl InvalidPtr"
proof -
  let ?n = "unat (v_size v * ts)"
  let ?v' = "(clear_struct ?n v)\<lparr>v_size := 0\<rparr>"
  have c: "clear (Some v) ts = Inr (NO_ERR, Some ?v')"
    using assms by (simp add: clear_def Let_def)
  have "8 \<le> ?n - 16"
    using assms(1) by linarith
  then have f: "v_data ?v' = DNull" "v_capacity ?v' = 0" "v_size ?v' = 0"
    using assms(1) by (simp_all add: clear_struct_def zero_low_bytes_def)
  have "resize_loop (?v'\<lparr>v_realloc_process := True\<rparr>) ts rs junk 0 = Inl InvalidPtr"
    using f by (subst resize_loop.simps) (simp add: resize_def grown_0)
  then have "add (Some ?v') (Some src) ts rs junk = Inl InvalidPtr"
    using f by (simp add: add_def is_full_def)
  with c f show ?thesis by blast
qed

theorem clear_destroys_vector_witness:
  "\<exists>v v'. elems 8 v = [[1,0,0,0,0,0,0,0], [2,0,0,0,0,0,0,0], [3,0,0,0,0,0,0,0]] \<and>
    clear (Some v) 8 = Inr (NO_ERR, Some v') \<and>
    add (Some v') (Some [4,0,0,0,0,0,0,0]) 8 (\<lambda>_. True) (\<lambda>_. 0) = Inl InvalidPtr"
proof -
  let ?v = "\<lparr>v_data = DBuf [1,0,0,0,0,0,0,0,2,0,0,0,0,0,0,0,3,0,0,0,0,0,0,0], v_size = 3,
     v_capacity = 3, v_rwlock = Unlocked, v_realloc_process = False, v_lock_init = False\<rparr>"
  have "elems 8 ?v = [[1,0,0,0,0,0,0,0], [2,0,0,0,0,0,0,0], [3,0,0,0,0,0,0,0]]"
    by (simp add: elems_def elem_at_def upt_rec)
  then show ?thesis
    using clear_destroys_vector [of ?v 8 "[4,0,0,0,0,0,0,0]" "\<lambda>_. True" "\<lambda>_. 0"] by auto
qed

text \<open>What \<open>get_int\<close> returns for an element stored by \<open>add_int\<close>: the low 32 bits of the argument,
  below the four bytes that lay behind the local variable \<open>num\<close> on the stack of \<open>add_int\<close>. The value
  survives exactly when these bytes happen to be its upper half.\<close>

theorem add_int_get_int:
  assumes "vec_inv 8 v" and "has_room 8 rs v" and "length stk = 4" and "length num_buff = 8"
  shows "\<exists>v' el'. add_int (Some v) el 0 stk rs junk = Inr (NO_ERR, Some v') \<and>
    get_int (Some v') (v_size v) 0 num_buff = Inr (el', Some v') \<and>
    el' = or (ucast (ucast el :: 32 word)) (push_bit 32 (le_word stk)) \<and>
    (el' = el \<longleftrightarrow> le_word stk = drop_bit 32 el)"
proof -
  have "unat (8 :: size_t) \<le> length (int_arg el stk)"
    using assms(3) by (simp add: int_arg_def)
  then obtain v' where v': "add (Some v) (Some (int_arg el stk)) 8 rs junk = Inr (NO_ERR, Some v')"
      "get (Some v') (v_size v) 8 (Some num_buff) = Inr (NO_ERR, Some (take 8 (int_arg el stk)))"
    using get_after_add [OF assms(1,2), of "int_arg el stk" num_buff junk] assms(4) by auto
  have "take 8 (int_arg el stk) = le_bytes 4 (ucast el :: 32 word) @ stk"
    using assms(3) by (simp add: int_arg_def)
  then have "le_word (take 8 (int_arg el stk)) =
      or (ucast (ucast el :: 32 word)) (push_bit 32 (le_word stk))"
    using le_word_split [OF assms(3)] by simp
  then show ?thesis
    using v' low_high_eq_iff [OF assms(3)] by (simp add: add_int_def get_int_def read_num_def)
qed

definition empty_ints :: vector where
  "empty_ints = \<lparr>v_data = DBuf (replicate 8 0), v_size = 0, v_capacity = 1, v_rwlock = Unlocked,
     v_realloc_process = False, v_lock_init = False\<rparr>"

theorem add_int_get_int_witness:
  "\<exists>v' el'. add_int (Some empty_ints) (- 5) 0 [0, 0, 0, 0] (\<lambda>_. True) (\<lambda>_. 0) =
      Inr (NO_ERR, Some v') \<and>
    get_int (Some v') 0 0 [0,0,0,0,0,0,0,0] = Inr (el', Some v') \<and> el' = 0xFFFFFFFB"
proof -
  have "vec_inv 8 empty_ints" and "has_room 8 (\<lambda>_. True) empty_ints" and "v_size empty_ints = 0"
    by (simp_all add: vec_inv_def has_room_def empty_ints_def)
  then show ?thesis
    using add_int_get_int [of empty_ints "\<lambda>_. True" "[0, 0, 0, 0]" "[0,0,0,0,0,0,0,0]" "- 5" "\<lambda>_. 0"]
    by auto
qed

end
