(* ===== verification/Mem_Pool.thy ===== *)
theory Mem_Pool
  imports C_Prelude
begin

text \<open>
  The contract between an allocator and its clients: a request that finds room returns a block that
  is not in use, a release gives back exactly that block. \<open>mem_pool\<close> is interpreted on the boundary-tag
  allocator (theory \<open>Allocator\<close>) and on the slab cache (theory \<open>Slab_Cache\<close>).
\<close>

locale mem_pool =
  fixes inv :: "'s \<Rightarrow> bool"
    and live :: "'s \<Rightarrow> 'p set"
    and room :: "'s \<Rightarrow> 'r \<Rightarrow> bool"
    and alloc :: "'s \<Rightarrow> 'r \<Rightarrow> fault + ('p \<times> 's)"
    and release :: "'s \<Rightarrow> 'p \<Rightarrow> fault + 's"
  assumes alloc_law: "inv s \<Longrightarrow> room s r \<Longrightarrow>
      \<exists>p s'. alloc s r = Inr (p, s') \<and> inv s' \<and> p \<notin> live s \<and> live s' = insert p (live s)"
    and release_law: "inv s \<Longrightarrow> p \<in> live s \<Longrightarrow>
      \<exists>s'. release s p = Inr s' \<and> inv s' \<and> live s' = live s - {p}"
begin

fun release_all :: "'s \<Rightarrow> 'p list \<Rightarrow> fault + 's" where
  "release_all s [] = Inr s"
| "release_all s (p # ps) = bindc (release s p) (\<lambda>s'. release_all s' ps)"

lemma alloc_release:
  assumes "inv s" and "room s r"
  shows "\<exists>p s' s''. alloc s r = Inr (p, s') \<and> release s' p = Inr s'' \<and> inv s'' \<and> live s'' = live s"
proof -
  obtain p s' where p: "alloc s r = Inr (p, s')" "inv s'" "p \<notin> live s" "live s' = insert p (live s)"
    using alloc_law [OF assms] by blast
  then obtain s'' where "release s' p = Inr s''" "inv s''" "live s'' = live s' - {p}"
    using release_law [of s' p] by blast
  with p show ?thesis by auto
qed

lemma release_all_law:
  assumes "inv s" and "distinct ps" and "set ps \<subseteq> live s"
  shows "\<exists>s'. release_all s ps = Inr s' \<and> inv s' \<and> live s' = live s - set ps"
  using assms
proof (induction ps arbitrary: s)
  case (Cons p ps)
  then obtain s1 where s1: "release s p = Inr s1" "inv s1" "live s1 = live s - {p}"
    using release_law [of s p] by auto
  then have "\<exists>s'. release_all s1 ps = Inr s' \<and> inv s' \<and> live s' = live s1 - set ps"
    using Cons.prems by (intro Cons.IH) auto
  with s1 show ?case
    by auto
qed simp

end

end
