(* ===== verification/Allocator.thy ===== *)
theory Allocator
  imports Mem_Pool
begin

text \<open>
  The boundary-tag allocator of \<open>mem/allocator\<close> (\<open>alloc_utils.c\<close> and \<open>alloc.c\<close>).

  The block given to \<open>mysetup\<close> is the record \<open>arena\<close>: its base address, its 8-byte cells, and the
  static variable \<open>head\<close>. A pointer \<open>size_t *\<close> is its byte address, so pointer arithmetic wraps as on
  the machine; an access outside the block or between two cells is a fault. \<open>NULL\<close> is the address 0.

  The abstract state is the list of chunks in address order, each with the number of its cells and
  its two border markers. \<open>seg\<close> relates it to the cells; \<open>a_alloc\<close> and \<open>a_free\<close> are the abstract
  operations that \<open>myalloc\<close> and \<open>myfree\<close> implement for requests of whole cells.
\<close>

subsection \<open>Memory\<close>

record arena =
  a_base :: size_t
  a_cells :: "size_t list"
  a_head :: size_t

definition cell :: "arena \<Rightarrow> size_t \<Rightarrow> fault + nat" where
  "cell m p = (let d = unat (p - a_base m) in
     if d mod 8 \<noteq> 0 then Inl InvalidPtr
     else if d div 8 < length (a_cells m) then Inr (d div 8) else Inl OutOfBounds)"

definition load :: "arena \<Rightarrow> size_t \<Rightarrow> fault + size_t" where
  "load m p = bindc (cell m p) (\<lambda>i. Inr (a_cells m ! i))"

definition store :: "arena \<Rightarrow> size_t \<Rightarrow> size_t \<Rightarrow> fault + arena" where
  "store m p v = bindc (cell m p) (\<lambda>i. Inr (m\<lparr>a_cells := (a_cells m)[i := v]\<rparr>))"

subsection \<open>alloc_utils.c\<close>

abbreviation FREE :: size_t where "FREE \<equiv> 1"
abbreviation ALLOCATED :: size_t where "ALLOCATED \<equiv> 0"
abbreviation METAINFO_SIZE :: size_t where "METAINFO_SIZE \<equiv> 40"
abbreviation HEADER_SIZE :: size_t where "HEADER_SIZE \<equiv> 4"
abbreviation SIZE_OFFSET :: size_t where "SIZE_OFFSET \<equiv> 4"
abbreviation NEXT_OFFSET :: size_t where "NEXT_OFFSET \<equiv> 3"
abbreviation PREV_OFFSET :: size_t where "PREV_OFFSET \<equiv> 2"
abbreviation L_BORDER_MARKER_OFFSET :: size_t where "L_BORDER_MARKER_OFFSET \<equiv> 1"

definition chunk_init_metainfo :: "size_t \<Rightarrow> size_t" where
  "chunk_init_metainfo chunk = chunk + 8 * HEADER_SIZE"

definition set_size :: "arena \<Rightarrow> size_t \<Rightarrow> size_t \<Rightarrow> fault + arena" where
  "set_size m chunk sz = store m (chunk - 8 * SIZE_OFFSET) sz"

definition get_size :: "arena \<Rightarrow> size_t \<Rightarrow> fault + size_t" where
  "get_size m chunk = load m (chunk - 8 * SIZE_OFFSET)"

definition set_next_chunk_ptr :: "arena \<Rightarrow> size_t \<Rightarrow> size_t \<Rightarrow> fault + arena" where
  "set_next_chunk_ptr m chunk next_chunk = store m (chunk - 8 * NEXT_OFFSET) next_chunk"

definition get_next_chunk_ptr :: "arena \<Rightarrow> size_t \<Rightarrow> fault + size_t" where
  "get_next_chunk_ptr m chunk = load m (chunk - 8 * NEXT_OFFSET)"

definition set_prev_chunk_ptr :: "arena \<Rightarrow> size_t \<Rightarrow> size_t \<Rightarrow> fault + arena" where
  "set_prev_chunk_ptr m chunk prev_chunk = store m (chunk - 8 * PREV_OFFSET) prev_chunk"

definition get_prev_chunk_ptr :: "arena \<Rightarrow> size_t \<Rightarrow> fault + size_t" where
  "get_prev_chunk_ptr m chunk = load m (chunk - 8 * PREV_OFFSET)"

definition set_left_border_marker :: "arena \<Rightarrow> size_t \<Rightarrow> size_t \<Rightarrow> fault + arena" where
  "set_left_border_marker m chunk flag = store m (chunk - 8 * L_BORDER_MARKER_OFFSET) flag"

definition get_left_border_marker :: "arena \<Rightarrow> size_t \<Rightarrow> fault + size_t" where
  "get_left_border_marker m chunk = load m (chunk - 8 * L_BORDER_MARKER_OFFSET)"

definition set_right_border_marker :: "arena \<Rightarrow> size_t \<Rightarrow> size_t \<Rightarrow> size_t \<Rightarrow> fault + arena" where
  "set_right_border_marker m chunk sz flag = store m (chunk + 8 * (sz div 8)) flag"

definition get_right_border_marker :: "arena \<Rightarrow> size_t \<Rightarrow> fault + size_t" where
  "get_right_border_marker m chunk =
     bindc (get_size m chunk) (\<lambda>sz. load m (chunk + 8 * (sz div 8)))"

definition make_chunk :: "arena \<Rightarrow> size_t \<Rightarrow> size_t \<Rightarrow> size_t \<Rightarrow> fault + (size_t \<times> arena)" where
  "make_chunk m chunk0 sz status =
     (let chunk = chunk_init_metainfo chunk0 in
      bindc (set_size m chunk sz) (\<lambda>m.
      bindc (set_next_chunk_ptr m chunk 0) (\<lambda>m.
      bindc (set_prev_chunk_ptr m chunk 0) (\<lambda>m.
      bindc (set_left_border_marker m chunk status) (\<lambda>m.
      bindc (set_right_border_marker m chunk sz status) (\<lambda>m.
      Inr (chunk, m)))))))"

text \<open>
  The loop of \<open>find_chunk\<close> follows the next pointers. The fuel is one more than the number of cells:
  a walk that has not ended by then has come back to a chunk it visited, and never ends.
\<close>

fun find_loop :: "nat \<Rightarrow> arena \<Rightarrow> size_t \<Rightarrow> size_t \<Rightarrow> fault + size_t" where
  "find_loop 0 m chunk sz = Inl Blocked"
| "find_loop (Suc f) m chunk sz =
     bindc (get_size m chunk) (\<lambda>chunk_size.
     bindc (get_left_border_marker m chunk) (\<lambda>chunk_status.
     bindc (get_right_border_marker m chunk) (\<lambda>chunk_status_r.
     if sz < chunk_size then Inr chunk
     else bindc (get_next_chunk_ptr m chunk) (\<lambda>nxt.
       if nxt \<noteq> 0 then find_loop f m nxt sz else Inr 0))))"

definition find_chunk :: "arena \<Rightarrow> size_t \<Rightarrow> size_t \<Rightarrow> fault + size_t" where
  "find_chunk m hd_chunk sz = find_loop (Suc (length (a_cells m))) m hd_chunk sz"

definition add_next :: "arena \<Rightarrow> size_t \<Rightarrow> size_t \<Rightarrow> fault + arena" where
  "add_next m l_chunk r_chunk =
     bindc (get_next_chunk_ptr m l_chunk) (\<lambda>cur_next_l_chunk.
     bindc (if cur_next_l_chunk \<noteq> 0 then set_prev_chunk_ptr m cur_next_l_chunk r_chunk else Inr m) (\<lambda>m.
     bindc (set_next_chunk_ptr m r_chunk cur_next_l_chunk) (\<lambda>m.
     bindc (set_prev_chunk_ptr m r_chunk l_chunk) (\<lambda>m.
     set_next_chunk_ptr m l_chunk r_chunk))))"

definition merge_chunks :: "arena \<Rightarrow> size_t \<Rightarrow> size_t \<Rightarrow> fault + arena" where
  "merge_chunks m l_chunk r_chunk =
     bindc (get_size m r_chunk) (\<lambda>r_size.
     bindc (set_right_border_marker m r_chunk r_size FREE) (\<lambda>m.
     bindc (get_next_chunk_ptr m r_chunk) (\<lambda>next_r_chunk.
     bindc (if next_r_chunk \<noteq> 0 then set_prev_chunk_ptr m next_r_chunk l_chunk else Inr m) (\<lambda>m.
     bindc (set_left_border_marker m l_chunk FREE) (\<lambda>m.
     bindc (set_next_chunk_ptr m l_chunk next_r_chunk) (\<lambda>m.
     bindc (get_size m l_chunk) (\<lambda>ls.
     bindc (get_size m r_chunk) (\<lambda>rs.
     set_size m l_chunk (ls + rs + METAINFO_SIZE)))))))))"

definition get_offset_mask :: "size_t \<Rightarrow> size_t" where
  "get_offset_mask n =
     (if n = 1 then 0x00FFFFFFFFFFFFFF
      else if n = 2 then 0x0000FFFFFFFFFFFF
      else if n = 3 then 0x000000FFFFFFFFFF
      else if n = 4 then 0x00000000FFFFFFFF
      else if n = 5 then 0x0000000000FFFFFF
      else if n = 6 then 0x000000000000FFFF
      else 0x00000000000000FF)"

fun zero_loop :: "nat \<Rightarrow> arena \<Rightarrow> size_t \<Rightarrow> fault + (size_t \<times> arena)" where
  "zero_loop 0 m cur_ptr = Inr (cur_ptr, m)"
| "zero_loop (Suc k) m cur_ptr = bindc (store m cur_ptr 0) (\<lambda>m. zero_loop k m (cur_ptr + 8))"

definition setzero :: "arena \<Rightarrow> size_t \<Rightarrow> size_t \<Rightarrow> fault + arena" where
  "setzero m p bytes_cnt =
     (let intpart_size = (bytes_cnt div 8) * 8;
          otherpart_size = bytes_cnt - intpart_size in
      bindc (zero_loop (unat (intpart_size div 8)) m p) (\<lambda>(cur_ptr, m).
      if otherpart_size \<noteq> 0
      then bindc (load m cur_ptr) (\<lambda>v. store m cur_ptr (and v (get_offset_mask otherpart_size)))
      else Inr m))"

definition free_chunk :: "arena \<Rightarrow> size_t \<Rightarrow> fault + arena" where
  "free_chunk m chunk =
     bindc (set_left_border_marker m chunk FREE) (\<lambda>m.
     bindc (get_size m chunk) (\<lambda>sz. set_right_border_marker m chunk sz FREE))"

text \<open>What \<open>print_list\<close> prints of each chunk: its size and the two markers.\<close>

fun print_loop :: "nat \<Rightarrow> arena \<Rightarrow> size_t \<Rightarrow> fault + (size_t \<times> size_t \<times> size_t) list" where
  "print_loop 0 m chunk = Inl Blocked"
| "print_loop (Suc f) m chunk =
     bindc (get_size m chunk) (\<lambda>chunk_size.
     bindc (get_left_border_marker m chunk) (\<lambda>chunk_status.
     bindc (get_right_border_marker m chunk) (\<lambda>chunk_status_r.
     bindc (get_next_chunk_ptr m chunk) (\<lambda>nxt.
     bindc (if nxt \<noteq> 0 then print_loop f m nxt else Inr []) (\<lambda>out.
     Inr ((chunk_size, chunk_status, chunk_status_r) # out))))))"

definition print_list :: "arena \<Rightarrow> size_t \<Rightarrow> fault + (size_t \<times> size_t \<times> size_t) list" where
  "print_list m hd_chunk = print_loop (Suc (length (a_cells m))) m hd_chunk"

subsection \<open>alloc.c\<close>

definition mysetup :: "arena \<Rightarrow> size_t \<Rightarrow> size_t \<Rightarrow> fault + arena" where
  "mysetup m buf sz =
     bindc (make_chunk m buf (sz - METAINFO_SIZE) FREE) (\<lambda>(c, m). Inr (m\<lparr>a_head := c\<rparr>))"

definition myalloc :: "arena \<Rightarrow> size_t \<Rightarrow> fault + (size_t \<times> arena)" where
  "myalloc m sz =
     (let real_size = sz + METAINFO_SIZE in
      bindc (find_chunk m (a_head m) real_size) (\<lambda>chunk.
      if chunk = 0 then Inr (0, m)
      else
        bindc (get_size m chunk) (\<lambda>s.
        let old_chunk_new_size = s - real_size in
        bindc (set_size m chunk old_chunk_new_size) (\<lambda>m.
        bindc (set_right_border_marker m chunk old_chunk_new_size FREE) (\<lambda>m.
        let offset = old_chunk_new_size div 8 + 1 in
        bindc (make_chunk m (chunk + 8 * offset) sz ALLOCATED) (\<lambda>(new_chunk, m).
        bindc (add_next m chunk new_chunk) (\<lambda>m.
        Inr (new_chunk, m))))))))"

definition mycalloc :: "arena \<Rightarrow> size_t \<Rightarrow> size_t \<Rightarrow> fault + (size_t \<times> arena)" where
  "mycalloc m numitems sz =
     (let bytes_cnt = numitems * sz in
      bindc (myalloc m bytes_cnt) (\<lambda>(raw_chunk, m).
      if raw_chunk = 0 then Inr (0, m)
      else bindc (setzero m raw_chunk bytes_cnt) (\<lambda>m. Inr (raw_chunk, m))))"

definition myfree :: "arena \<Rightarrow> size_t \<Rightarrow> fault + arena" where
  "myfree m p =
     (if p = 0 then Inr m
      else
        bindc (get_right_border_marker m p) (\<lambda>rm.
        if rm = FREE then Inr m
        else
        bindc (get_left_border_marker m p) (\<lambda>lm.
        if lm = FREE then Inr m
        else
          bindc (get_prev_chunk_ptr m p) (\<lambda>prv.
          bindc (get_next_chunk_ptr m p) (\<lambda>nxt.
          if prv = 0 \<and> nxt = 0 then free_chunk m p
          else if prv \<noteq> 0 \<and> nxt = 0 then
            bindc (get_right_border_marker m prv) (\<lambda>r.
            if r = FREE then merge_chunks m prv p else free_chunk m p)
          else if prv = 0 \<and> nxt \<noteq> 0 then
            bindc (get_left_border_marker m nxt) (\<lambda>l.
            if l = FREE then merge_chunks m p nxt else free_chunk m p)
          else
            bindc (get_left_border_marker m prv) (\<lambda>lp.
            bindc (get_left_border_marker m nxt) (\<lambda>ln.
            if lp = FREE \<and> ln = FREE then
              bindc (merge_chunks m p nxt) (\<lambda>m. merge_chunks m prv p)
            else if lp = FREE \<and> ln \<noteq> FREE then merge_chunks m prv p
            else if lp \<noteq> FREE \<and> ln = FREE then merge_chunks m p nxt
            else free_chunk m p)))))))"

text \<open>
  \<open>main\<close>: the block comes from \<open>mmap\<close> at the address \<open>blc\<close>. \<open>use_twice\<close> is the sequence of calls that
  \<open>main\<close> makes two times; the result is what \<open>print_list\<close> prints, \<open>None\<close> for the exit with status 1.
\<close>

definition use_twice :: "arena \<Rightarrow> fault + arena" where
  "use_twice m =
     bindc (myalloc m 64) (\<lambda>(p1, m).
     bindc (myalloc m 128) (\<lambda>(p2, m).
     bindc (myalloc m 256) (\<lambda>(p3, m).
     bindc (myalloc m 1024) (\<lambda>(p4, m).
     bindc (myalloc m 2048) (\<lambda>(p5, m).
     bindc (myalloc m 64) (\<lambda>(p6, m).
     bindc (myalloc m 64) (\<lambda>(p7, m).
     bindc (myalloc m 32) (\<lambda>(p8, m).
     bindc (myfree m p3) (\<lambda>m.
     bindc (myfree m p4) (\<lambda>m.
     bindc (myfree m p7) (\<lambda>m.
     bindc (myfree m p8) (\<lambda>m.
     bindc (myfree m p6) (\<lambda>m.
     bindc (myfree m p5) (\<lambda>m.
     bindc (myfree m p1) (\<lambda>m.
     myfree m p2)))))))))))))))"

definition alloc_main :: "arena \<Rightarrow> size_t \<Rightarrow> fault + (size_t \<times> size_t \<times> size_t) list option" where
  "alloc_main m blc =
     (if blc = 0 then Inr None
      else
        bindc (mysetup m blc 4096) (\<lambda>m.
        bindc (use_twice m) (\<lambda>m.
        bindc (use_twice m) (\<lambda>m.
        bindc (print_list m (a_head m)) (\<lambda>out. Inr (Some out))))))"

subsection \<open>Chunk lists\<close>

text \<open>
  A chunk is the number of its user cells, and whether its left and its right marker say \<open>FREE\<close>. The
  chunk whose header starts at cell \<open>s\<close> is known to the code by the address \<open>usr b s\<close> of its user
  area. \<open>seg b c s pv cs nx\<close>: the cells \<open>c\<close> hold the chunks \<open>cs\<close> one after the other from cell \<open>s\<close>
  on, linked in both directions, the first with previous pointer \<open>pv\<close>, the last with next pointer \<open>nx\<close>.
\<close>

type_synonym achunk = "nat \<times> bool \<times> bool"

definition marker :: "bool \<Rightarrow> size_t" where
  "marker b = (if b then FREE else ALLOCATED)"

definition adr :: "size_t \<Rightarrow> nat \<Rightarrow> size_t" where
  "adr b i = b + 8 * of_nat i"

definition usr :: "size_t \<Rightarrow> nat \<Rightarrow> size_t" where
  "usr b s = adr b (s + 4)"

fun extent :: "achunk list \<Rightarrow> nat" where
  "extent [] = 0"
| "extent ((k, l, r) # cs) = k + 5 + extent cs"

fun seg :: "size_t \<Rightarrow> size_t list \<Rightarrow> nat \<Rightarrow> size_t \<Rightarrow> achunk list \<Rightarrow> size_t \<Rightarrow> bool" where
  "seg b c s pv [] nx \<longleftrightarrow> True"
| "seg b c s pv ((k, l, r) # cs) nx \<longleftrightarrow>
     c ! s = 8 * of_nat k \<and>
     c ! (s + 1) = (if cs = [] then nx else usr b (s + k + 5)) \<and>
     c ! (s + 2) = pv \<and>
     c ! (s + 3) = marker l \<and>
     c ! (s + k + 4) = marker r \<and>
     seg b c (s + k + 5) (usr b s) cs nx"

definition heap_ok :: "arena \<Rightarrow> achunk list \<Rightarrow> bool" where
  "heap_ok m cs \<longleftrightarrow>
     unat (a_base m) + 8 * length (a_cells m) \<le> 2 ^ 64 \<and> cs \<noteq> [] \<and>
     extent cs = length (a_cells m) \<and> a_head m = usr (a_base m) 0 \<and>
     seg (a_base m) (a_cells m) 0 0 cs 0"

fun user_cells :: "nat \<Rightarrow> achunk list \<Rightarrow> nat set" where
  "user_cells s [] = {}"
| "user_cells s ((k, l, r) # cs) = {s + 4..<s + 4 + k} \<union> user_cells (s + k + 5) cs"

text \<open>The user cells of the chunks in use, and that two states agree there.\<close>

fun live_cells :: "nat \<Rightarrow> achunk list \<Rightarrow> nat set" where
  "live_cells s [] = {}"
| "live_cells s ((k, l, r) # cs) = (if l then {} else {s + 4..<s + 4 + k}) \<union> live_cells (s + k + 5) cs"

definition same_data :: "arena \<Rightarrow> arena \<Rightarrow> achunk list \<Rightarrow> bool" where
  "same_data m m' cs \<longleftrightarrow>
     a_base m' = a_base m \<and> a_head m' = a_head m \<and> length (a_cells m') = length (a_cells m) \<and>
     (\<forall>i\<in>live_cells 0 cs. a_cells m' ! i = a_cells m ! i)"

fun a_alloc :: "nat \<Rightarrow> achunk list \<Rightarrow> (nat \<times> achunk list) option" where
  "a_alloc n [] = None"
| "a_alloc n ((k, l, r) # cs) =
     (if n + 5 < k then Some (k - n, (k - n - 5, l, True) # (n, False, False) # cs)
      else map_option (\<lambda>(j, cs'). (k + 5 + j, (k, l, r) # cs')) (a_alloc n cs))"

definition a_free :: "achunk list \<Rightarrow> nat \<Rightarrow> achunk list \<Rightarrow> achunk list" where
  "a_free xs k ys =
     (let keep = xs @ (k, True, True) # ys in
      if xs = [] \<and> ys = [] then keep
      else if ys = [] then (case last xs of (k0, l0, r0) \<Rightarrow>
        if r0 then butlast xs @ [(k0 + k + 5, True, True)] else keep)
      else if xs = [] then (case hd ys of (k2, l2, r2) \<Rightarrow>
        if l2 then (k + k2 + 5, True, True) # tl ys else keep)
      else (case last xs of (k0, l0, r0) \<Rightarrow> case hd ys of (k2, l2, r2) \<Rightarrow>
        if l0 \<and> l2 then butlast xs @ (k0 + k + k2 + 10, True, True) # tl ys
        else if l0 then butlast xs @ (k0 + k + 5, True, True) # ys
        else if l2 then xs @ (k + k2 + 5, True, True) # tl ys
        else keep))"


subsection \<open>Access to the cells of a chunk\<close>

named_theorems cell_run \<open>evaluation of the accessors at the address of a cell\<close>

definition sized :: "arena \<Rightarrow> bool" where
  "sized m \<longleftrightarrow> unat (a_base m) + 8 * length (a_cells m) \<le> 2 ^ 64"

lemma sized_update [simp]:
  "length c = length (a_cells m) \<Longrightarrow> sized (m\<lparr>a_cells := c\<rparr>) = sized m"
  "sized (m\<lparr>a_head := h\<rparr>) = sized m"
  by (simp_all add: sized_def)

lemma adr_add: "adr b i + 8 * of_nat j = adr b (i + j)"
  by (simp add: adr_def algebra_simps)

lemma adr_sub: "j \<le> i \<Longrightarrow> adr b i - 8 * of_nat j = adr b (i - j)"
  by (simp add: adr_def algebra_simps of_nat_diff)

lemma unat_8_times: "8 * k < 2 ^ 64 \<Longrightarrow> unat (8 * of_nat k :: size_t) = 8 * k"
  using unat_of_nat_less [of "8 * k"] by simp

lemma div_8_times: "8 * k < 2 ^ 64 \<Longrightarrow> (8 * of_nat k :: size_t) div 8 = of_nat k"
  by (simp add: word_unat_eq_iff unat_div_distrib unat_8_times unat_of_nat_less)

lemma sized_bound: "sized m \<Longrightarrow> i < length (a_cells m) \<Longrightarrow> 8 * i < 2 ^ 64"
  by (simp add: sized_def)

lemma cell_adr [cell_run]:
  assumes "sized m" and "i < length (a_cells m)"
  shows "cell m (adr (a_base m) i) = Inr i"
  using unat_8_times [OF sized_bound [OF assms]] assms(2)
  by (simp add: cell_def adr_def)

lemma adr_nonzero [simp]:
  assumes "sized m" and "i < length (a_cells m)" and "0 < i"
  shows "adr (a_base m) i \<noteq> 0"
proof -
  have "unat (adr (a_base m) i) = unat (a_base m) + 8 * i"
    using assms(1,2) unat_8_times [OF sized_bound [OF assms(1,2)]]
    by (simp add: adr_def sized_def unat_plus_if')
  then show ?thesis
    using assms(3) by auto
qed

lemma load_adr [cell_run]:
  "sized m \<Longrightarrow> i < length (a_cells m) \<Longrightarrow> load m (adr (a_base m) i) = Inr (a_cells m ! i)"
  by (simp add: load_def cell_run)

lemma store_adr [cell_run]:
  "sized m \<Longrightarrow> i < length (a_cells m) \<Longrightarrow>
    store m (adr (a_base m) i) v = Inr (m\<lparr>a_cells := (a_cells m)[i := v]\<rparr>)"
  by (simp add: store_def cell_run)

text \<open>The fields of the chunk at \<open>s\<close> are the cells \<open>s\<close>, \<open>s + 1\<close>, \<open>s + 2\<close>, \<open>s + 3\<close> and \<open>s + k + 4\<close>.\<close>

lemma usr_offsets:
  "usr b s - 8 * SIZE_OFFSET = adr b s" "usr b s - 8 * NEXT_OFFSET = adr b (s + 1)"
  "usr b s - 8 * PREV_OFFSET = adr b (s + 2)" "usr b s - 8 * L_BORDER_MARKER_OFFSET = adr b (s + 3)"
  "usr b s + 8 * of_nat k = adr b (s + k + 4)" "chunk_init_metainfo (adr b s) = usr b s"
  by (simp_all add: usr_def adr_def chunk_init_metainfo_def algebra_simps)

lemma usr_nonzero [simp]:
  "sized m \<Longrightarrow> a_base m = b \<Longrightarrow> s + 4 < length (a_cells m) \<Longrightarrow> usr b s \<noteq> 0"
  using adr_nonzero [of m "s + 4"] by (simp add: usr_def)

lemma getters_run [cell_run]:
  assumes "sized m" and "a_base m = b" and "s + 4 \<le> length (a_cells m)"
  shows "get_size m (usr b s) = Inr (a_cells m ! s)"
    and "get_next_chunk_ptr m (usr b s) = Inr (a_cells m ! (s + 1))"
    and "get_prev_chunk_ptr m (usr b s) = Inr (a_cells m ! (s + 2))"
    and "get_left_border_marker m (usr b s) = Inr (a_cells m ! (s + 3))"
  using assms load_adr [OF assms(1)]
  by (simp_all only: get_size_def get_next_chunk_ptr_def get_prev_chunk_ptr_def
      get_left_border_marker_def usr_offsets)

lemma setters_run [cell_run]:
  assumes "sized m" and "a_base m = b" and "s + 4 \<le> length (a_cells m)"
  shows "set_size m (usr b s) v = Inr (m\<lparr>a_cells := (a_cells m)[s := v]\<rparr>)"
    and "set_next_chunk_ptr m (usr b s) v = Inr (m\<lparr>a_cells := (a_cells m)[s + 1 := v]\<rparr>)"
    and "set_prev_chunk_ptr m (usr b s) v = Inr (m\<lparr>a_cells := (a_cells m)[s + 2 := v]\<rparr>)"
    and "set_left_border_marker m (usr b s) v = Inr (m\<lparr>a_cells := (a_cells m)[s + 3 := v]\<rparr>)"
  using assms store_adr [OF assms(1)]
  by (simp_all only: set_size_def set_next_chunk_ptr_def set_prev_chunk_ptr_def
      set_left_border_marker_def usr_offsets)

lemma right_marker_run [cell_run]:
  assumes "sized m" and "a_base m = b" and "s + k + 4 < length (a_cells m)"
  shows "set_right_border_marker m (usr b s) (8 * of_nat k) v =
      Inr (m\<lparr>a_cells := (a_cells m)[s + k + 4 := v]\<rparr>)"
    and "a_cells m ! s = 8 * of_nat k \<Longrightarrow>
      get_right_border_marker m (usr b s) = Inr (a_cells m ! (s + k + 4))"
proof -
  have k: "8 * k < 2 ^ 64"
    using sized_bound [OF assms(1,3)] by simp
  show "set_right_border_marker m (usr b s) (8 * of_nat k) v =
      Inr (m\<lparr>a_cells := (a_cells m)[s + k + 4 := v]\<rparr>)"
    using assms store_adr [OF assms(1,3)]
    by (simp only: set_right_border_marker_def div_8_times [OF k] usr_offsets)
  show "get_right_border_marker m (usr b s) = Inr (a_cells m ! (s + k + 4))"
    if "a_cells m ! s = 8 * of_nat k"
    using assms that load_adr [OF assms(1,3)]
    by (simp only: get_right_border_marker_def getters_run [OF assms(1,2)] bindc_Inr
        div_8_times [OF k] usr_offsets)
qed

lemma make_chunk_run [cell_run]:
  assumes "sized m" and "a_base m = b" and "s + k + 4 < length (a_cells m)"
  shows "make_chunk m (adr b s) (8 * of_nat k) st = Inr (usr b s,
    m\<lparr>a_cells := (a_cells m)[s := 8 * of_nat k, s + 1 := 0, s + 2 := 0, s + 3 := st, s + k + 4 := st]\<rparr>)"
  using assms by (simp add: make_chunk_def usr_offsets cell_run)

subsection \<open>Chunk lists in memory\<close>

lemma extent_append [simp]: "extent (xs @ ys) = extent xs + extent ys"
  by (induction xs rule: extent.induct) auto

lemma extent_Cons: "5 \<le> extent (y # ys)"
  by (cases y) simp

definition last_usr :: "size_t \<Rightarrow> nat \<Rightarrow> size_t \<Rightarrow> achunk list \<Rightarrow> size_t" where
  "last_usr b s pv xs = (if xs = [] then pv else usr b (s + extent (butlast xs)))"

lemma seg_cong:
  assumes "\<And>i. s \<le> i \<Longrightarrow> i < s + extent cs \<Longrightarrow> c' ! i = c ! i"
  shows "seg b c' s pv cs nx = seg b c s pv cs nx"
  using assms
proof (induction cs arbitrary: s pv rule: extent.induct)
  case (2 k l r cs)
  have "seg b c' (s + k + 5) (usr b s) cs nx = seg b c (s + k + 5) (usr b s) cs nx"
    using "2.prems" by (intro "2.IH") auto
  then show ?case
    using "2.prems" by simp
qed simp

lemma seg_append:
  "seg b c s pv (xs @ ys) nx \<longleftrightarrow>
     seg b c s pv xs (if ys = [] then nx else usr b (s + extent xs)) \<and>
     seg b c (s + extent xs) (last_usr b s pv xs) ys nx"
proof (induction xs arbitrary: s pv rule: extent.induct)
  case 1
  then show ?case by (simp add: last_usr_def)
next
  case (2 k l r xs)
  have "last_usr b s pv ((k, l, r) # xs) = last_usr b (s + k + 5) (usr b s) xs"
    by (cases xs) (simp_all add: last_usr_def add.assoc add.left_commute)
  then show ?case
    using "2.IH" by (auto simp: ac_simps)
qed

lemma seg_set_prev:
  assumes "seg b c s pv (y # ys) nx" and "s + 4 \<le> length c"
  shows "seg b (c[s + 2 := p]) s p (y # ys) nx"
proof -
  obtain k l r where y: "y = (k, l, r)"
    by (cases y)
  have "seg b (c[s + 2 := p]) (s + k + 5) (usr b s) ys nx = seg b c (s + k + 5) (usr b s) ys nx"
    by (intro seg_cong) simp
  then show ?thesis
    using assms by (simp add: y)
qed


subsection \<open>find\_chunk\<close>

lemma a_alloc_SomeE:
  assumes "a_alloc n cs = Some (j, cs')"
  obtains xs k l r ys where "cs = xs @ (k, l, r) # ys" and "n + 5 < k"
    and "\<forall>(k', l', r')\<in>set xs. k' \<le> n + 5" and "j = extent xs + (k - n)"
    and "cs' = xs @ (k - n - 5, l, True) # (n, False, False) # ys"
  using assms
proof (induction n cs arbitrary: j cs' thesis rule: a_alloc.induct)
  case (2 n k l r cs)
  show ?case
  proof (cases "n + 5 < k")
    case True
    then show ?thesis
      using "2.prems"(2) "2.prems"(1) [of "[]" k l r cs] by auto
  next
    case False
    then obtain j0 cs0 where IH: "a_alloc n cs = Some (j0, cs0)" "j = k + 5 + j0" "cs' = (k, l, r) # cs0"
      using "2.prems"(2) by auto
    obtain xs k1 l1 r1 ys where "cs = xs @ (k1, l1, r1) # ys" and "n + 5 < k1"
      and "\<forall>(k', l', r')\<in>set xs. k' \<le> n + 5" and "j0 = extent xs + (k1 - n)"
      and "cs0 = xs @ (k1 - n - 5, l1, True) # (n, False, False) # ys"
      using "2.IH" [OF False _ IH(1)] by blast
    then show ?thesis
      using IH False "2.prems"(1) [of "(k, l, r) # xs" k1 l1 r1 ys]
      by (auto simp: add.assoc case_prod_beta)
  qed
qed simp

lemma a_alloc_None_iff: "a_alloc n cs = None \<longleftrightarrow> (\<forall>(k, l, r)\<in>set cs. k \<le> n + 5)"
  by (induction n cs rule: a_alloc.induct) auto

lemma length_le_extent: "length cs \<le> extent cs"
  by (induction cs rule: extent.induct) auto

text \<open>The walk over the list: past the chunks that are too small, and to the end or to the first that fits.\<close>

lemma less_8_times:
  assumes "8 * n + 40 < 2 ^ 64" and "8 * k < 2 ^ 64"
  shows "8 * of_nat n + METAINFO_SIZE < (8 * of_nat k :: size_t) \<longleftrightarrow> n + 5 < k"
proof -
  have "unat (8 * of_nat n + METAINFO_SIZE :: size_t) = 8 * (n + 5)"
    using unat_8_times [of "n + 5"] assms(1) by (simp add: algebra_simps)
  then show ?thesis
    using unat_8_times [OF assms(2)] by (auto simp: word_less_nat_alt)
qed

lemma find_loop_skip:
  assumes "sized m" and "s + extent (xs @ ys) = length (a_cells m)" and "length xs < f"
    and "seg (a_base m) (a_cells m) s pv (xs @ ys) 0"
    and "\<forall>(k, l, r)\<in>set xs. k \<le> n + 5" and "8 * n + 40 < 2 ^ 64" and "xs @ ys \<noteq> []"
  shows "find_loop f m (usr (a_base m) s) (8 * of_nat n + METAINFO_SIZE) =
    (if ys = [] then Inr 0
     else find_loop (f - length xs) m (usr (a_base m) (s + extent xs)) (8 * of_nat n + METAINFO_SIZE))"
  using assms
proof (induction xs arbitrary: s pv f rule: extent.induct)
  case (2 k l r xs)
  let ?sz = "8 * of_nat n + METAINFO_SIZE" and ?b = "a_base m"
  obtain g where f: "f = Suc g"
    using "2.prems"(3) by (cases f) auto
  have len: "s + k + 4 < length (a_cells m)"
    using "2.prems"(2) by simp
  have "\<not> ?sz < (8 * of_nat k :: size_t)"
    using less_8_times [of n k] "2.prems"(5,6) sized_bound [OF "2.prems"(1) len] by simp
  moreover have "get_right_border_marker m (usr ?b s) = Inr (marker r)"
    using right_marker_run(2) [OF "2.prems"(1) refl len] "2.prems"(4) by simp
  ultimately have step: "find_loop f m (usr ?b s) ?sz =
      (if xs @ ys = [] then Inr 0 else find_loop g m (usr ?b (s + k + 5)) ?sz)"
    using "2.prems"(1,2,4) len usr_nonzero [OF "2.prems"(1) refl, of "s + k + 5"]
    by (cases "xs @ ys") (auto simp: f cell_run)
  show ?case
  proof (cases "xs @ ys = []")
    case False
    have "find_loop g m (usr ?b (s + k + 5)) ?sz =
      (if ys = [] then Inr 0 else find_loop (g - length xs) m (usr ?b (s + k + 5 + extent xs)) ?sz)"
      using "2.prems" f False by (intro "2.IH" [where pv = "usr ?b s"]) auto
    then show ?thesis
      using step False by (simp add: f add.assoc add.left_commute)
  qed (use step in simp)
qed simp


lemma find_chunk_none:
  assumes "heap_ok m cs" and "a_alloc n cs = None" and "8 * n + 40 < 2 ^ 64"
  shows "find_chunk m (a_head m) (8 * of_nat n + METAINFO_SIZE) = Inr 0"
  using assms find_loop_skip [of m 0 cs "[]" "Suc (length (a_cells m))" 0 n] length_le_extent [of cs]
  by (simp add: heap_ok_def sized_def find_chunk_def a_alloc_None_iff)

lemma find_chunk_some:
  assumes ok: "heap_ok m (xs @ (k, l, r) # ys)" and "n + 5 < k"
    and "\<forall>(k', l', r')\<in>set xs. k' \<le> n + 5"
  shows "find_chunk m (a_head m) (8 * of_nat n + METAINFO_SIZE) = Inr (usr (a_base m) (extent xs))"
proof -
  let ?s = "extent xs" and ?b = "a_base m" and ?sz = "8 * of_nat n + METAINFO_SIZE"
  have sz: "sized m" and len: "?s + k + 4 < length (a_cells m)"
    and sg: "seg ?b (a_cells m) 0 0 (xs @ (k, l, r) # ys) 0"
    using ok by (auto simp: heap_ok_def sized_def)
  have k: "8 * k < 2 ^ 64" and n: "8 * n + 40 < 2 ^ 64"
    using sized_bound [OF sz len] assms(2) by simp_all
  have f: "length xs < Suc (length (a_cells m))"
    using length_le_extent [of xs] len by simp
  obtain g where g: "Suc (length (a_cells m)) - length xs = Suc g"
    using f by (cases "Suc (length (a_cells m)) - length xs") auto
  have "find_chunk m (a_head m) ?sz = find_loop (Suc g) m (usr ?b ?s) ?sz"
    using find_loop_skip [of m 0 xs "(k, l, r) # ys" "Suc (length (a_cells m))" 0 n] ok sz f n assms(3) g
    by (simp add: heap_ok_def find_chunk_def)
  also have "\<dots> = Inr (usr ?b ?s)"
    using sg sz len right_marker_run(2) [OF sz refl len] less_8_times [OF n k] assms(2)
    by (simp add: seg_append cell_run)
  finally show ?thesis .
qed

subsection \<open>myalloc\<close>

lemma nth_update_any: "xs[i := v] ! j = (if i = j \<and> j < length xs then v else xs ! j)"
  by (cases "i = j"; cases "j < length xs") (auto simp: list_update_beyond)

text \<open>
  A chunk of \<open>q + n + 5\<close> cells at \<open>s\<close> keeps its first \<open>q\<close> cells; the new chunk of \<open>n\<close> cells starts at
  \<open>s + q + 5\<close>. \<open>split_cells\<close> is the effect of the writes of \<open>myalloc\<close> and \<open>make_chunk\<close>, \<open>link_cells\<close>
  that of \<open>add_next\<close>, where \<open>u\<close> is the start of the chunk that follows, if there is one.
\<close>

definition split_cells :: "nat \<Rightarrow> nat \<Rightarrow> nat \<Rightarrow> size_t list \<Rightarrow> size_t list" where
  "split_cells s q n c =
     c[s := 8 * of_nat q, s + q + 4 := FREE, s + q + 5 := 8 * of_nat n, s + q + 6 := 0,
       s + q + 7 := 0, s + q + 8 := ALLOCATED, s + q + n + 9 := ALLOCATED]"

definition link_cells :: "size_t \<Rightarrow> nat \<Rightarrow> nat \<Rightarrow> nat option \<Rightarrow> size_t list \<Rightarrow> size_t list" where
  "link_cells b s t u c =
     (case u of None \<Rightarrow> c | Some u' \<Rightarrow> c[u' + 2 := usr b t])
       [t + 1 := (case u of None \<Rightarrow> 0 | Some u' \<Rightarrow> usr b u'), t + 2 := usr b s, s + 1 := usr b t]"

definition next_start :: "nat \<Rightarrow> achunk list \<Rightarrow> nat option" where
  "next_start s ys = (if ys = [] then None else Some s)"

definition alloc_cells :: "size_t \<Rightarrow> nat \<Rightarrow> nat \<Rightarrow> nat \<Rightarrow> achunk list \<Rightarrow> size_t list \<Rightarrow> size_t list" where
  "alloc_cells b s q n ys c =
     link_cells b s (s + q + 5) (next_start (s + q + n + 10) ys) (split_cells s q n c)"

lemma length_alloc_cells [simp]:
  "length (split_cells s q n c) = length c" "length (link_cells b s t u c) = length c"
  "length (alloc_cells b s q n ys c) = length c"
  by (simp_all add: split_cells_def link_cells_def alloc_cells_def split: option.split)

lemmas alloc_cells_defs = alloc_cells_def link_cells_def split_cells_def next_start_def

lemma add_next_run:
  assumes "sized m" and "a_base m = b" and "s + 4 \<le> length (a_cells m)" and "t + 4 \<le> length (a_cells m)"
    and "case u of None \<Rightarrow> a_cells m ! (s + 1) = 0
      | Some u' \<Rightarrow> a_cells m ! (s + 1) = usr b u' \<and> u' + 4 < length (a_cells m)"
  shows "add_next m (usr b s) (usr b t) = Inr (m\<lparr>a_cells := link_cells b s t u (a_cells m)\<rparr>)"
proof (cases u)
  case None
  then show ?thesis
    using assms by (simp add: add_next_def cell_run link_cells_def)
next
  case (Some u')
  then show ?thesis
    using assms usr_nonzero [OF assms(1,2), of u'] by (simp add: add_next_def cell_run link_cells_def)
qed

lemma myalloc_run:
  assumes ok: "heap_ok m (xs @ (q + n + 5, l, r) # ys)" and q: "0 < q"
    and small: "\<forall>(k', l', r')\<in>set xs. k' \<le> n + 5"
  defines "s \<equiv> extent xs" and "b \<equiv> a_base m"
  shows "myalloc m (8 * of_nat n) =
    Inr (usr b (s + q + 5), m\<lparr>a_cells := alloc_cells b s q n ys (a_cells m)\<rparr>)"
proof -
  let ?t = "s + q + 5" and ?c = "a_cells m" and ?u = "next_start (s + q + n + 10) ys"
  have sz: "sized m" and len: "s + (q + n + 5) + 4 < length ?c"
    and sg: "seg b ?c s (last_usr b 0 0 xs) ((q + n + 5, l, r) # ys) 0"
    using ok by (auto simp: heap_ok_def sized_def s_def b_def seg_append)
  have old: "(8 * of_nat (q + n + 5) :: size_t) - (8 * of_nat n + METAINFO_SIZE) = 8 * of_nat q"
    by (simp add: algebra_simps)
  have off: "usr b s + 8 * ((8 * of_nat q) div 8 + 1) = adr b ?t"
    using sized_bound [OF sz len] by (simp add: div_8_times) (simp add: usr_def adr_def algebra_simps)
  let ?m1 = "m\<lparr>a_cells := ?c[s := 8 * of_nat q]\<rparr>"
  let ?m2 = "m\<lparr>a_cells := ?c[s := 8 * of_nat q, s + q + 4 := FREE]\<rparr>"
  let ?m3 = "m\<lparr>a_cells := split_cells s q n ?c\<rparr>"
  have m2: "set_right_border_marker ?m1 (usr b s) (8 * of_nat q) FREE = Inr ?m2"
    using right_marker_run(1) [of ?m1 b s q FREE] sz len by (simp add: b_def)
  have m3: "make_chunk ?m2 (adr b ?t) (8 * of_nat n) ALLOCATED = Inr (usr b ?t, ?m3)"
    using make_chunk_run [of ?m2 b ?t n ALLOCATED] sz len by (simp add: b_def split_cells_def ac_simps)
  have nx: "case ?u of None \<Rightarrow> split_cells s q n ?c ! (s + 1) = 0
      | Some u' \<Rightarrow> split_cells s q n ?c ! (s + 1) = usr b u' \<and> u' + 4 < length ?c"
    using sg ok by (cases ys) (auto simp: split_cells_def next_start_def heap_ok_def s_def ac_simps)
  have m4: "add_next ?m3 (usr b s) (usr b ?t) = Inr (m\<lparr>a_cells := alloc_cells b s q n ys ?c\<rparr>)"
    using add_next_run [of ?m3 b s ?t ?u] sz len nx by (cases ?u) (simp_all add: b_def alloc_cells_def)
  have "find_chunk m (a_head m) (8 * of_nat n + METAINFO_SIZE) = Inr (usr b s)"
    using find_chunk_some [OF ok _ small] q by (simp add: s_def b_def)
  moreover have "usr b s \<noteq> 0" and "get_size m (usr b s) = Inr (8 * of_nat (q + n + 5))"
    and "set_size m (usr b s) (8 * of_nat q) = Inr ?m1"
    using sz len sg usr_nonzero [OF sz refl, of s] by (simp_all add: b_def cell_run)
  ultimately show ?thesis
    by (simp only: myalloc_def Let_def old m2 off m3 m4 bindc_Inr if_False prod.case)
qed

lemma user_cells_range: "i \<in> user_cells s cs \<Longrightarrow> s + 4 \<le> i \<and> i < s + extent cs"
proof (induction cs arbitrary: s rule: extent.induct)
  case (2 k l r cs)
  show ?case
  proof (cases "i \<in> user_cells (s + k + 5) cs")
    case True
    then show ?thesis
      using "2.IH" [OF True] by simp
  qed (use "2.prems" in auto)
qed simp

lemma user_cells_append: "user_cells s (xs @ ys) = user_cells s xs \<union> user_cells (s + extent xs) ys"
  by (induction xs arbitrary: s rule: extent.induct) (auto simp: ac_simps)

text \<open>\<open>myalloc\<close> writes only into cells that hold headers and markers afterwards.\<close>

lemma alloc_same:
  assumes "i \<in> user_cells 0 (xs @ (q, l, True) # (n, False, False) # ys)"
  shows "alloc_cells b (extent xs) q n ys c ! i = c ! i"
proof -
  let ?s = "extent xs"
  consider (xs) "i < ?s" | (old) "?s + 4 \<le> i" "i < ?s + q + 4"
    | (new) "?s + q + 9 \<le> i" "i < ?s + q + n + 9" | (ys) "?s + q + n + 14 \<le> i" "ys \<noteq> []"
    using assms user_cells_range [of i 0 xs] user_cells_range [of i "?s + q + n + 10" ys]
    by (cases "ys = []") (auto simp: user_cells_append ac_simps)
  then show ?thesis
    by cases (auto simp: alloc_cells_defs)
qed

lemma alloc_seg:
  assumes sg: "seg b c 0 0 (xs @ (q + n + 5, l, r) # ys) 0"
    and len: "extent xs + q + n + 10 + extent ys = length c"
  shows "seg b (alloc_cells b (extent xs) q n ys c) 0 0 (xs @ (q, l, True) # (n, False, False) # ys) 0"
    (is "seg b ?c 0 0 _ 0")
proof -
  let ?s = "extent xs" and ?t = "extent xs + q + 5" and ?u = "extent xs + q + n + 10"
  have old: "seg b c ?s (last_usr b 0 0 xs) ((q + n + 5, l, r) # ys) 0" and "seg b c 0 0 xs (usr b ?s)"
    using sg by (simp_all add: seg_append)
  then have "seg b ?c 0 0 xs (usr b ?s)"
    by (subst seg_cong [where c = c]) (auto simp: alloc_cells_defs)
  moreover have "seg b ?c ?u (usr b ?t) ys 0"
  proof (cases ys)
    case (Cons y zs)
    have "seg b c ?u (usr b ?s) (y # zs) 0"
      using old by (simp add: Cons ac_simps)
    then have "seg b (c[?u + 2 := usr b ?t]) ?u (usr b ?t) (y # zs) 0"
      using len extent_Cons [of y zs] unfolding Cons by (intro seg_set_prev) simp_all
    then show ?thesis
      unfolding Cons
      by (subst seg_cong [where c = "c[?u + 2 := usr b ?t]"]) (auto simp: alloc_cells_defs nth_update_any)
  qed simp
  moreover have "?s + q + 5 + n + 5 = ?u"
    by simp
  ultimately show ?thesis
    using old len by (auto simp: seg_append alloc_cells_defs marker_def nth_update_any ac_simps)
qed


lemma live_subset_user: "live_cells s cs \<subseteq> user_cells s cs"
  by (induction cs arbitrary: s rule: extent.induct) auto

lemma live_cells_append: "live_cells s (xs @ ys) = live_cells s xs \<union> live_cells (s + extent xs) ys"
  by (induction xs arbitrary: s rule: extent.induct) (auto simp: ac_simps)

lemma same_data_trans:
  assumes "same_data m m' cs'" and "same_data m' m'' cs" and "live_cells 0 cs \<subseteq> live_cells 0 cs'"
  shows "same_data m m'' cs"
  using assms by (auto simp: same_data_def)

lemma myalloc_spec:
  assumes "heap_ok m cs" and "8 * n + 40 < 2 ^ 64"
  shows "case a_alloc n cs of
      None \<Rightarrow> myalloc m (8 * of_nat n) = Inr (0, m)
    | Some (j, cs') \<Rightarrow> \<exists>m'. myalloc m (8 * of_nat n) = Inr (usr (a_base m) j, m') \<and>
        heap_ok m' cs' \<and> same_data m m' cs'"
proof (cases "a_alloc n cs")
  case None
  then show ?thesis
    using find_chunk_none [OF assms(1) None assms(2)] by (simp add: myalloc_def)
next
  case (Some p)
  obtain j cs' where p: "p = (j, cs')"
    by (cases p)
  obtain xs k l r ys where k: "cs = xs @ (k, l, r) # ys" "n + 5 < k"
    and small: "\<forall>(k', l', r')\<in>set xs. k' \<le> n + 5" and j: "j = extent xs + (k - n)"
    and cs': "cs' = xs @ (k - n - 5, l, True) # (n, False, False) # ys"
    using Some unfolding p by (rule a_alloc_SomeE)
  define q where "q = k - n - 5"
  have kq: "k = q + n + 5" and "0 < q"
    using k(2) by (simp_all add: q_def)
  let ?m = "m\<lparr>a_cells := alloc_cells (a_base m) (extent xs) q n ys (a_cells m)\<rparr>"
  have ok: "heap_ok m (xs @ (q + n + 5, l, r) # ys)"
    using assms(1) by (simp add: k kq)
  have "myalloc m (8 * of_nat n) = Inr (usr (a_base m) j, ?m)"
    using myalloc_run [OF ok \<open>0 < q\<close> small] by (simp add: j kq ac_simps)
  moreover have "heap_ok ?m cs'"
    using ok alloc_seg [of "a_base m" "a_cells m" xs q n l r ys]
    by (simp add: heap_ok_def cs' kq ac_simps)
  moreover have "same_data m ?m cs'"
    using alloc_same [of _ xs q l n ys] live_subset_user [of 0 cs'] by (auto simp: same_data_def cs' kq)
  ultimately show ?thesis
    by (auto simp: Some p)
qed

subsection \<open>myfree\<close>

lemma chunk_fields:
  assumes ok: "heap_ok m (xs @ (k, l, r) # ys)"
  defines "s \<equiv> extent xs" and "b \<equiv> a_base m"
  shows "usr b s \<noteq> 0" and "get_size m (usr b s) = Inr (8 * of_nat k)"
    and "get_next_chunk_ptr m (usr b s) = Inr (if ys = [] then 0 else usr b (s + k + 5))"
    and "get_prev_chunk_ptr m (usr b s) = Inr (last_usr b 0 0 xs)"
    and "get_left_border_marker m (usr b s) = Inr (marker l)"
    and "get_right_border_marker m (usr b s) = Inr (marker r)"
proof -
  have sz: "sized m" and len: "s + k + 4 < length (a_cells m)"
    and sg: "seg b (a_cells m) s (last_usr b 0 0 xs) ((k, l, r) # ys) 0"
    using ok by (auto simp: heap_ok_def sized_def s_def b_def seg_append)
  show "usr b s \<noteq> 0" and "get_size m (usr b s) = Inr (8 * of_nat k)"
    and "get_next_chunk_ptr m (usr b s) = Inr (if ys = [] then 0 else usr b (s + k + 5))"
    and "get_prev_chunk_ptr m (usr b s) = Inr (last_usr b 0 0 xs)"
    and "get_left_border_marker m (usr b s) = Inr (marker l)"
    using sz len sg usr_nonzero [OF sz refl, of s] by (simp_all add: b_def cell_run)
  show "get_right_border_marker m (usr b s) = Inr (marker r)"
    using right_marker_run(2) [OF sz _ len, of b] sg by (simp add: b_def)
qed

lemma free_chunk_spec:
  assumes ok: "heap_ok m (xs @ (k, l, r) # ys)"
  shows "\<exists>m'. free_chunk m (usr (a_base m) (extent xs)) = Inr m' \<and>
    heap_ok m' (xs @ (k, True, True) # ys) \<and> same_data m m' (xs @ (k, True, True) # ys)"
proof -
  let ?s = "extent xs" and ?b = "a_base m" and ?c = "a_cells m"
  let ?c' = "?c[?s + 3 := FREE, ?s + k + 4 := FREE]"
  let ?m1 = "m\<lparr>a_cells := ?c[?s + 3 := FREE]\<rparr>" and ?m = "m\<lparr>a_cells := ?c'\<rparr>"
  have sz: "sized m" and len: "?s + k + 4 < length ?c"
    and sg: "seg ?b ?c ?s (last_usr ?b 0 0 xs) ((k, l, r) # ys) 0" "seg ?b ?c 0 0 xs (usr ?b ?s)"
    using ok by (auto simp: heap_ok_def sized_def seg_append)
  have "free_chunk m (usr ?b ?s) = Inr ?m"
    using right_marker_run(1) [of ?m1 ?b ?s k FREE] sz len sg
    by (simp add: free_chunk_def cell_run)
  moreover have "seg ?b ?c' 0 0 (xs @ (k, True, True) # ys) 0"
  proof -
    have "seg ?b ?c' 0 0 xs (usr ?b ?s)" and "seg ?b ?c' (?s + k + 5) (usr ?b ?s) ys 0"
      using sg by (subst seg_cong [where c = ?c]; simp)+
    then show ?thesis
      using sg len by (simp add: seg_append marker_def nth_update_any)
  qed
  then have "heap_ok ?m (xs @ (k, True, True) # ys)"
    using ok by (simp add: heap_ok_def)
  moreover have "same_data m ?m (xs @ (k, True, True) # ys)"
    using user_cells_range [of _ 0 xs] user_cells_range [of _ "?s + k + 5" ys] live_subset_user
    by (fastforce simp: same_data_def live_cells_append nth_update_any)
  ultimately show ?thesis
    by blast
qed


definition merge_cells :: "size_t \<Rightarrow> nat \<Rightarrow> nat \<Rightarrow> nat \<Rightarrow> achunk list \<Rightarrow> size_t list \<Rightarrow> size_t list" where
  "merge_cells b s k k2 ys c =
     (let c1 = c[s + k + k2 + 9 := FREE];
          c2 = (if ys = [] then c1 else c1[s + k + k2 + 12 := usr b s]) in
      c2[s + 3 := FREE, s + 1 := (if ys = [] then 0 else usr b (s + k + k2 + 10)),
         s := 8 * of_nat (k + k2 + 5)])"

lemma length_merge_cells [simp]: "length (merge_cells b s k k2 ys c) = length c"
  by (simp add: merge_cells_def Let_def)

lemma merge_chunks_run:
  assumes ok: "heap_ok m (xs @ (k, l, r) # (k2, l2, r2) # ys)"
  defines "s \<equiv> extent xs" and "b \<equiv> a_base m"
  shows "merge_chunks m (usr b s) (usr b (s + k + 5)) =
    Inr (m\<lparr>a_cells := merge_cells b s k k2 ys (a_cells m)\<rparr>)"
proof -
  let ?c = "a_cells m" and ?t = "s + k + 5" and ?u = "s + k + k2 + 10"
  have sz: "sized m" and len: "s + k + 5 + k2 + 4 < length ?c" "ys \<noteq> [] \<Longrightarrow> ?u + 4 < length ?c"
    and sg: "seg b ?c s (last_usr b 0 0 xs) ((k, l, r) # (k2, l2, r2) # ys) 0"
    using ok extent_Cons [of "hd ys" "tl ys"] by (auto simp: heap_ok_def sized_def s_def b_def seg_append)
  let ?m1 = "m\<lparr>a_cells := ?c[s + k + k2 + 9 := FREE]\<rparr>"
  have "get_size m (usr b ?t) = Inr (8 * of_nat k2)"
    using sz len(1) sg by (simp add: b_def cell_run)
  moreover have "set_right_border_marker m (usr b ?t) (8 * of_nat k2) FREE = Inr ?m1"
    using right_marker_run(1) [OF sz _ len(1), of b] by (simp add: b_def ac_simps)
  moreover have "get_next_chunk_ptr ?m1 (usr b ?t) = Inr (if ys = [] then 0 else usr b ?u)"
    using sz len(1) sg by (simp add: b_def cell_run ac_simps)
  moreover have "ys \<noteq> [] \<Longrightarrow> usr b ?u \<noteq> 0"
    using usr_nonzero [OF sz _ len(2)] by (simp add: b_def)
  moreover have "(8 * of_nat k + 8 * of_nat k2 + METAINFO_SIZE :: size_t) = 8 * of_nat (k + k2 + 5)"
    by (simp add: algebra_simps)
  ultimately show ?thesis
    using sz len sg
    by (cases "ys = []") (simp_all add: merge_chunks_def b_def cell_run merge_cells_def Let_def ac_simps)
qed

lemma merge_chunks_spec:
  assumes ok: "heap_ok m (xs @ (k, l, r) # (k2, l2, r2) # ys)"
  shows "\<exists>m'. merge_chunks m (usr (a_base m) (extent xs)) (usr (a_base m) (extent xs + k + 5)) = Inr m' \<and>
    heap_ok m' (xs @ (k + k2 + 5, True, True) # ys) \<and>
    same_data m m' (xs @ (k + k2 + 5, True, True) # ys)"
proof -
  let ?s = "extent xs" and ?b = "a_base m" and ?c = "a_cells m" and ?u = "extent xs + k + k2 + 10"
  let ?c' = "merge_cells ?b ?s k k2 ys ?c" and ?cs = "xs @ (k + k2 + 5, True, True) # ys"
  have len: "?u + extent ys = length ?c"
    and sg: "seg ?b ?c ?s (last_usr ?b 0 0 xs) ((k, l, r) # (k2, l2, r2) # ys) 0"
      "seg ?b ?c 0 0 xs (usr ?b ?s)"
    using ok by (auto simp: heap_ok_def sized_def seg_append)
  have "seg ?b ?c' 0 0 xs (usr ?b ?s)"
    using sg(2) by (subst seg_cong [where c = ?c]) (auto simp: merge_cells_def Let_def)
  moreover have "seg ?b ?c' ?u (usr ?b ?s) ys 0"
  proof (cases ys)
    case (Cons y zs)
    have "seg ?b ?c ?u (usr ?b (?s + k + 5)) (y # zs) 0"
      using sg(1) by (simp add: Cons ac_simps)
    then have "seg ?b (?c[?u + 2 := usr ?b ?s]) ?u (usr ?b ?s) (y # zs) 0"
      using len extent_Cons [of y zs] unfolding Cons by (intro seg_set_prev) simp_all
    then show ?thesis
      unfolding Cons by (subst seg_cong [where c = "?c[?u + 2 := usr ?b ?s]"])
        (auto simp: merge_cells_def Let_def nth_update_any)
  qed simp
  ultimately have "seg ?b ?c' 0 0 ?cs 0"
    using sg len by (auto simp: seg_append merge_cells_def Let_def marker_def nth_update_any ac_simps)
  then have "heap_ok (m\<lparr>a_cells := ?c'\<rparr>) ?cs"
    using ok by (simp add: heap_ok_def)
  moreover have "same_data m (m\<lparr>a_cells := ?c'\<rparr>) ?cs"
    using user_cells_range [of _ 0 xs] user_cells_range [of _ "?s + k + k2 + 10" ys] live_subset_user
    by (fastforce simp: same_data_def live_cells_append merge_cells_def Let_def nth_update_any ac_simps)
  ultimately show ?thesis
    using merge_chunks_run [OF ok] by blast
qed


lemma marker_eq_FREE [simp]: "marker l = FREE \<longleftrightarrow> l"
  by (simp add: marker_def)

lemma myfree_start:
  assumes ok: "heap_ok m (xs @ (k, False, False) # ys)"
  defines "b \<equiv> a_base m" and "p \<equiv> usr (a_base m) (extent xs)"
  shows "myfree m p =
    (let prv = last_usr b 0 0 xs; nxt = (if ys = [] then 0 else usr b (extent xs + k + 5)) in
     if prv = 0 \<and> nxt = 0 then free_chunk m p
     else if prv \<noteq> 0 \<and> nxt = 0 then
       bindc (get_right_border_marker m prv) (\<lambda>r. if r = FREE then merge_chunks m prv p else free_chunk m p)
     else if prv = 0 \<and> nxt \<noteq> 0 then
       bindc (get_left_border_marker m nxt) (\<lambda>l. if l = FREE then merge_chunks m p nxt else free_chunk m p)
     else
       bindc (get_left_border_marker m prv) (\<lambda>lp.
       bindc (get_left_border_marker m nxt) (\<lambda>ln.
       if lp = FREE \<and> ln = FREE then bindc (merge_chunks m p nxt) (\<lambda>m. merge_chunks m prv p)
       else if lp = FREE \<and> ln \<noteq> FREE then merge_chunks m prv p
       else if lp \<noteq> FREE \<and> ln = FREE then merge_chunks m p nxt
       else free_chunk m p)))"
  using chunk_fields [OF ok] unfolding b_def p_def by (simp add: myfree_def Let_def marker_def)

lemma myfree_spec:
  assumes ok: "heap_ok m (xs @ (k, False, False) # ys)"
  shows "\<exists>m'. myfree m (usr (a_base m) (extent xs)) = Inr m' \<and>
    heap_ok m' (a_free xs k ys) \<and> same_data m m' (a_free xs k ys)"
proof -
  let ?b = "a_base m" and ?s = "extent xs"
  note fr = free_chunk_spec [OF ok] and start = myfree_start [OF ok]
  have nxt: "usr ?b (?s + k + 5) \<noteq> 0" "get_left_border_marker m (usr ?b (?s + k + 5)) = Inr (marker l2)"
    "\<exists>m'. merge_chunks m (usr ?b ?s) (usr ?b (?s + k + 5)) = Inr m' \<and>
      heap_ok m' (xs @ (k + k2 + 5, True, True) # zs) \<and>
      same_data m m' (xs @ (k + k2 + 5, True, True) # zs)"
    if "ys = (k2, l2, r2) # zs" for k2 l2 r2 zs
    using chunk_fields [of m "xs @ [(k, False, False)]" k2 l2 r2 zs] merge_chunks_spec [of m xs k False False k2 l2 r2 zs]
      ok that by (simp_all add: ac_simps)
  have prv: "last_usr ?b 0 0 xs = usr ?b (extent ws)" "usr ?b (extent ws) \<noteq> 0"
    "get_left_border_marker m (usr ?b (extent ws)) = Inr (marker l0)"
    "get_right_border_marker m (usr ?b (extent ws)) = Inr (marker r0)"
    "\<exists>m'. merge_chunks m (usr ?b (extent ws)) (usr ?b ?s) = Inr m' \<and>
      heap_ok m' (ws @ (k0 + k + 5, True, True) # ys) \<and>
      same_data m m' (ws @ (k0 + k + 5, True, True) # ys)"
    if "xs = ws @ [(k0, l0, r0)]" for ws k0 l0 r0
    using chunk_fields [of m ws k0 l0 r0 "(k, False, False) # ys"]
      merge_chunks_spec [of m ws k0 l0 r0 k False False ys] ok that
    by (simp_all add: last_usr_def ac_simps)
  show ?thesis
  proof (cases xs rule: rev_cases)
    case Nil
    then show ?thesis
    proof (cases ys)
      case Nil
      then show ?thesis
        using fr start \<open>xs = []\<close> by (simp add: a_free_def last_usr_def)
    next
      case (Cons y zs)
      obtain k2 l2 r2 where y: "y = (k2, l2, r2)" by (cases y)
      then show ?thesis
        using fr start nxt [of k2 l2 r2 zs] Nil Cons by (cases l2) (simp_all add: a_free_def last_usr_def)
    qed
  next
    case (snoc ws x)
    obtain k0 l0 r0 where x: "x = (k0, l0, r0)" by (cases x)
    note P = prv [of ws k0 l0 r0]
    show ?thesis
    proof (cases ys)
      case Nil
      then show ?thesis
        using fr start P snoc x by (cases r0) (simp_all add: a_free_def)
    next
      case (Cons y zs)
      obtain k2 l2 r2 where y: "y = (k2, l2, r2)" by (cases y)
      note N = nxt [of k2 l2 r2 zs]
      have two: "\<exists>m''. merge_chunks m' (usr ?b (extent ws)) (usr ?b ?s) = Inr m'' \<and>
          heap_ok m'' (ws @ (k0 + k + k2 + 10, True, True) # zs) \<and>
          same_data m m'' (ws @ (k0 + k + k2 + 10, True, True) # zs)"
        if "heap_ok m' (xs @ (k + k2 + 5, True, True) # zs)"
          and "same_data m m' (xs @ (k + k2 + 5, True, True) # zs)" for m'
      proof -
        have b: "a_base m' = ?b"
          using that(2) by (simp add: same_data_def)
        have "heap_ok m' (ws @ (k0, l0, r0) # (k + k2 + 5, True, True) # zs)"
          using that(1) by (simp add: snoc x)
        from merge_chunks_spec [OF this]
        obtain m'' where "merge_chunks m' (usr ?b (extent ws)) (usr ?b ?s) = Inr m''"
          and "heap_ok m'' (ws @ (k0 + k + k2 + 10, True, True) # zs)"
          and "same_data m' m'' (ws @ (k0 + k + k2 + 10, True, True) # zs)"
          unfolding b by (auto simp: snoc x ac_simps)
        moreover have "live_cells 0 (ws @ (k0 + k + k2 + 10, True, True) # zs)
            \<subseteq> live_cells 0 (xs @ (k + k2 + 5, True, True) # zs)"
          by (auto simp: snoc x live_cells_append ac_simps)
        ultimately show ?thesis
          using same_data_trans [OF that(2)] by blast
      qed
      show ?thesis
        using fr start P N two snoc x Cons y by (cases l0; cases l2) (auto simp: a_free_def)
    qed
  qed
qed


subsection \<open>Setup and coalescing\<close>

lemma mysetup_spec:
  assumes "unat b + 8 * (k + 5) \<le> 2 ^ 64" and "length c = k + 5"
  shows "\<exists>m'. mysetup \<lparr>a_base = b, a_cells = c, a_head = h\<rparr> b (8 * of_nat (k + 5)) = Inr m' \<and>
    a_base m' = b \<and> heap_ok m' [(k, True, True)]"
proof -
  let ?m = "\<lparr>a_base = b, a_cells = c, a_head = h\<rparr>"
  have "sized ?m" and "b = adr b 0" and "8 * of_nat (k + 5) - METAINFO_SIZE = (8 * of_nat k :: size_t)"
    using assms by (simp_all add: sized_def adr_def algebra_simps)
  then have "make_chunk ?m b (8 * of_nat (k + 5) - METAINFO_SIZE) FREE = Inr (usr b 0,
      ?m\<lparr>a_cells := c[0 := 8 * of_nat k, 1 := 0, 2 := 0, 3 := FREE, k + 4 := FREE]\<rparr>)"
    using make_chunk_run [of ?m b 0 k FREE] assms(2) by (simp add: numeral_2_eq_2)
  then show ?thesis
    using assms by (auto simp: mysetup_def heap_ok_def marker_def nth_update_any)
qed

text \<open>A list of chunks is tidy when the two markers of each agree and no two neighbours are both free.\<close>

fun tidy :: "achunk list \<Rightarrow> bool" where
  "tidy [] \<longleftrightarrow> True"
| "tidy [(k, l, r)] \<longleftrightarrow> l = r"
| "tidy ((k, l, r) # (k2, l2, r2) # cs) \<longleftrightarrow> l = r \<and> \<not> (l \<and> l2) \<and> tidy ((k2, l2, r2) # cs)"

definition starts_free :: "achunk list \<Rightarrow> bool" where
  "starts_free cs \<longleftrightarrow> (case cs of [] \<Rightarrow> False | (k, l, r) # _ \<Rightarrow> l)"

definition ends_free :: "achunk list \<Rightarrow> bool" where
  "ends_free cs \<longleftrightarrow> cs \<noteq> [] \<and> (case last cs of (k, l, r) \<Rightarrow> l)"

lemma starts_free_simps [simp]: "\<not> starts_free []" "starts_free ((k, l, r) # cs) = l"
  by (simp_all add: starts_free_def)

lemma ends_free_simps [simp]:
  "\<not> ends_free []" "ends_free [(k, l, r)] = l" "ends_free (xs @ [(k, l, r)]) = l"
  "ends_free (c # d # cs) = ends_free (d # cs)"
  by (simp_all add: ends_free_def)

lemma tidy_Cons: "tidy ((k, l, r) # cs) \<longleftrightarrow> l = r \<and> \<not> (l \<and> starts_free cs) \<and> tidy cs"
  by (cases cs rule: tidy.cases) auto

lemma tidy_append: "tidy (xs @ ys) \<longleftrightarrow> tidy xs \<and> tidy ys \<and> \<not> (ends_free xs \<and> starts_free ys)"
proof (induction xs rule: tidy.induct)
  case (2 k l r)
  then show ?case by (auto simp: tidy_Cons)
qed auto

lemma tidy_free:
  assumes "tidy (xs @ (k, False, False) # ys)"
  shows "tidy (a_free xs k ys)"
proof (cases xs rule: rev_cases)
  case Nil
  then show ?thesis
    using assms by (cases ys) (auto simp: a_free_def tidy_Cons split: prod.splits)
next
  case (snoc ws x)
  then show ?thesis
    using assms by (cases ys; cases x) (auto simp: a_free_def tidy_Cons tidy_append split: prod.splits)
qed

text \<open>\<open>myalloc\<close> takes the first chunk that is large enough, whatever its markers say.\<close>

definition picks_free :: "nat \<Rightarrow> achunk list \<Rightarrow> bool" where
  "picks_free n cs \<longleftrightarrow> (case find (\<lambda>(k, l, r). n + 5 < k) cs of None \<Rightarrow> False | Some (k, l, r) \<Rightarrow> l)"

lemma a_alloc_split:
  assumes "n + 5 < k" and "\<forall>(k', l', r')\<in>set xs. k' \<le> n + 5"
  shows "a_alloc n (xs @ (k, l, r) # ys) =
      Some (extent xs + (k - n), xs @ (k - n - 5, l, True) # (n, False, False) # ys)"
    and "find (\<lambda>(k, l, r). n + 5 < k) (xs @ (k, l, r) # ys) = Some (k, l, r)"
  using assms by (induction xs) auto

lemma picks_freeE:
  assumes "picks_free n cs"
  obtains xs k r ys where "cs = xs @ (k, True, r) # ys" and "n + 5 < k"
    and "\<forall>(k', l', r')\<in>set xs. k' \<le> n + 5"
proof -
  have "a_alloc n cs \<noteq> None"
  proof
    assume "a_alloc n cs = None"
    then have "find (\<lambda>(k, l, r). n + 5 < k) cs = None"
      by (auto simp: a_alloc_None_iff find_None_iff)
    then show False
      using assms by (simp add: picks_free_def)
  qed
  then obtain j cs' where "a_alloc n cs = Some (j, cs')"
    by auto
  then obtain xs k l r ys where x: "cs = xs @ (k, l, r) # ys" "n + 5 < k"
      "\<forall>(k', l', r')\<in>set xs. k' \<le> n + 5"
    by (rule a_alloc_SomeE)
  moreover have l
    using assms a_alloc_split(2) [OF x(2,3), of l r ys] by (simp add: picks_free_def x(1))
  ultimately show ?thesis
    using that by auto
qed

lemma tidy_alloc:
  assumes "tidy cs" and "picks_free n cs" and "a_alloc n cs = Some (j, cs')"
  shows "tidy cs'"
proof -
  obtain xs k r ys where x: "cs = xs @ (k, True, r) # ys" "n + 5 < k"
      "\<forall>(k', l', r')\<in>set xs. k' \<le> n + 5"
    using assms(2) by (rule picks_freeE)
  then have "cs' = xs @ (k - n - 5, True, True) # (n, False, False) # ys"
    using assms(3) a_alloc_split(1) [OF x(2,3), of True r ys] by simp
  then show ?thesis
    using assms(1) x(1) by (auto simp: tidy_append tidy_Cons)
qed


subsection \<open>The blocks in use\<close>

text \<open>The chunk list can be read off the cells; \<open>heap_ok\<close> determines it.\<close>

function read_chunks :: "size_t list \<Rightarrow> nat \<Rightarrow> achunk list" where
  "read_chunks c s =
     (if s < length c
      then (let k = unat (c ! s div 8) in
            (k, c ! (s + 3) = FREE, c ! (s + k + 4) = FREE) # read_chunks c (s + k + 5))
      else [])"
  by pat_completeness auto
termination
  by (relation "measure (\<lambda>(c, s). length c - s)") auto

declare read_chunks.simps [simp del]

lemma read_seg:
  assumes "seg b c s pv cs nx" and "s + extent cs = length c" and "8 * length c \<le> 2 ^ 64"
  shows "read_chunks c s = cs"
  using assms
proof (induction cs arbitrary: s pv rule: extent.induct)
  case 1
  then show ?case
    by (subst read_chunks.simps) simp
next
  case (2 k l r cs)
  then have "unat (c ! s div 8) = k"
    by (simp add: div_8_times unat_of_nat_less)
  moreover have "read_chunks c (s + k + 5) = cs"
    using "2.prems" by (intro "2.IH") auto
  ultimately show ?case
    using "2.prems" by (subst read_chunks.simps) (simp add: Let_def)
qed

lemma read_heap: "heap_ok m cs \<Longrightarrow> read_chunks (a_cells m) 0 = cs"
  using read_seg [of "a_base m" "a_cells m" 0 0 cs 0] by (simp add: heap_ok_def)

fun starts :: "nat \<Rightarrow> achunk list \<Rightarrow> nat set" where
  "starts s [] = {}"
| "starts s ((k, l, r) # cs) = (if l then {} else {s}) \<union> starts (s + k + 5) cs"

definition live_ptrs :: "arena \<Rightarrow> size_t set" where
  "live_ptrs m = usr (a_base m) ` starts 0 (read_chunks (a_cells m) 0)"

lemma starts_range: "i \<in> starts s cs \<Longrightarrow> s \<le> i \<and> i + 5 \<le> s + extent cs"
proof (induction cs arbitrary: s rule: extent.induct)
  case (2 k l r cs)
  show ?case
  proof (cases "i \<in> starts (s + k + 5) cs")
    case True
    then show ?thesis
      using "2.IH" [OF True] by simp
  qed (use "2.prems" in \<open>auto split: if_splits\<close>)
qed simp

lemma starts_append: "starts s (xs @ ys) = starts s xs \<union> starts (s + extent xs) ys"
  by (induction xs arbitrary: s rule: extent.induct) (auto simp: ac_simps)

lemma starts_split:
  assumes "i \<in> starts s cs"
  obtains xs k r ys where "cs = xs @ (k, False, r) # ys" and "i = s + extent xs"
  using assms
proof (induction cs arbitrary: s thesis rule: extent.induct)
  case (2 k l r cs)
  show ?case
  proof (cases "\<not> l \<and> i = s")
    case True
    then show ?thesis
      using "2.prems"(1) [of "[]" k r cs] by simp
  next
    case False
    then have "i \<in> starts (s + k + 5) cs"
      using "2.prems"(2) by (auto split: if_splits)
    then obtain xs k1 r1 ys where "cs = xs @ (k1, False, r1) # ys" "i = s + k + 5 + extent xs"
      using "2.IH" by blast
    then show ?thesis
      using "2.prems"(1) [of "(k, l, r) # xs" k1 r1 ys] by simp
  qed
qed simp

lemma usr_inj:
  assumes "sized m" and "i + 5 \<le> length (a_cells m)" and "j + 5 \<le> length (a_cells m)"
    and "usr (a_base m) i = usr (a_base m) j"
  shows "i = j"
proof -
  have "cell m (usr (a_base m) i) = Inr (i + 4)" and "cell m (usr (a_base m) j) = Inr (j + 4)"
    using cell_adr [OF assms(1), of "i + 4"] cell_adr [OF assms(1), of "j + 4"] assms(2,3)
    by (simp_all add: usr_def)
  then have "Inr (i + 4) = (Inr (j + 4) :: fault + nat)"
    unfolding assms(4) by (rule subst)
  then show ?thesis
    by simp
qed

lemma starts_free_op:
  assumes "tidy (xs @ (k, False, False) # ys)"
  shows "starts s (a_free xs k ys) = starts s (xs @ (k, False, False) # ys) - {s + extent xs}"
proof -
  let ?e = "s + extent xs"
  have "?e \<notin> starts s xs" and "?e \<notin> starts (?e + k + 5) ys"
    using starts_range [of ?e s xs] starts_range [of ?e "?e + k + 5" ys] by auto
  then have "starts s (xs @ (k, False, False) # ys) - {?e} = starts s xs \<union> starts (?e + k + 5) ys"
    by (auto simp: starts_append)
  also have "\<dots> = starts s (a_free xs k ys)"
  proof (cases xs rule: rev_cases)
    case Nil
    then show ?thesis
      by (cases ys rule: extent.cases) (simp_all add: a_free_def ac_simps)
  next
    case (snoc ws w)
    obtain k0 l0 r0 where w: "w = (k0, l0, r0)" by (cases w)
    have "l0 = r0"
      using assms by (simp add: snoc w tidy_append tidy_Cons)
    then show ?thesis
      by (cases ys rule: extent.cases) (simp_all add: snoc w a_free_def starts_append ac_simps insert_commute)
  qed
  finally show ?thesis ..
qed


interpretation arena: mem_pool "\<lambda>m. \<exists>cs. heap_ok m cs \<and> tidy cs" live_ptrs
    "\<lambda>m n. picks_free n (read_chunks (a_cells m) 0)" "\<lambda>m n. myalloc m (8 * of_nat n)" myfree
proof
  fix m :: arena and n
  assume "\<exists>cs. heap_ok m cs \<and> tidy cs" and room: "picks_free n (read_chunks (a_cells m) 0)"
  then obtain cs where ok: "heap_ok m cs" and "tidy cs" and pick: "picks_free n cs"
    by (auto simp: read_heap)
  obtain xs k r ys where x: "cs = xs @ (k, True, r) # ys" "n + 5 < k"
      "\<forall>(k', l', r')\<in>set xs. k' \<le> n + 5"
    using pick by (rule picks_freeE)
  let ?j = "extent xs + (k - n)" and ?cs = "xs @ (k - n - 5, True, True) # (n, False, False) # ys"
  have a: "a_alloc n cs = Some (?j, ?cs)"
    using a_alloc_split(1) [OF x(2,3)] by (simp add: x(1))
  have sz: "sized m" and len: "extent xs + k + 5 + extent ys = length (a_cells m)"
    using ok by (simp_all add: heap_ok_def sized_def x(1))
  then have "8 * n + 40 < 2 ^ 64"
    using x(2) by (simp add: sized_def)
  then obtain m' where m': "myalloc m (8 * of_nat n) = Inr (usr (a_base m) ?j, m')"
      "heap_ok m' ?cs" "same_data m m' ?cs"
    using myalloc_spec [OF ok, of n] by (auto simp: a)
  have "starts 0 ?cs = insert ?j (starts 0 cs)"
    using x(2) by (auto simp: x(1) starts_append)
  then have "live_ptrs m' = insert (usr (a_base m) ?j) (live_ptrs m)"
    using read_heap [OF ok] read_heap [OF m'(2)] m'(3) by (simp add: live_ptrs_def same_data_def)
  moreover have "usr (a_base m) ?j \<notin> live_ptrs m"
  proof
    assume "usr (a_base m) ?j \<in> live_ptrs m"
    then obtain i where i: "i \<in> starts 0 cs" "usr (a_base m) ?j = usr (a_base m) i"
      by (auto simp: live_ptrs_def read_heap [OF ok])
    have "i + 5 \<le> length (a_cells m)"
      using starts_range [OF i(1)] len by (simp add: x(1))
    then have "?j = i"
      using usr_inj [OF sz _ _ i(2)] len x(2) by simp
    then show False
      using i(1) x(2) starts_range [of ?j 0 xs] starts_range [of ?j "extent xs + k + 5" ys]
      by (auto simp: x(1) starts_append)
  qed
  ultimately show "\<exists>p m'. myalloc m (8 * of_nat n) = Inr (p, m') \<and> (\<exists>cs. heap_ok m' cs \<and> tidy cs) \<and>
      p \<notin> live_ptrs m \<and> live_ptrs m' = insert p (live_ptrs m)"
    using m' tidy_alloc [OF \<open>tidy cs\<close> pick a] by blast
next
  fix m p
  assume "\<exists>cs. heap_ok m cs \<and> tidy cs" and p: "p \<in> live_ptrs m"
  then obtain cs where ok: "heap_ok m cs" and "tidy cs"
    by blast
  obtain i where i: "i \<in> starts 0 cs" "p = usr (a_base m) i"
    using p by (auto simp: live_ptrs_def read_heap [OF ok])
  obtain xs k r ys where x: "cs = xs @ (k, False, r) # ys" "i = 0 + extent xs"
    using i(1) by (rule starts_split)
  have "\<not> r"
    using \<open>tidy cs\<close> by (simp add: x(1) tidy_append tidy_Cons)
  then obtain m' where m': "myfree m p = Inr m'" "heap_ok m' (a_free xs k ys)"
      "same_data m m' (a_free xs k ys)"
    using myfree_spec [of m xs k ys] ok by (auto simp: x i(2))
  have td: "tidy (xs @ (k, False, False) # ys)"
    using \<open>tidy cs\<close> \<open>\<not> r\<close> by (simp add: x(1))
  have "inj_on (usr (a_base m)) (starts 0 cs)"
    using ok usr_inj [of m] starts_range [of _ 0 cs]
    by (auto simp: inj_on_def heap_ok_def sized_def)
  then have "usr (a_base m) ` (starts 0 cs - {i}) = usr (a_base m) ` starts 0 cs - {p}"
    using i by (simp add: inj_on_image_set_diff)
  then have "live_ptrs m' = live_ptrs m - {p}"
    using read_heap [OF ok] read_heap [OF m'(2)] m'(3) starts_free_op [OF td, of 0] \<open>\<not> r\<close>
    by (simp add: live_ptrs_def same_data_def x)
  then show "\<exists>m'. myfree m p = Inr m' \<and> (\<exists>cs. heap_ok m' cs \<and> tidy cs) \<and> live_ptrs m' = live_ptrs m - {p}"
    using m' tidy_free [OF td] by blast
qed


subsection \<open>Client writes and mycalloc\<close>

text \<open>Nothing that is stored in user cells changes the chunk list.\<close>

lemma seg_meta_cong:
  assumes "\<And>i. s \<le> i \<Longrightarrow> i < s + extent cs \<Longrightarrow> i \<notin> user_cells s cs \<Longrightarrow> c' ! i = c ! i"
  shows "seg b c' s pv cs nx = seg b c s pv cs nx"
  using assms
proof (induction cs arbitrary: s pv rule: extent.induct)
  case (2 k l r cs)
  have out: "i \<notin> user_cells (s + k + 5) cs" if "i < s + k + 9" for i
    using user_cells_range [of i "s + k + 5" cs] that by auto
  have "seg b c' (s + k + 5) (usr b s) cs nx = seg b c (s + k + 5) (usr b s) cs nx"
    using "2.prems" by (intro "2.IH") auto
  moreover have "c' ! s = c ! s" and "c' ! (s + 1) = c ! (s + 1)" and "c' ! (s + 2) = c ! (s + 2)"
    and "c' ! (s + 3) = c ! (s + 3)" and "c' ! (s + k + 4) = c ! (s + k + 4)"
    using out by (auto intro!: "2.prems")
  ultimately show ?case
    by simp
qed simp

lemma heap_user_write:
  assumes "heap_ok m cs" and "length c' = length (a_cells m)"
    and "\<And>i. i \<notin> user_cells 0 cs \<Longrightarrow> c' ! i = a_cells m ! i"
  shows "heap_ok (m\<lparr>a_cells := c'\<rparr>) cs"
proof -
  have "seg (a_base m) c' 0 0 cs 0 = seg (a_base m) (a_cells m) 0 0 cs 0"
    by (rule seg_meta_cong) (use assms(3) in simp)
  then show ?thesis
    using assms(1,2) by (simp add: heap_ok_def)
qed

lemma zero_loop_run:
  assumes "sized m" and "a_base m = b" and "s + n \<le> length (a_cells m)"
  shows "\<exists>c'. zero_loop n m (adr b s) = Inr (adr b (s + n), m\<lparr>a_cells := c'\<rparr>) \<and>
    length c' = length (a_cells m) \<and>
    (\<forall>i. c' ! i = (if s \<le> i \<and> i < s + n then 0 else a_cells m ! i))"
  using assms
proof (induction n arbitrary: m s)
  case 0
  have "m\<lparr>a_cells := a_cells m\<rparr> = m"
    by simp
  then show ?case
    by (intro exI [of _ "a_cells m"]) (auto simp del: arena.surjective)
next
  case (Suc n)
  let ?m = "m\<lparr>a_cells := (a_cells m)[s := 0]\<rparr>"
  have "store m (adr b s) 0 = Inr ?m" and "adr b s + 8 = adr b (s + 1)"
    using Suc.prems store_adr [of m s 0] by (auto simp: adr_def)
  moreover obtain c' where "zero_loop n ?m (adr b (s + 1)) = Inr (adr b (s + 1 + n), ?m\<lparr>a_cells := c'\<rparr>)"
    and "length c' = length (a_cells ?m)"
    and "\<forall>i. c' ! i = (if s + 1 \<le> i \<and> i < s + 1 + n then 0 else a_cells ?m ! i)"
    using Suc.IH [of ?m "s + 1"] Suc.prems by auto
  ultimately show ?case
    using Suc.prems by (intro exI [of _ c']) (auto simp: nth_update_any)
qed

lemma setzero_run:
  assumes "sized m" and "a_base m = b" and "s + n \<le> length (a_cells m)" and "8 * n < 2 ^ 64"
  shows "\<exists>c'. setzero m (adr b s) (8 * of_nat n) = Inr (m\<lparr>a_cells := c'\<rparr>) \<and>
    length c' = length (a_cells m) \<and>
    (\<forall>i. c' ! i = (if s \<le> i \<and> i < s + n then 0 else a_cells m ! i))"
proof -
  have "unat (8 * of_nat n div 8 * 8 div 8 :: size_t) = n" and "8 * of_nat n - 8 * of_nat n div 8 * 8 = (0 :: size_t)"
    using div_8_times [OF assms(4)] assms(4)
    by (simp_all add: mult.commute div_8_times unat_of_nat_less)
  then show ?thesis
    using zero_loop_run [OF assms(1-3)] by (auto simp: setzero_def Let_def)
qed

end
