(* ===== verification/Allocator_Properties.thy ===== *)
theory Allocator_Properties
  imports Allocator
begin

text \<open>
  What the boundary-tag allocator guarantees, and where it does not: the refinement of \<open>myalloc\<close> and
  \<open>myfree\<close>, freshness of blocks, round trips, the run of \<open>main\<close>, and the two defects of \<open>myalloc\<close> (the
  status of a chunk is ignored, the size of a request may wrap).
\<close>

subsection \<open>A small arena\<close>

text \<open>A free chunk of one cell followed by a block of eight cells in use, in 19 cells at address 4096.\<close>

definition two_chunks :: arena where
  "two_chunks = \<lparr>a_base = 4096,
     a_cells = [8, 4176, 0, 1, 7, 1, 64, 0, 4128, 0, 9, 9, 9, 9, 9, 9, 9, 9, 0], a_head = 4128\<rparr>"

definition one_chunk :: arena where
  "one_chunk = \<lparr>a_base = 4096, a_cells = [96, 0, 0, 1, 9, 9, 9, 9, 9, 9, 9, 9, 9, 9, 9, 9, 1], a_head = 4128\<rparr>"

lemma two_chunks_ok: "heap_ok two_chunks [(1, True, True), (8, False, False)]"
  by (simp add: two_chunks_def heap_ok_def marker_def usr_def adr_def)

lemma one_chunk_ok: "heap_ok one_chunk [(12, True, True)]"
  by (simp add: one_chunk_def heap_ok_def marker_def usr_def adr_def)

lemma one_chunk_tidy: "tidy [(12, True, True)]" "picks_free 2 [(12, True, True)]"
  by (simp_all add: picks_free_def)

subsection \<open>Refinement\<close>

text \<open>C1: \<open>myalloc\<close> implements the abstract allocation. On a well-formed heap with chunk list \<open>cs\<close>, a request
  of \<open>n\<close> cells returns NULL and changes nothing when no chunk has more than \<open>n + 5\<close> cells. Otherwise the
  first such chunk is split, the result is the user address of the new chunk behind it, the heap is
  well-formed with the new chunk list, and no cell of a block in use has changed.\<close>

theorem myalloc_refines:
  assumes "heap_ok m cs" and "8 * n + 40 < 2 ^ 64"
  shows "case a_alloc n cs of
      None \<Rightarrow> myalloc m (8 * of_nat n) = Inr (0, m)
    | Some (j, cs') \<Rightarrow> \<exists>m'. myalloc m (8 * of_nat n) = Inr (usr (a_base m) j, m') \<and>
        heap_ok m' cs' \<and> same_data m m' cs'"
  using assms by (rule myalloc_spec)

theorem myalloc_refines_witness:
  "\<exists>m'. myalloc one_chunk 16 = Inr (usr 4096 10, m') \<and>
     heap_ok m' [(5, True, True), (2, False, False)]"
  using myalloc_refines [OF one_chunk_ok, of 2] by (auto simp: one_chunk_def)

text \<open>C5: \<open>myfree\<close> implements the abstract release. On a block in use it marks the chunk free and merges
  it with its free neighbours, on each of the branches for a missing previous or next chunk; the heap
  stays well-formed and no cell of another block in use changes.\<close>

theorem myfree_refines:
  assumes "heap_ok m (xs @ (k, False, False) # ys)"
  shows "\<exists>m'. myfree m (usr (a_base m) (extent xs)) = Inr m' \<and>
    heap_ok m' (a_free xs k ys) \<and> same_data m m' (a_free xs k ys)"
  using assms by (rule myfree_spec)

theorem myfree_refines_witness:
  "\<exists>m'. myfree two_chunks (usr 4096 6) = Inr m' \<and> heap_ok m' [(14, True, True)]"
  using myfree_refines [of two_chunks "[(1, True, True)]" 8 "[]"] two_chunks_ok
  by (auto simp: a_free_def two_chunks_def)

subsection \<open>Blocks\<close>

lemma live_cells_range: "i \<in> live_cells s cs \<Longrightarrow> s + 4 \<le> i \<and> i < s + extent cs"
  using live_subset_user user_cells_range by blast

text \<open>C20: when the chunk that \<open>myalloc\<close> picks is free, the block it returns is fresh: its cells are none
  of the cells of a block in use, its pointer is the only one added to the pointers in use, and the
  data of every block in use is unchanged.\<close>

theorem myalloc_fresh:
  assumes "heap_ok m cs" and "tidy cs" and "picks_free n cs"
  shows "\<exists>j m'. myalloc m (8 * of_nat n) = Inr (usr (a_base m) j, m') \<and>
    {j + 4..<j + 4 + n} \<inter> live_cells 0 cs = {} \<and>
    live_ptrs m' = insert (usr (a_base m) j) (live_ptrs m) \<and>
    (\<forall>i\<in>live_cells 0 cs. a_cells m' ! i = a_cells m ! i)"
proof -
  obtain xs k r ys where x: "cs = xs @ (k, True, r) # ys" "n + 5 < k"
      "\<forall>(k', l', r')\<in>set xs. k' \<le> n + 5"
    using assms(3) by (rule picks_freeE)
  let ?j = "extent xs + (k - n)" and ?cs = "xs @ (k - n - 5, True, True) # (n, False, False) # ys"
  have a: "a_alloc n cs = Some (?j, ?cs)"
    using a_alloc_split(1) [OF x(2,3)] by (simp add: x(1))
  have "8 * n + 40 < 2 ^ 64"
    using assms(1) x(2) by (simp add: heap_ok_def x(1))
  then obtain m' where m': "myalloc m (8 * of_nat n) = Inr (usr (a_base m) ?j, m')" "same_data m m' ?cs"
    using myalloc_spec [OF assms(1), of n] by (auto simp: a)
  have "live_cells 0 cs \<subseteq> live_cells 0 ?cs"
    using x(2) by (auto simp: x(1) live_cells_append)
  then have "\<forall>i\<in>live_cells 0 cs. a_cells m' ! i = a_cells m ! i"
    using m'(2) by (auto simp: same_data_def)
  moreover have "{?j + 4..<?j + 4 + n} \<inter> live_cells 0 cs = {}"
    using live_cells_range [of _ 0 xs] live_cells_range [of _ "extent xs + k + 5" ys] x(2)
    by (fastforce simp: x(1) live_cells_append)
  moreover have "live_ptrs m' = insert (usr (a_base m) ?j) (live_ptrs m)"
    using arena.alloc_law [of m n] assms m'(1) by (auto simp: read_heap)
  ultimately show ?thesis
    using m'(1) by blast
qed

theorem myalloc_fresh_witness:
  "\<exists>j m'. myalloc one_chunk 16 = Inr (usr 4096 j, m') \<and>
     live_ptrs m' = insert (usr 4096 j) (live_ptrs one_chunk)"
  using myalloc_fresh [OF one_chunk_ok one_chunk_tidy] by (auto simp: one_chunk_def)

text \<open>C21: \<open>find_chunk\<close> reads the markers and ignores them. When the first chunk with more than \<open>n + 5\<close>
  cells is a block in use, \<open>myalloc\<close> succeeds and every cell of the block it returns is a cell of that
  block, so that the same memory is handed out twice.\<close>

theorem myalloc_overlaps:
  assumes "heap_ok m (xs @ (k, False, r) # ys)" and "n + 5 < k"
    and "\<forall>(k', l', r')\<in>set xs. k' \<le> n + 5"
  shows "\<exists>j m'. myalloc m (8 * of_nat n) = Inr (usr (a_base m) j, m') \<and> usr (a_base m) j \<noteq> 0 \<and>
    {j + 4..<j + 4 + n} \<subseteq> {extent xs + 4..<extent xs + 4 + k} \<and>
    {j + 4..<j + 4 + n} \<subseteq> live_cells 0 (xs @ (k, False, r) # ys)"
proof -
  let ?j = "extent xs + (k - n)"
  have a: "a_alloc n (xs @ (k, False, r) # ys) =
      Some (?j, xs @ (k - n - 5, False, True) # (n, False, False) # ys)"
    using a_alloc_split(1) [OF assms(2,3)] .
  have "8 * n + 40 < 2 ^ 64" and sz: "sized m" and "?j + 4 < length (a_cells m)"
    using assms(1,2) by (auto simp: heap_ok_def sized_def)
  then have "usr (a_base m) ?j \<noteq> 0"
    by simp
  moreover obtain m' where "myalloc m (8 * of_nat n) = Inr (usr (a_base m) ?j, m')"
    using myalloc_spec [OF assms(1) \<open>8 * n + 40 < 2 ^ 64\<close>] by (auto simp: a)
  moreover have "{?j + 4..<?j + 4 + n} \<subseteq> {extent xs + 4..<extent xs + 4 + k}"
    using assms(2) by auto
  ultimately show ?thesis
    by (fastforce simp: live_cells_append)
qed

theorem myalloc_overlaps_witness:
  "\<exists>j m'. myalloc two_chunks 8 = Inr (usr 4096 j, m') \<and> {j + 4..<j + 5} \<subseteq> {10..<18}"
  using myalloc_overlaps [of two_chunks "[(1, True, True)]" 8 False "[]" 1] two_chunks_ok
  by (auto simp: two_chunks_def)



subsection \<open>Sequences of calls\<close>

fun free_all :: "arena \<Rightarrow> size_t list \<Rightarrow> fault + arena" where
  "free_all m [] = Inr m"
| "free_all m (p # ps) = bindc (myfree m p) (\<lambda>m'. free_all m' ps)"

lemma free_all_eq: "free_all m ps = arena.release_all m ps"
  by (induction ps arbitrary: m) simp_all

lemma no_starts: "starts s cs = {} \<Longrightarrow> \<forall>(k, l, r)\<in>set cs. l"
  by (induction cs arbitrary: s rule: extent.induct) (auto split: if_splits)

lemma tidy_all_free:
  assumes "tidy cs" and "\<forall>(k, l, r)\<in>set cs. l" and "cs \<noteq> []"
  shows "\<exists>k. cs = [(k, True, True)]"
  using assms by (cases cs rule: tidy.cases) auto



text \<open>Evaluation of a sequence of calls through the abstract chunk lists.\<close>

fun chunk_at :: "nat \<Rightarrow> achunk list \<Rightarrow> (achunk list \<times> nat \<times> achunk list) option" where
  "chunk_at e [] = None"
| "chunk_at e ((k, l, r) # cs) =
     (if e = 0 then (if l \<or> r then None else Some ([], k, cs))
      else if e < k + 5 then None
      else map_option (\<lambda>(xs, k', ys). ((k, l, r) # xs, k', ys)) (chunk_at (e - (k + 5)) cs))"

lemma chunk_at_Some:
  "chunk_at e cs = Some (xs, k, ys) \<Longrightarrow> cs = xs @ (k, False, False) # ys \<and> extent xs = e"
  by (induction e cs arbitrary: xs rule: chunk_at.induct) (auto split: if_splits)

lemma bind_alloc:
  assumes "heap_ok m cs" and "a_base m = b" and "unat sz = 8 * (unat sz div 8)" and "unat sz + 40 < 2 ^ 64"
    and "case a_alloc (unat sz div 8) cs of None \<Rightarrow> False
      | Some (j, cs') \<Rightarrow> \<forall>m'. heap_ok m' cs' \<and> a_base m' = b \<longrightarrow> (\<exists>r. f (usr b j, m') = Inr r \<and> Q r)"
  shows "\<exists>r. bindc (myalloc m sz) f = Inr r \<and> Q r"
proof -
  have "8 * of_nat (unat sz div 8) = sz"
    using arg_cong [OF assms(3), of "of_nat :: nat \<Rightarrow> size_t"] by simp
  then show ?thesis
    using myalloc_spec [of m cs "unat sz div 8"] assms by (auto simp: same_data_def split: option.splits)
qed

lemma bind_free:
  assumes "heap_ok m cs" and "a_base m = b"
    and "case chunk_at e cs of None \<Rightarrow> False
      | Some (xs, k, ys) \<Rightarrow> \<forall>m'. heap_ok m' (a_free xs k ys) \<and> a_base m' = b \<longrightarrow> (\<exists>r. f m' = Inr r \<and> Q r)"
  shows "\<exists>r. bindc (myfree m (usr b e)) f = Inr r \<and> Q r"
proof -
  obtain xs k ys where x: "chunk_at e cs = Some (xs, k, ys)"
    and f: "\<forall>m'. heap_ok m' (a_free xs k ys) \<and> a_base m' = b \<longrightarrow> (\<exists>r. f m' = Inr r \<and> Q r)"
    using assms(3) by (auto split: option.splits)
  have "cs = xs @ (k, False, False) # ys" and "extent xs = e"
    using chunk_at_Some [OF x] by simp_all
  then obtain m' where "myfree m (usr b e) = Inr m'" "heap_ok m' (a_free xs k ys)" "a_base m' = b"
    using myfree_spec [of m xs k ys] assms(1,2) by (auto simp: same_data_def)
  then show ?thesis
    using f by simp
qed

lemma last_free:
  assumes "heap_ok m cs" and "a_base m = b"
    and "case chunk_at e cs of None \<Rightarrow> False
      | Some (xs, k, ys) \<Rightarrow> \<forall>m'. heap_ok m' (a_free xs k ys) \<and> a_base m' = b \<longrightarrow> Q m'"
  shows "\<exists>r. myfree m (usr b e) = Inr r \<and> Q r"
  using bind_free [where f = Inr and Q = Q, OF assms(1,2), of e] assms(3)
  by (simp add: bindc_eq_Inr_iff split: option.splits)

lemma use_twice_spec:
  assumes "heap_ok m [(507, True, True)]"
  shows "\<exists>r. use_twice m = Inr r \<and> heap_ok r [(507, True, True)] \<and> a_base r = a_base m"
  unfolding use_twice_def
  apply (insert assms)
  apply (rule bind_alloc, assumption, (assumption | rule refl), simp, simp, simp, intro allI impI, elim conjE)+
  apply (rule bind_free, assumption, assumption, simp add: a_free_def, intro allI impI, elim conjE)+
  apply (rule last_free, assumption, assumption, simp add: a_free_def)
  done

text \<open>The run of \<open>main\<close>. Whatever the page from \<open>mmap\<close> contains and wherever it is, all eight
  allocations succeed, all frees are accepted, in both rounds, and \<open>print_list\<close> prints exactly one
  chunk: 4056 bytes, free on both sides.\<close>

theorem alloc_main_output:
  assumes "length c = 512" and "b \<noteq> 0" and "unat b + 4096 \<le> 2 ^ 64"
  shows "alloc_main \<lparr>a_base = b, a_cells = c, a_head = h\<rparr> b = Inr (Some [(4056, FREE, FREE)])"
proof -
  obtain m0 where m0: "mysetup \<lparr>a_base = b, a_cells = c, a_head = h\<rparr> b 4096 = Inr m0"
      "heap_ok m0 [(507, True, True)]"
    using mysetup_spec [of b 507 c h] assms by auto
  obtain m1 where m1: "use_twice m0 = Inr m1" "heap_ok m1 [(507, True, True)]"
    using use_twice_spec [OF m0(2)] by blast
  obtain m2 where m2: "use_twice m1 = Inr m2" "heap_ok m2 [(507, True, True)]"
    using use_twice_spec [OF m1(2)] by blast
  have "a_head m2 = usr (a_base m2) 0"
    using m2(2) by (simp add: heap_ok_def)
  then have "print_list m2 (a_head m2) = Inr [(4056, FREE, FREE)]"
    using chunk_fields [of m2 "[]" 507 True True "[]"] m2(2) by (simp add: print_list_def marker_def)
  then show ?thesis
    using assms(2) m0(1) m1(1) m2(1) by (simp add: alloc_main_def)
qed

theorem alloc_main_output_witness:
  "alloc_main \<lparr>a_base = 8192, a_cells = replicate 512 7, a_head = 0\<rparr> 8192 = Inr (Some [(4056, FREE, FREE)])"
  using alloc_main_output [of "replicate 512 7" 8192 0] by simp

subsection \<open>Zeroed blocks\<close>

text \<open>C39: \<open>mycalloc\<close> of whole cells returns a fresh block all of whose cells are 0, keeps the heap
  well-formed and changes no block in use; the product of its arguments must not wrap.\<close>

theorem mycalloc_zeroes:
  assumes ok: "heap_ok m cs" and "picks_free n cs" and sz: "unat numitems * unat sz = 8 * n"
  shows "\<exists>j cs' m'. mycalloc m numitems sz = Inr (usr (a_base m) j, m') \<and> a_alloc n cs = Some (j, cs') \<and>
    heap_ok m' cs' \<and> (\<forall>i<n. a_cells m' ! (j + 4 + i) = 0) \<and>
    (\<forall>i\<in>live_cells 0 cs. a_cells m' ! i = a_cells m ! i)"
proof -
  obtain xs k r ys where x: "cs = xs @ (k, True, r) # ys" "n + 5 < k"
      "\<forall>(k', l', r')\<in>set xs. k' \<le> n + 5"
    using assms(2) by (rule picks_freeE)
  let ?j = "extent xs + (k - n)" and ?cs = "xs @ (k - n - 5, True, True) # (n, False, False) # ys"
  have a: "a_alloc n cs = Some (?j, ?cs)"
    using a_alloc_split(1) [OF x(2,3)] by (simp add: x(1))
  have n: "8 * n + 40 < 2 ^ 64" and "sized m"
    using ok x(2) by (simp_all add: heap_ok_def sized_def x(1))
  obtain m1 where m1: "myalloc m (8 * of_nat n) = Inr (usr (a_base m) ?j, m1)" "heap_ok m1 ?cs"
      "same_data m m1 ?cs"
    using myalloc_spec [OF ok n] by (auto simp: a)
  have len: "?j + 4 + n < length (a_cells m)" and "sized m1"
    using ok m1(3) x(2) by (simp_all add: heap_ok_def x(1) same_data_def sized_def)
  have prod: "numitems * sz = 8 * of_nat n"
    using arg_cong [OF sz, of "of_nat :: nat \<Rightarrow> size_t"] by simp
  obtain c' where c': "setzero m1 (usr (a_base m) ?j) (8 * of_nat n) = Inr (m1\<lparr>a_cells := c'\<rparr>)"
      "length c' = length (a_cells m1)"
      "\<forall>i. c' ! i = (if ?j + 4 \<le> i \<and> i < ?j + 4 + n then 0 else a_cells m1 ! i)"
    using setzero_run [of m1 "a_base m" "?j + 4" n] m1(3) len n \<open>sized m1\<close>
    by (auto simp: usr_def same_data_def)
  have "mycalloc m numitems sz = Inr (usr (a_base m) ?j, m1\<lparr>a_cells := c'\<rparr>)"
    using m1(1) c'(1) len usr_nonzero [OF \<open>sized m\<close> refl, of ?j] by (simp add: mycalloc_def prod)
  moreover have "heap_ok (m1\<lparr>a_cells := c'\<rparr>) ?cs"
  proof (rule heap_user_write [OF m1(2) c'(2)])
    fix i
    assume "i \<notin> user_cells 0 ?cs"
    then show "c' ! i = a_cells m1 ! i"
      using c'(3) x(2) by (auto simp: user_cells_append)
  qed
  moreover have "\<forall>i\<in>live_cells 0 cs. c' ! i = a_cells m ! i"
    using c'(3) m1(3) x(2) live_cells_range [of _ 0 xs] live_cells_range [of _ "extent xs + k + 5" ys]
    by (fastforce simp: x(1) live_cells_append same_data_def)
  ultimately show ?thesis
    using c'(3) a by auto
qed

theorem mycalloc_zeroes_witness:
  "\<exists>j cs' m'. mycalloc one_chunk 4 4 = Inr (usr 4096 j, m') \<and> heap_ok m' cs' \<and>
     (\<forall>i<2. a_cells m' ! (j + 4 + i) = 0)"
  using mycalloc_zeroes [OF one_chunk_ok one_chunk_tidy(2), of 4 4]
  by (fastforce simp: one_chunk_def)

subsection \<open>Requests that wrap\<close>

text \<open>The size of a request may wrap. A request of \<open>2 ^ 64 - 8\<close> bytes does not fail: the sum with
  \<open>METAINFO_SIZE\<close> is 32, and on a fresh heap \<open>myalloc\<close> returns a pointer that is not NULL and lies just
  behind the last cell of the block.\<close>

theorem myalloc_size_wraps:
  assumes "heap_ok m [(k, True, True)]" and "4 < k" and "unat (a_base m) + 8 * (k + 5) < 2 ^ 64"
  shows "\<exists>m'. myalloc m (- 8) = Inr (adr (a_base m) (length (a_cells m)), m') \<and>
    adr (a_base m) (length (a_cells m)) \<noteq> 0"
proof -
  let ?b = "a_base m" and ?c = "a_cells m"
  define q where "q = k - 4"
  have k: "k = q + 4" and "0 < q"
    using assms(2) by (simp_all add: q_def)
  have sz: "sized m" and len: "length ?c = q + 9" and hd: "a_head m = usr ?b 0" and nx: "?c ! 1 = 0"
    using assms(1) by (auto simp: heap_ok_def sized_def k)
  note fields = chunk_fields [of m "[]" k True True "[]", simplified, OF assms(1)]
  have "8 * k < 2 ^ 64" and q: "8 * q < 2 ^ 64"
    using assms(3) by (simp_all add: k)
  then have "32 < (8 * of_nat k :: size_t)"
    using assms(2) by (simp add: word_less_nat_alt unat_8_times)
  then have find: "find_chunk m (a_head m) 32 = Inr (usr ?b 0)"
    using fields by (simp add: find_chunk_def hd)
  have "8 * ((- 8 :: size_t) div 8) = - 8"
    by code_simp
  then have wrap: "usr ?b (q + 5) + 8 * ((- 8) div 8) = adr ?b (q + 8)"
    by (simp only:) (simp add: usr_def adr_def algebra_simps)
  have old: "8 * of_nat k - 32 = (8 * of_nat q :: size_t)"
    and off: "usr ?b 0 + (8 * of_nat q + 8) = adr ?b (q + 5)"
    by (simp_all add: k usr_def adr_def algebra_simps)
  let ?m1 = "m\<lparr>a_cells := ?c[0 := 8 * of_nat q]\<rparr>"
  let ?m2 = "m\<lparr>a_cells := ?c[0 := 8 * of_nat q, q + 4 := FREE]\<rparr>"
  let ?m3 = "m\<lparr>a_cells := ?c[0 := 8 * of_nat q, q + 4 := FREE, q + 5 := - 8, q + 6 := 0, q + 7 := 0,
    q + 8 := ALLOCATED, q + 8 := ALLOCATED]\<rparr>"
  have m2: "set_size m (usr ?b 0) (8 * of_nat q) = Inr ?m1"
      "set_right_border_marker ?m1 (usr ?b 0) (8 * of_nat q) FREE = Inr ?m2"
    using sz len right_marker_run(1) [of ?m1 ?b 0 q FREE] by (simp_all add: cell_run)
  have "set_right_border_marker m' (usr ?b (q + 5)) (- 8) v = Inr (m'\<lparr>a_cells := (a_cells m')[q + 8 := v]\<rparr>)"
    if "sized m'" and "a_base m' = ?b" and "q + 8 < length (a_cells m')" for m' v
    using store_adr [OF that(1,3)] wrap that(2) by (simp add: set_right_border_marker_def)
  then have m3: "make_chunk ?m2 (adr ?b (q + 5)) (- 8) ALLOCATED = Inr (usr ?b (q + 5), ?m3)"
    using sz len by (simp add: make_chunk_def usr_offsets cell_run add.commute)
  have "\<exists>m'. add_next ?m3 (usr ?b 0) (usr ?b (q + 5)) = Inr m'"
    using add_next_run [of ?m3 ?b 0 "q + 5" None] sz len nx by simp
  moreover have "usr ?b (q + 5) = adr ?b (length ?c)"
    by (simp add: usr_def len add.commute)
  moreover have "unat (adr ?b (length ?c)) = unat ?b + 8 * (q + 9)"
    using assms(3) unat_8_times [of "q + 9"] by (simp add: adr_def len k unat_plus_if')
  ultimately show ?thesis
    using find fields(1,2) m2 m3 by (auto simp: myalloc_def Let_def old off div_8_times [OF q])
qed

theorem myalloc_size_wraps_witness:
  "\<exists>m'. myalloc one_chunk (- 8) = Inr (adr 4096 17, m')"
  using myalloc_size_wraps [OF one_chunk_ok] by (auto simp: one_chunk_def adr_def)

end
