(* ===== verification/Slab_Cache.thy ===== *)
theory Slab_Cache
  imports Mem_Pool
begin

text \<open>
  The slab cache of \<open>mem/mem_cache\<close>: \<open>block.c\<close>, \<open>slab.c\<close>, \<open>list.c\<close> and \<open>mem_cache.c\<close>.

  The structs \<open>block\<close>, \<open>slab\<close>, \<open>slab_list\<close> and \<open>cache\<close> are records. The record \<open>world\<close> is the cache together
  with the memory it works on: the slabs and the blocks by address, and the blocks of memory that
  \<open>malloc\<close> has given out, with the number of bytes that may be used. A \<open>slab_list *\<close> is one of the three
  lists of the cache. \<open>malloc\<close> is the environment: a function from the requested size to the address
  and the usable size of the block it returns, \<open>None\<close> for NULL.
\<close>

subsection \<open>Data\<close>

datatype list_id = Slabs_free | Slabs_partial | Slabs_full

record block =
  b_size :: size_t
  b_next_block :: ptr
  b_slab_ptr :: ptr

record slab =
  s_size :: size_t
  s_capacity :: size_t
  s_block_size :: size_t
  s_first_block :: ptr
  s_prev_slab :: ptr
  s_next_slab :: ptr
  s_list_ptr :: "list_id option"
  s_raw_data :: ptr

record slab_list =
  l_size :: size_t
  l_head :: ptr

record world =
  slabs :: "nat \<rightharpoonup> slab"
  blocks :: "nat \<rightharpoonup> block"
  malloced :: "nat \<rightharpoonup> nat"
  slabs_free :: slab_list
  slabs_partial :: slab_list
  slabs_full :: slab_list
  c_object_size :: size_t
  c_slab_order :: int
  c_slab_objects :: size_t
  c_slab_size :: size_t

type_synonym malloc = "int \<Rightarrow> (nat \<times> nat) option"

abbreviation PAGE_SIZE :: size_t where "PAGE_SIZE \<equiv> 4096"
abbreviation DEFAULT_SIZE :: size_t where "DEFAULT_SIZE \<equiv> 10"
abbreviation sizeof_block :: nat where "sizeof_block \<equiv> 24"
abbreviation sizeof_slab :: nat where "sizeof_slab \<equiv> 64"

fun get_list :: "list_id \<Rightarrow> world \<Rightarrow> slab_list" where
  "get_list Slabs_free w = slabs_free w"
| "get_list Slabs_partial w = slabs_partial w"
| "get_list Slabs_full w = slabs_full w"

fun put_list :: "list_id \<Rightarrow> slab_list \<Rightarrow> world \<Rightarrow> world" where
  "put_list Slabs_free l w = w\<lparr>slabs_free := l\<rparr>"
| "put_list Slabs_partial l w = w\<lparr>slabs_partial := l\<rparr>"
| "put_list Slabs_full l w = w\<lparr>slabs_full := l\<rparr>"

definition upd_slab :: "ptr \<Rightarrow> (slab \<Rightarrow> slab) \<Rightarrow> world \<Rightarrow> fault + world" where
  "upd_slab p f w = bindc (upd_at (slabs w) p f) (\<lambda>h. Inr (w\<lparr>slabs := h\<rparr>))"

definition upd_block :: "ptr \<Rightarrow> (block \<Rightarrow> block) \<Rightarrow> world \<Rightarrow> fault + world" where
  "upd_block p f w = bindc (upd_at (blocks w) p f) (\<lambda>h. Inr (w\<lparr>blocks := h\<rparr>))"

subsection \<open>block.c\<close>

text \<open>
  \<open>init_block_list\<close> writes the headers of the blocks into the memory behind the slab header; \<open>lim\<close> is the
  end of the memory that \<open>malloc\<close> returned. \<open>init_loop\<close> is the loop, with the number of rounds left.
\<close>

definition put_block :: "nat \<Rightarrow> nat \<Rightarrow> block \<Rightarrow> world \<Rightarrow> fault + world" where
  "put_block lim a b w =
     (if a + sizeof_block \<le> lim then Inr (w\<lparr>blocks := (blocks w)(a \<mapsto> b)\<rparr>) else Inl OutOfBounds)"

fun init_loop :: "nat \<Rightarrow> nat \<Rightarrow> nat \<Rightarrow> block \<Rightarrow> nat \<Rightarrow> ptr \<Rightarrow> world \<Rightarrow> fault + world" where
  "init_loop 0 lim offset blk raw prev_block w = Inr w"
| "init_loop (Suc n) lim offset blk raw prev_block w =
     (let raw' = raw + offset in
      bindc (put_block lim raw' blk w) (\<lambda>w.
      bindc (upd_block prev_block (\<lambda>b. b\<lparr>b_next_block := Some raw'\<rparr>) w) (\<lambda>w.
      init_loop n lim offset blk raw' (Some raw') w)))"

definition init_block_list :: "nat \<Rightarrow> ptr \<Rightarrow> size_t \<Rightarrow> size_t \<Rightarrow> world \<Rightarrow> fault + world" where
  "init_block_list lim sp object_size block_cnt w =
     (if sp = None then Inr w
      else
        bindc (deref (slabs w) sp) (\<lambda>s.
        case s_raw_data s of None \<Rightarrow> Inl NullDeref
        | Some raw \<Rightarrow>
          let offset = unat (object_size + of_nat sizeof_block);
              blk = \<lparr>b_size = object_size, b_next_block = None, b_slab_ptr = sp\<rparr> in
          bindc (put_block lim raw blk w) (\<lambda>w.
          bindc (upd_slab sp (\<lambda>s. s\<lparr>s_first_block := Some raw\<rparr>) w) (\<lambda>w.
          init_loop (unat block_cnt - 1) lim offset blk raw (Some raw) w))))"

definition calc_block_size :: "size_t \<Rightarrow> size_t" where
  "calc_block_size object_size = of_nat sizeof_block + object_size"

definition alloc_block :: "ptr \<Rightarrow> world \<Rightarrow> fault + (ptr \<times> world)" where
  "alloc_block sp w =
     bindc (deref (slabs w) sp) (\<lambda>s.
     if s_capacity s \<le> s_size s then Inr (None, w)
     else
       bindc (deref (blocks w) (s_first_block s)) (\<lambda>b.
       bindc (upd_slab sp (\<lambda>s. s\<lparr>s_first_block := b_next_block b, s_size := s_size s + 1\<rparr>) w) (\<lambda>w.
       bindc (upd_block (s_first_block s) (\<lambda>b. b\<lparr>b_next_block := None\<rparr>) w) (\<lambda>w.
       Inr (map_option (\<lambda>a. a + sizeof_block) (s_first_block s), w)))))"

definition free_block :: "ptr \<Rightarrow> ptr \<Rightarrow> world \<Rightarrow> fault + world" where
  "free_block sp target_block w =
     bindc (deref (slabs w) sp) (\<lambda>s.
     if s_size s = 0 then Inr w
     else if s_first_block s = target_block then Inr w
     else
       bindc (upd_block target_block (\<lambda>b. b\<lparr>b_next_block := s_first_block s\<rparr>) w) (\<lambda>w.
       upd_slab sp (\<lambda>s. s\<lparr>s_first_block := target_block, s_size := s_size s - 1\<rparr>) w))"

subsection \<open>slab.c\<close>

definition alloc_slab :: "malloc \<Rightarrow> int \<Rightarrow> (nat \<times> nat) option" where
  "alloc_slab malloc order = malloc (4096 * order)"

text \<open>\<open>free\<close> takes the start of a block of memory that is in use; what lay in it is gone.\<close>

definition free_slab :: "ptr \<Rightarrow> world \<Rightarrow> fault + world" where
  "free_slab p w = (case p of None \<Rightarrow> Inr w
     | Some a \<Rightarrow> (case malloced w a of None \<Rightarrow> Inl InvalidPtr
         | Some n \<Rightarrow> Inr (w\<lparr>malloced := (malloced w)(a := None),
             slabs := slabs w |` (- {a..<a + n}), blocks := blocks w |` (- {a..<a + n})\<rparr>)))"

definition slab_is_full :: "ptr \<Rightarrow> world \<Rightarrow> fault + bool" where
  "slab_is_full sp w = (if sp = None then Inl Uninit
     else bindc (deref (slabs w) sp) (\<lambda>s. Inr (s_capacity s \<le> s_size s)))"

definition create_slab :: "malloc \<Rightarrow> size_t \<Rightarrow> int \<Rightarrow> size_t \<Rightarrow> world \<Rightarrow> fault + (ptr \<times> world)" where
  "create_slab malloc object_size slab_order slab_objects w =
     (case alloc_slab malloc slab_order of
        None \<Rightarrow> Inr (None, w)
      | Some (a, n) \<Rightarrow>
          bindc (guardc OutOfBounds (sizeof_slab \<le> n)) (\<lambda>_.
          let s = \<lparr>s_size = 0, s_capacity = slab_objects, s_block_size = object_size, s_first_block = None,
                s_prev_slab = None, s_next_slab = None, s_list_ptr = None,
                s_raw_data = Some (a + sizeof_slab)\<rparr>;
              w = w\<lparr>malloced := (malloced w)(a \<mapsto> n), slabs := (slabs w)(a \<mapsto> s)\<rparr> in
          bindc (init_block_list (a + n) (Some a) object_size slab_objects w) (\<lambda>w.
          Inr (Some a, w))))"

subsection \<open>list.c\<close>

definition slab_list_init :: "list_id \<Rightarrow> world \<Rightarrow> world" where
  "slab_list_init list w = put_list list \<lparr>l_size = 0, l_head = None\<rparr> w"

definition add_to_list :: "list_id option \<Rightarrow> ptr \<Rightarrow> world \<Rightarrow> fault + world" where
  "add_to_list lp sp w = (case lp of None \<Rightarrow> Inr w
     | Some list \<Rightarrow>
       if sp = None then Inr w
       else
         let l = get_list list w in
         bindc (if l_size l = 0 \<or> l_head l = None
           then upd_slab sp (\<lambda>s. s\<lparr>s_prev_slab := None, s_next_slab := None\<rparr>) w
           else
             bindc (upd_slab sp (\<lambda>s. s\<lparr>s_prev_slab := l_head l\<rparr>) w) (\<lambda>w.
             upd_slab (l_head l) (\<lambda>s. s\<lparr>s_next_slab := sp\<rparr>) w)) (\<lambda>w.
         upd_slab sp (\<lambda>s. s\<lparr>s_list_ptr := lp\<rparr>)
           (put_list list \<lparr>l_size = l_size l + 1, l_head = sp\<rparr> w)))"

definition delete_from_list :: "list_id option \<Rightarrow> ptr \<Rightarrow> world \<Rightarrow> fault + world" where
  "delete_from_list lp sp w = (case lp of None \<Rightarrow> Inr w
     | Some list \<Rightarrow>
       if sp = None then Inr w
       else
         let l = get_list list w in
         bindc (if l_head l = sp \<or> l_size l = 0
           then
             bindc (deref (slabs w) (l_head l)) (\<lambda>h.
             let w = put_list list (l\<lparr>l_head := s_prev_slab h\<rparr>) w in
             if s_prev_slab h \<noteq> None then upd_slab (s_prev_slab h) (\<lambda>s. s\<lparr>s_next_slab := None\<rparr>) w
             else Inr w)
           else
             bindc (deref (slabs w) sp) (\<lambda>s.
             bindc (if s_prev_slab s \<noteq> None
               then upd_slab (s_prev_slab s) (\<lambda>p. p\<lparr>s_next_slab := s_next_slab s\<rparr>) w else Inr w) (\<lambda>w.
             bindc (deref (slabs w) sp) (\<lambda>s'.
             if s_next_slab s \<noteq> None
             then upd_slab (s_next_slab s) (\<lambda>n. n\<lparr>s_prev_slab := s_prev_slab s'\<rparr>) w else Inr w)))) (\<lambda>w.
         bindc (upd_slab sp (\<lambda>s. s\<lparr>s_next_slab := None, s_prev_slab := None\<rparr>) w) (\<lambda>w.
         let l = get_list list w in
         Inr (put_list list (l\<lparr>l_size := l_size l - 1\<rparr>) w))))"

text \<open>The loop of \<open>slab_list_free\<close>, with the number of rounds it may take.\<close>

fun free_loop :: "nat \<Rightarrow> list_id \<Rightarrow> ptr \<Rightarrow> world \<Rightarrow> fault + world" where
  "free_loop f list None w = Inr w"
| "free_loop 0 list (Some a) w = Inl Blocked"
| "free_loop (Suc f) list (Some a) w =
     bindc (deref (slabs w) (Some a)) (\<lambda>s.
     bindc (delete_from_list (Some list) (Some a) w) (\<lambda>w.
     bindc (free_slab (Some a) w) (\<lambda>w.
     free_loop f list (s_prev_slab s) w)))"

definition slab_list_free :: "nat \<Rightarrow> list_id option \<Rightarrow> world \<Rightarrow> fault + world" where
  "slab_list_free f lp w = (case lp of None \<Rightarrow> Inr w
     | Some list \<Rightarrow> if l_size (get_list list w) = 0 then Inr w
         else free_loop f list (l_head (get_list list w)) w)"

definition slab_reposition :: "list_id option \<Rightarrow> list_id option \<Rightarrow> ptr \<Rightarrow> world \<Rightarrow> fault + world" where
  "slab_reposition src dest sp w =
     bindc (delete_from_list src sp w) (\<lambda>w. add_to_list dest sp w)"

subsection \<open>mem\_cache.c\<close>

definition calculate_slab_size :: "size_t \<Rightarrow> size_t" where
  "calculate_slab_size slab_order =
     (let e = (if slab_order \<noteq> 0 then push_bit (unat (slab_order - 1)) 2 else 1) in e * PAGE_SIZE)"

text \<open>The loop \<open>while (PAGE_SIZE * base < total_size && order < 10)\<close>; \<open>n\<close> is \<open>10 - order\<close>.\<close>

fun order_loop :: "nat \<Rightarrow> size_t \<Rightarrow> size_t \<Rightarrow> size_t \<Rightarrow> size_t" where
  "order_loop 0 total_size base order = order"
| "order_loop (Suc n) total_size base order =
     (if PAGE_SIZE * base < total_size then order_loop n total_size (push_bit 1 base) (order + 1) else order)"

definition get_slab_order :: "size_t \<Rightarrow> size_t \<Rightarrow> size_t" where
  "get_slab_order object_size default_cnt =
     (let total_size = (object_size + of_nat sizeof_block) * default_cnt + of_nat sizeof_slab in
      if total_size \<le> PAGE_SIZE then 0 else order_loop 9 total_size 2 1)"

definition calculate_object_cnt :: "size_t \<Rightarrow> size_t \<Rightarrow> size_t" where
  "calculate_object_cnt slab_size object_size =
     (let work_are_size = slab_size - of_nat sizeof_slab;
          block_size = object_size + of_nat sizeof_block in
      if block_size \<noteq> 0 then work_are_size div block_size else 0)"

definition cache_setup :: "size_t \<Rightarrow> world \<Rightarrow> world" where
  "cache_setup object_size w =
     (let w = slab_list_init Slabs_full (slab_list_init Slabs_partial (slab_list_init Slabs_free w));
          order = get_slab_order object_size DEFAULT_SIZE;
          sz = calculate_slab_size order in
      w\<lparr>c_object_size := object_size, c_slab_order := uint order, c_slab_size := sz,
        c_slab_objects := calculate_object_cnt sz object_size\<rparr>)"

definition cache_release :: "nat \<Rightarrow> world option \<Rightarrow> fault + world option" where
  "cache_release f cache = (case cache of None \<Rightarrow> Inr None
     | Some w \<Rightarrow>
         bindc (slab_list_free f (Some Slabs_free) w) (\<lambda>w.
         bindc (slab_list_free f (Some Slabs_partial) w) (\<lambda>w.
         bindc (slab_list_free f (Some Slabs_full) w) (\<lambda>w.
         Inr (Some w)))))"

definition cache_alloc :: "malloc \<Rightarrow> world \<Rightarrow> fault + (ptr \<times> world)" where
  "cache_alloc malloc w =
     (if 0 < l_size (slabs_free w) then
        let sp = l_head (slabs_free w) in
        bindc (alloc_block sp w) (\<lambda>(mem, w).
        bindc (slab_is_full sp w) (\<lambda>full.
        bindc (if full then slab_reposition (Some Slabs_free) (Some Slabs_full) sp w
               else slab_reposition (Some Slabs_free) (Some Slabs_partial) sp w) (\<lambda>w.
        Inr (mem, w))))
      else
        bindc (if l_size (slabs_partial w) = 0 then
            bindc (create_slab malloc (c_object_size w) (c_slab_order w) (c_slab_objects w) w) (\<lambda>(sp, w).
            bindc (add_to_list (Some Slabs_partial) sp w) (\<lambda>w. Inr (sp, w)))
          else Inr (l_head (slabs_partial w), w)) (\<lambda>(sp, w).
        bindc (alloc_block sp w) (\<lambda>(mem, w).
        bindc (slab_is_full sp w) (\<lambda>full.
        bindc (if full then slab_reposition (Some Slabs_partial) (Some Slabs_full) sp w else Inr w) (\<lambda>w.
        Inr (mem, w))))))"

text \<open>\<open>cache_free\<close>: the header of a block lies right before the memory that the client uses.\<close>

definition cache_free :: "world option \<Rightarrow> nat \<Rightarrow> fault + world option" where
  "cache_free cache p = (case cache of None \<Rightarrow> Inr None
     | Some w \<Rightarrow>
         bindc (guardc InvalidPtr (sizeof_block \<le> p)) (\<lambda>_.
         let bp = Some (p - sizeof_block) in
         bindc (deref (blocks w) bp) (\<lambda>b.
         bindc (deref (slabs w) (b_slab_ptr b)) (\<lambda>s.
         let sp = b_slab_ptr b; lp = s_list_ptr s in
         bindc (free_block sp bp w) (\<lambda>w.
         bindc (deref (slabs w) sp) (\<lambda>s.
         bindc (if s_size s = 0 then slab_reposition lp (Some Slabs_free) sp w
                else slab_reposition lp (Some Slabs_partial) sp w) (\<lambda>w.
         Inr (Some w))))))))"

definition cache_shrink :: "nat \<Rightarrow> world option \<Rightarrow> fault + world option" where
  "cache_shrink f cache = (case cache of None \<Rightarrow> Inr None
     | Some w \<Rightarrow> bindc (slab_list_free f (Some Slabs_free) w) (\<lambda>w. Inr (Some w)))"


subsection \<open>Geometry of a slab\<close>

lemma page_pow2:
  assumes "j \<le> 10"
  shows "unat (PAGE_SIZE * 2 ^ j :: size_t) = 4096 * 2 ^ j"
proof -
  have "(2 :: nat) ^ j \<le> 2 ^ 10"
    using assms by (intro power_increasing) simp_all
  then show ?thesis
    using unat_of_nat_less [of "4096 * 2 ^ j"] by simp
qed

lemma calculate_slab_size_eq: "calculate_slab_size (of_nat j) = PAGE_SIZE * 2 ^ j" if "j \<le> 10"
proof (cases j)
  case (Suc i)
  have "of_nat (Suc i) \<noteq> (0 :: size_t)" and "unat (of_nat (Suc i) - 1 :: size_t) = i"
    using that Suc unat_of_nat_less [of "Suc i"] unat_of_nat_less [of i]
    by (auto simp del: of_nat_Suc simp: unat_eq_zero of_nat_Suc [symmetric])
      (simp add: of_nat_Suc)
  then show ?thesis
    by (simp add: calculate_slab_size_def Suc push_bit_eq_mult del: of_nat_Suc)
qed (simp add: calculate_slab_size_def)

lemma order_loop_spec:
  assumes "n + j = 10"
  shows "\<exists>j'. order_loop n t (2 ^ j) (of_nat j) = of_nat j' \<and> j \<le> j' \<and> j' \<le> 10 \<and>
    (j' < 10 \<longrightarrow> unat t \<le> 4096 * 2 ^ j') \<and> (\<forall>i. j \<le> i \<and> i < j' \<longrightarrow> 4096 * 2 ^ i < unat t)"
  using assms
proof (induction n arbitrary: j)
  case (Suc n)
  have less: "PAGE_SIZE * 2 ^ j < t \<longleftrightarrow> 4096 * 2 ^ j < unat t"
    using page_pow2 [of j] Suc.prems by (simp add: word_less_nat_alt)
  show ?case
  proof (cases "PAGE_SIZE * 2 ^ j < t")
    case True
    obtain j' where "order_loop n t (2 ^ Suc j) (of_nat (Suc j)) = of_nat j'" "Suc j \<le> j'" "j' \<le> 10"
      "j' < 10 \<longrightarrow> unat t \<le> 4096 * 2 ^ j'" "\<forall>i. Suc j \<le> i \<and> i < j' \<longrightarrow> 4096 * 2 ^ i < unat t"
      using Suc.IH [of "Suc j"] Suc.prems by auto
    moreover have "\<forall>i. j \<le> i \<and> i < j' \<longrightarrow> 4096 * 2 ^ i < unat t"
    proof (intro allI impI)
      fix i
      assume "j \<le> i \<and> i < j'"
      then show "4096 * 2 ^ i < unat t"
        using calculation(5) True less by (cases "i = j") auto
    qed
    ultimately show ?thesis
      using True by (intro exI [of _ j']) (simp add: push_bit_eq_mult mult.commute add.commute)
  next
    case False
    then show ?thesis
      using less Suc.prems by (intro exI [of _ j]) auto
  qed
qed (auto intro: exI [of _ 10])

text \<open>
  \<open>fits\<close>: ten objects fit into a slab of the largest order, which is the case for objects of up to
  419,399 bytes.
\<close>

definition total_bytes :: "size_t \<Rightarrow> nat" where
  "total_bytes os = (unat os + sizeof_block) * 10 + sizeof_slab"

definition fits :: "size_t \<Rightarrow> bool" where
  "fits os \<longleftrightarrow> total_bytes os \<le> 4096 * 2 ^ 10"

lemma total_word:
  assumes "fits os"
  shows "unat ((os + 24) * 10 + 64) = total_bytes os" and "unat (os + 24) = unat os + 24"
proof -
  have "unat os + 24 < 2 ^ 64" and t: "total_bytes os < 2 ^ 64"
    using assms by (simp_all add: fits_def total_bytes_def)
  then show "unat (os + 24) = unat os + 24"
    using unat_of_nat_less [of "unat os + 24"] by simp
  show "unat ((os + 24) * 10 + 64) = total_bytes os"
    using unat_of_nat_less [OF t] by (simp add: total_bytes_def algebra_simps)
qed

lemma slab_order_spec:
  assumes "fits os"
  obtains j where "get_slab_order os DEFAULT_SIZE = of_nat j" and "j \<le> 10"
    and "total_bytes os \<le> 4096 * 2 ^ j" and "\<forall>i<j. 4096 * 2 ^ i < total_bytes os"
proof (cases "total_bytes os \<le> 4096")
  case True
  then have "get_slab_order os DEFAULT_SIZE = of_nat 0"
    using total_word(1) [OF assms] by (simp add: get_slab_order_def word_le_nat_alt)
  then show ?thesis
    using that [of 0] True by simp
next
  case False
  obtain j where j: "order_loop 9 ((os + 24) * 10 + 64) (2 ^ 1) (of_nat 1) = of_nat j" "1 \<le> j" "j \<le> 10"
    "j < 10 \<longrightarrow> total_bytes os \<le> 4096 * 2 ^ j" "\<forall>i. 1 \<le> i \<and> i < j \<longrightarrow> 4096 * 2 ^ i < total_bytes os"
    using order_loop_spec [of 9 1 "(os + 24) * 10 + 64"] total_word(1) [OF assms] by auto
  have "get_slab_order os DEFAULT_SIZE = of_nat j"
    using False j(1) total_word(1) [OF assms] by (simp add: get_slab_order_def word_le_nat_alt)
  moreover have "\<forall>i<j. 4096 * 2 ^ i < total_bytes os"
  proof (intro allI impI)
    fix i
    assume "i < j"
    then show "4096 * 2 ^ i < total_bytes os"
      using j(5) False by (cases i) auto
  qed
  moreover have "total_bytes os \<le> 4096 * 2 ^ j"
    using j(3,4) assms by (cases "j = 10") (auto simp: fits_def)
  ultimately show ?thesis
    using that j(3) by blast
qed

lemma object_cnt_spec:
  assumes "fits os" and "unat sz = 4096 * 2 ^ j" and "j \<le> 10" and "total_bytes os \<le> unat sz"
  defines "n \<equiv> unat (calculate_object_cnt sz os)"
  shows "sizeof_slab + n * (unat os + sizeof_block) \<le> unat sz"
    and "unat sz < sizeof_slab + (n + 1) * (unat os + sizeof_block)" and "10 \<le> n"
proof -
  have ge: "64 \<le> unat sz"
    using assms(4) by (simp add: total_bytes_def)
  then have "unat (sz - 64) = unat sz - 64"
    by (subst unat_sub) (simp_all add: word_le_nat_alt)
  moreover have "os + 24 \<noteq> 0"
    using total_word(2) [OF assms(1)] by auto
  ultimately have n: "n = (unat sz - 64) div (unat os + 24)"
    using total_word(2) [OF assms(1)] by (simp add: n_def calculate_object_cnt_def unat_div_distrib)
  have "n * (unat os + sizeof_block) \<le> unat sz - 64"
    unfolding n by (rule div_times_less_eq_dividend)
  then show "sizeof_slab + n * (unat os + sizeof_block) \<le> unat sz"
    using ge by linarith
  have "unat sz - 64 < (unat os + 24) + n * (unat os + 24)"
    unfolding n by (rule dividend_less_div_times) simp
  then show "unat sz < sizeof_slab + (n + 1) * (unat os + sizeof_block)"
    using ge by (simp add: add_mult_distrib)
  have "10 * (unat os + 24) \<le> unat sz - 64"
    using assms(4) by (simp add: total_bytes_def)
  then show "10 \<le> n"
    by (simp add: n less_eq_div_iff_mult_less_eq)
qed


subsection \<open>The free list of a slab\<close>

fun chain :: "(nat \<rightharpoonup> block) \<Rightarrow> ptr \<Rightarrow> nat list \<Rightarrow> bool" where
  "chain h p [] \<longleftrightarrow> p = None"
| "chain h p (a # xs) \<longleftrightarrow> p = Some a \<and> (case h a of None \<Rightarrow> False | Some b \<Rightarrow> chain h (b_next_block b) xs)"

lemma chain_frame: "(\<And>x. x \<in> set xs \<Longrightarrow> h' x = h x) \<Longrightarrow> chain h' p xs = chain h p xs"
  by (induction xs arbitrary: p) (auto split: option.splits)

lemma chain_upd [simp]: "a \<notin> set xs \<Longrightarrow> chain (h(a := v)) p xs = chain h p xs"
  by (rule chain_frame) auto

lemma chain_None_iff: "chain h None xs \<longleftrightarrow> xs = []"
  by (cases xs) auto

definition block_addrs :: "nat \<Rightarrow> nat \<Rightarrow> nat \<Rightarrow> nat list" where
  "block_addrs raw offset n = map (\<lambda>i. raw + i * offset) [0..<n]"

lemma block_addrs_Suc: "block_addrs raw offset (Suc n) = raw # block_addrs (raw + offset) offset n"
  unfolding block_addrs_def by (subst upt_conv_Cons) (simp_all add: map_Suc_upt [symmetric] del: upt_Suc)

lemma set_block_addrs: "set (block_addrs raw offset n) = {raw + i * offset | i. i < n}"
  by (auto simp: block_addrs_def)

lemma distinct_block_addrs: "0 < offset \<Longrightarrow> distinct (block_addrs raw offset n)"
  by (auto simp: block_addrs_def distinct_map inj_on_def)

lemma length_block_addrs [simp]: "length (block_addrs raw offset n) = n"
  by (simp add: block_addrs_def)

lemma block_addrs_ge: "x \<in> set (block_addrs raw offset n) \<Longrightarrow> raw \<le> x"
  by (auto simp: set_block_addrs)

lemma put_block_run:
  "a + 24 \<le> lim \<Longrightarrow> put_block lim a b w = Inr (w\<lparr>blocks := (blocks w)(a \<mapsto> b)\<rparr>)"
  "lim < a + 24 \<Longrightarrow> put_block lim a b w = Inl OutOfBounds"
  by (simp_all add: put_block_def)

lemma upd_block_run: "blocks w a = Some b \<Longrightarrow> upd_block (Some a) f w = Inr (w\<lparr>blocks := (blocks w)(a \<mapsto> f b)\<rparr>)"
  by (simp add: upd_block_def)

lemma upd_slab_run: "slabs w a = Some s \<Longrightarrow> upd_slab (Some a) f w = Inr (w\<lparr>slabs := (slabs w)(a \<mapsto> f s)\<rparr>)"
  by (simp add: upd_slab_def)

lemma init_loop_ok:
  assumes "raw + n * offset + 24 \<le> lim" and "blocks w raw = Some b" and "b_next_block b = None"
    and "b_slab_ptr b = sp" and "b_slab_ptr blk = sp" and "b_next_block blk = None" and "24 \<le> offset"
  shows "\<exists>h. init_loop n lim offset blk raw (Some raw) w = Inr (w\<lparr>blocks := h\<rparr>) \<and>
    (\<forall>x. x \<notin> set (block_addrs raw offset (Suc n)) \<longrightarrow> h x = blocks w x) \<and>
    (\<forall>x\<in>set (block_addrs raw offset (Suc n)). \<exists>b. h x = Some b \<and> b_slab_ptr b = sp) \<and>
    chain h (Some raw) (block_addrs raw offset (Suc n))"
  using assms
proof (induction n arbitrary: raw w b)
  case 0
  then show ?case
    by (intro exI [of _ "blocks w"]) (simp add: block_addrs_def)
next
  case (Suc n)
  let ?raw = "raw + offset"
  let ?h = "(blocks w)(?raw \<mapsto> blk, raw \<mapsto> b\<lparr>b_next_block := Some ?raw\<rparr>)"
  let ?w = "w\<lparr>blocks := ?h\<rparr>"
  have "init_loop (Suc n) lim offset blk raw (Some raw) w = init_loop n lim offset blk ?raw (Some ?raw) ?w"
    using Suc.prems by (simp add: put_block_run upd_block_run Let_def)
  moreover obtain h where h: "init_loop n lim offset blk ?raw (Some ?raw) ?w = Inr (?w\<lparr>blocks := h\<rparr>)"
    "\<forall>x. x \<notin> set (block_addrs ?raw offset (Suc n)) \<longrightarrow> h x = ?h x"
    "\<forall>x\<in>set (block_addrs ?raw offset (Suc n)). \<exists>b. h x = Some b \<and> b_slab_ptr b = sp"
    "chain h (Some ?raw) (block_addrs ?raw offset (Suc n))"
    using Suc.IH [of ?raw ?w blk] Suc.prems by (auto simp: algebra_simps)
  moreover have "raw \<notin> set (block_addrs ?raw offset (Suc n))"
    using Suc.prems(7) block_addrs_ge by fastforce
  moreover have "?raw \<in> set (block_addrs ?raw offset (Suc n))"
    by (auto simp: set_block_addrs)
  ultimately show ?case
    using Suc.prems(4) by (intro exI [of _ h]) (auto simp: block_addrs_Suc [of raw])
qed

lemma init_loop_overflow:
  assumes "lim < raw + n * offset + 24" and "blocks w raw = Some b" and "0 < n"
    and "0 < offset"
  shows "init_loop n lim offset blk raw (Some raw) w = Inl OutOfBounds"
  using assms
proof (induction n arbitrary: raw w b)
  case (Suc n)
  show ?case
  proof (cases "raw + offset + 24 \<le> lim")
    case True
    then have "0 < n"
      using Suc.prems(1) by (cases n) auto
    then show ?thesis
      using Suc.IH [of "raw + offset"] Suc.prems True
      by (simp add: put_block_run upd_block_run Let_def algebra_simps)
  qed (simp add: put_block_run Let_def)
qed simp


subsection \<open>The lists of slabs\<close>

text \<open>A list is linked from its head through \<open>prev_slab\<close>, and back through \<open>next_slab\<close>.\<close>

abbreviation slist :: "(nat \<rightharpoonup> slab) \<Rightarrow> ptr \<Rightarrow> ptr \<Rightarrow> nat list \<Rightarrow> bool" where
  "slist \<equiv> dll s_prev_slab s_next_slab"

definition on_list :: "world \<Rightarrow> list_id \<Rightarrow> nat list \<Rightarrow> bool" where
  "on_list w ld xs \<longleftrightarrow> slist (slabs w) None (l_head (get_list ld w)) xs \<and>
     l_size (get_list ld w) = of_nat (length xs) \<and> distinct xs \<and> set xs \<subseteq> {0<..<2 ^ 64}"

definition links_only :: "(nat \<rightharpoonup> slab) \<Rightarrow> (nat \<rightharpoonup> slab) \<Rightarrow> bool" where
  "links_only h h' \<longleftrightarrow> (\<forall>x. map_option (\<lambda>s. s\<lparr>s_prev_slab := None, s_next_slab := None\<rparr>) (h' x) =
     map_option (\<lambda>s. s\<lparr>s_prev_slab := None, s_next_slab := None\<rparr>) (h x))"

lemma links_only_refl [simp]: "links_only h h"
  by (simp add: links_only_def)

lemma get_put_list [simp]:
  "get_list ld (put_list ld l w) = l" "ld \<noteq> ld2 \<Longrightarrow> get_list ld (put_list ld2 l w) = get_list ld w"
  "slabs (put_list ld l w) = slabs w" "blocks (put_list ld l w) = blocks w"
  "malloced (put_list ld l w) = malloced w" "c_object_size (put_list ld l w) = c_object_size w"
  "c_slab_objects (put_list ld l w) = c_slab_objects w" "get_list ld (w\<lparr>slabs := h\<rparr>) = get_list ld w"
  "get_list ld (w\<lparr>blocks := g\<rparr>) = get_list ld w"
  "(put_list ld l w)\<lparr>slabs := h\<rparr> = put_list ld l (w\<lparr>slabs := h\<rparr>)"
  "put_list ld l (put_list ld l' w) = put_list ld l w"
  "get_list ld (put_list ld2 l (w\<lparr>slabs := h\<rparr>)) = get_list ld (put_list ld2 l w)"
  by (cases ld; cases ld2; simp)+

declare put_list.simps [simp del]

lemma on_list_length:
  assumes "on_list w ld xs"
  shows "length xs < 2 ^ 64"
proof -
  have "card (set xs) \<le> card {0<..<(2 :: nat) ^ 64}"
    using assms by (intro card_mono) (simp_all add: on_list_def)
  then show ?thesis
    using assms by (simp add: on_list_def distinct_card)
qed

lemma l_size_0_iff:
  assumes "on_list w ld xs"
  shows "l_size (get_list ld w) = 0 \<longleftrightarrow> xs = []"
proof -
  have "unat (of_nat (length xs) :: size_t) = length xs"
    using on_list_length [OF assms] by (rule unat_of_nat_less)
  moreover have "l_size (get_list ld w) = of_nat (length xs)"
    using assms by (simp add: on_list_def)
  ultimately show ?thesis
    using unat_eq_zero [of "l_size (get_list ld w)"] by auto
qed

lemma add_to_list_spec:
  assumes l: "on_list w ld xs" and a: "slabs w a = Some s" "s_next_slab s = None" "a \<notin> set xs"
    "0 < a" "a < 2 ^ 64"
  shows "\<exists>h. add_to_list (Some ld) (Some a) w =
      Inr (put_list ld \<lparr>l_size = of_nat (length (a # xs)), l_head = Some a\<rparr> (w\<lparr>slabs := h\<rparr>)) \<and>
    slist h None (Some a) (a # xs) \<and> (\<forall>x. x \<notin> set (a # xs) \<longrightarrow> h x = slabs w x) \<and>
    links_only ((slabs w)(a \<mapsto> s\<lparr>s_list_ptr := Some ld\<rparr>)) h"
proof (cases xs)
  case Nil
  let ?h = "(slabs w)(a \<mapsto> s\<lparr>s_prev_slab := None, s_next_slab := None, s_list_ptr := Some ld\<rparr>)"
  have "l_size (get_list ld w) = 0" and "l_head (get_list ld w) = None"
    using l Nil by (simp_all add: on_list_def)
  then show ?thesis
    using a by (intro exI [of _ ?h]) (simp add: add_to_list_def upd_slab_run Nil links_only_def Let_def)
next
  case (Cons y ys)
  obtain t where t: "l_head (get_list ld w) = Some y" "slabs w y = Some t"
      "slist (slabs w) (Some y) (s_prev_slab t) ys" "y \<notin> set ys" "y \<noteq> a"
    using l a(3) Cons by (auto simp: on_list_def split: option.splits)
  let ?h = "(slabs w)(a \<mapsto> s\<lparr>s_prev_slab := Some y, s_list_ptr := Some ld\<rparr>, y \<mapsto> t\<lparr>s_next_slab := Some a\<rparr>)"
  have "l_size (get_list ld w) \<noteq> 0" and "l_size (get_list ld w) = of_nat (length xs)"
    using l l_size_0_iff [OF l] Cons by (auto simp: on_list_def)
  then show ?thesis
    using a t Cons by (intro exI [of _ ?h])
      (auto simp: add_to_list_def upd_slab_run links_only_def Let_def fun_upd_twist)
qed


lemma list_upd_eq:
  "l\<lparr>l_size := n\<rparr> = \<lparr>l_size = n, l_head = l_head l\<rparr>" "l\<lparr>l_head := p\<rparr> = \<lparr>l_size = l_size l, l_head = p\<rparr>"
  for l :: slab_list
  by (cases l; simp)+

lemma delete_head_spec:
  assumes l: "on_list w ld (a # ys)"
  shows "\<exists>h p. delete_from_list (Some ld) (Some a) w =
      Inr (put_list ld \<lparr>l_size = of_nat (length ys), l_head = p\<rparr> (w\<lparr>slabs := h\<rparr>)) \<and>
    slist h None p ys \<and> (\<forall>x. x \<notin> set (a # ys) \<longrightarrow> h x = slabs w x) \<and> links_only (slabs w) h \<and>
    (\<exists>s. h a = Some s \<and> s_prev_slab s = None \<and> s_next_slab s = None)"
proof -
  obtain s where s: "l_head (get_list ld w) = Some a" "slabs w a = Some s"
      "slist (slabs w) (Some a) (s_prev_slab s) ys" "a \<notin> set ys"
    and n: "l_size (get_list ld w) = of_nat (length ys) + 1"
    using l by (auto simp: on_list_def split: option.splits)
  show ?thesis
  proof (cases ys)
    case Nil
    let ?h = "(slabs w)(a \<mapsto> s\<lparr>s_next_slab := None, s_prev_slab := None\<rparr>)"
    show ?thesis
      using s n Nil by (intro exI [of _ ?h] exI [of _ None])
        (simp add: delete_from_list_def upd_slab_run Let_def links_only_def list_upd_eq)
  next
    case (Cons y zs)
    obtain t where t: "s_prev_slab s = Some y" "slabs w y = Some t" "y \<noteq> a"
        "slist (slabs w) (Some y) (s_prev_slab t) zs" "y \<notin> set zs" "a \<notin> set zs"
      using s(3,4) l Cons by (auto simp: on_list_def split: option.splits)
    let ?h = "(slabs w)(y \<mapsto> t\<lparr>s_next_slab := None\<rparr>, a \<mapsto> s\<lparr>s_next_slab := None, s_prev_slab := None\<rparr>)"
    show ?thesis
      using s n t Cons by (intro exI [of _ ?h] exI [of _ "Some y"])
        (auto simp: delete_from_list_def upd_slab_run Let_def links_only_def list_upd_eq)
  qed
qed

lemma delete_inner_spec:
  assumes l: "on_list w ld (zs @ z # a # ys)"
  shows "\<exists>h. delete_from_list (Some ld) (Some a) w =
      Inr (put_list ld \<lparr>l_size = of_nat (length (zs @ z # ys)), l_head = l_head (get_list ld w)\<rparr>
        (w\<lparr>slabs := h\<rparr>)) \<and>
    slist h None (l_head (get_list ld w)) (zs @ z # ys) \<and>
    (\<forall>x. x \<notin> set (zs @ z # a # ys) \<longrightarrow> h x = slabs w x) \<and> links_only (slabs w) h \<and>
    (\<exists>s. h a = Some s \<and> s_prev_slab s = None \<and> s_next_slab s = None)"
proof -
  let ?l = "get_list ld w"
  have d: "distinct (zs @ z # a # ys)" and n: "l_size ?l = of_nat (length (zs @ z # ys)) + 1"
    and n0: "l_size ?l \<noteq> 0"
    using l l_size_0_iff [OF l] by (auto simp: on_list_def)
  obtain r s where r: "dseg s_prev_slab s_next_slab (slabs w) None (l_head ?l) zs (Some z)"
      "slabs w z = Some r" "s_next_slab r = dlast None zs" "s_prev_slab r = Some a"
    and s: "slabs w a = Some s" "s_next_slab s = Some z" "slist (slabs w) (Some a) (s_prev_slab s) ys"
    using l by (auto simp: on_list_def dll_append split: option.splits)
  have hd: "l_head ?l \<noteq> Some a"
    using r(1) d by (cases zs) (auto split: option.splits)
  show ?thesis
  proof (cases ys)
    case Nil
    let ?h = "(slabs w)(z \<mapsto> r\<lparr>s_prev_slab := None\<rparr>, a \<mapsto> s\<lparr>s_next_slab := None, s_prev_slab := None\<rparr>)"
    show ?thesis
      using r s n n0 hd d Nil by (intro exI [of _ ?h])
        (auto simp: delete_from_list_def upd_slab_run Let_def links_only_def list_upd_eq dll_append)
  next
    case (Cons y ws)
    obtain t where t: "s_prev_slab s = Some y" "slabs w y = Some t" "s_next_slab t = Some a"
        "slist (slabs w) (Some y) (s_prev_slab t) ws"
      using s(3) Cons by (auto split: option.splits)
    let ?h = "(slabs w)(y \<mapsto> t\<lparr>s_next_slab := Some z\<rparr>, z \<mapsto> r\<lparr>s_prev_slab := Some y\<rparr>,
      a \<mapsto> s\<lparr>s_next_slab := None, s_prev_slab := None\<rparr>)"
    show ?thesis
      using r s t n n0 hd d Cons by (intro exI [of _ ?h])
        (auto simp: delete_from_list_def upd_slab_run Let_def links_only_def list_upd_eq dll_append fun_upd_twist)
  qed
qed

lemma delete_spec:
  assumes l: "on_list w ld (xs @ a # ys)"
  shows "\<exists>h p. delete_from_list (Some ld) (Some a) w =
      Inr (put_list ld \<lparr>l_size = of_nat (length (xs @ ys)), l_head = p\<rparr> (w\<lparr>slabs := h\<rparr>)) \<and>
    slist h None p (xs @ ys) \<and> (\<forall>x. x \<notin> set (xs @ a # ys) \<longrightarrow> h x = slabs w x) \<and>
    links_only (slabs w) h \<and> (\<exists>s. h a = Some s \<and> s_prev_slab s = None \<and> s_next_slab s = None)"
proof (cases xs rule: rev_cases)
  case Nil
  then show ?thesis
    using delete_head_spec [of w ld a ys] l by simp
next
  case (snoc zs z)
  then show ?thesis
    using delete_inner_spec [of w ld zs z a ys] l by auto
qed


subsection \<open>The state of the cache\<close>

text \<open>
  Ghost data: the slabs on each list, and the free list of each slab. \<open>core_ok\<close> is what holds also in the
  middle of an operation; \<open>cache_ok\<close> adds that each slab is on the list that its load requires.
\<close>

definition cap :: "world \<Rightarrow> nat" where
  "cap w = unat (c_slab_objects w)"

definition addrs :: "world \<Rightarrow> nat \<Rightarrow> nat list" where
  "addrs w a = block_addrs (a + sizeof_slab) (unat (c_object_size w) + sizeof_block) (cap w)"

definition slab_ok :: "world \<Rightarrow> nat \<Rightarrow> list_id \<Rightarrow> nat list \<Rightarrow> bool" where
  "slab_ok w a ld fl \<longleftrightarrow>
     (case slabs w a of None \<Rightarrow> False
      | Some s \<Rightarrow> s_capacity s = c_slab_objects w \<and> s_list_ptr s = Some ld \<and>
          chain (blocks w) (s_first_block s) fl \<and> unat (s_size s) + length fl = cap w) \<and>
     distinct fl \<and> set fl \<subseteq> set (addrs w a) \<and>
     (\<forall>x\<in>set (addrs w a). \<exists>b. blocks w x = Some b \<and> b_slab_ptr b = Some a)"

definition region :: "world \<Rightarrow> nat \<Rightarrow> nat set" where
  "region w a = {a..<a + the (malloced w a)}"

definition regions_ok :: "world \<Rightarrow> nat set \<Rightarrow> bool" where
  "regions_ok w A \<longleftrightarrow>
     (\<forall>a\<in>A. \<exists>n. malloced w a = Some n \<and>
        sizeof_slab + cap w * (unat (c_object_size w) + sizeof_block) \<le> n) \<and>
     (\<forall>a\<in>A. \<forall>b\<in>A. a \<noteq> b \<longrightarrow> region w a \<inter> region w b = {})"

type_synonym lists = "list_id \<Rightarrow> nat list"

definition all_slabs :: "lists \<Rightarrow> nat set" where
  "all_slabs L = (\<Union>ld. set (L ld))"

definition core_ok :: "world \<Rightarrow> lists \<Rightarrow> (nat \<Rightarrow> nat list) \<Rightarrow> bool" where
  "core_ok w L fl \<longleftrightarrow> 0 < cap w \<and>
     (\<forall>ld. on_list w ld (L ld)) \<and>
     (\<forall>i j. i \<noteq> j \<longrightarrow> set (L i) \<inter> set (L j) = {}) \<and>
     (\<forall>ld. \<forall>a\<in>set (L ld). slab_ok w a ld (fl a)) \<and>
     regions_ok w (all_slabs L)"

fun load_ok :: "nat \<Rightarrow> list_id \<Rightarrow> nat \<Rightarrow> bool" where
  "load_ok c Slabs_free n \<longleftrightarrow> n = c"
| "load_ok c Slabs_partial n \<longleftrightarrow> 0 < n \<and> n < c"
| "load_ok c Slabs_full n \<longleftrightarrow> n = 0"

definition cache_ok :: "world \<Rightarrow> lists \<Rightarrow> (nat \<Rightarrow> nat list) \<Rightarrow> bool" where
  "cache_ok w L fl \<longleftrightarrow> core_ok w L fl \<and> (\<forall>ld. \<forall>a\<in>set (L ld). load_ok (cap w) ld (length (fl a)))"

definition same_env :: "world \<Rightarrow> world \<Rightarrow> bool" where
  "same_env w w' \<longleftrightarrow> malloced w' = malloced w \<and> c_object_size w' = c_object_size w \<and>
     c_slab_objects w' = c_slab_objects w"

lemma same_envD:
  assumes "same_env w w'"
  shows "cap w' = cap w" and "addrs w' = addrs w" and "region w' = region w" and "regions_ok w' A = regions_ok w A"
  using assms by (auto simp: same_env_def cap_def addrs_def region_def regions_ok_def fun_eq_iff)

lemma same_env_simps [simp]:
  "same_env w w" "same_env w (put_list ld l w') = same_env w w'"
  "same_env w (w'\<lparr>slabs := h\<rparr>) = same_env w w'" "same_env w (w'\<lparr>blocks := g\<rparr>) = same_env w w'"
  by (simp_all add: same_env_def)

lemma env_simps [simp]:
  "cap (w\<lparr>slabs := h\<rparr>) = cap w" "cap (w\<lparr>blocks := g\<rparr>) = cap w" "cap (put_list ld l w) = cap w"
  "addrs (w\<lparr>slabs := h\<rparr>) = addrs w" "addrs (w\<lparr>blocks := g\<rparr>) = addrs w"
  "addrs (put_list ld l w) = addrs w"
  by (simp_all add: cap_def addrs_def fun_eq_iff)

lemma links_onlyD:
  assumes "links_only h h'" and "h a = Some s"
  obtains s' where "h' a = Some s'" and "s_size s' = s_size s" and "s_capacity s' = s_capacity s"
    and "s_first_block s' = s_first_block s" and "s_list_ptr s' = s_list_ptr s"
proof -
  have "map_option (\<lambda>s. s\<lparr>s_prev_slab := None, s_next_slab := None\<rparr>) (h' a) =
      Some (s\<lparr>s_prev_slab := None, s_next_slab := None\<rparr>)"
    using assms by (simp add: links_only_def)
  then obtain s' where "h' a = Some s'"
    and "s'\<lparr>s_prev_slab := None, s_next_slab := None\<rparr> = s\<lparr>s_prev_slab := None, s_next_slab := None\<rparr>"
    by auto
  then show ?thesis
    using that [of s'] by (cases s; cases s') simp
qed

lemma slab_ok_links:
  assumes "slab_ok w a ld fl" and "links_only (slabs w) (slabs w')" and "blocks w' = blocks w" and "same_env w w'"
  shows "slab_ok w' a ld fl"
proof -
  obtain s where s: "slabs w a = Some s"
    using assms(1) by (auto simp: slab_ok_def split: option.splits)
  obtain s' where "slabs w' a = Some s'" "s_size s' = s_size s" "s_capacity s' = s_capacity s"
    "s_first_block s' = s_first_block s" "s_list_ptr s' = s_list_ptr s"
    using links_onlyD [OF assms(2) s] .
  then show ?thesis
    using assms(1,3,4) s by (simp add: slab_ok_def same_envD [OF assms(4)] same_env_def)
qed

lemma on_list_frame:
  assumes "on_list w ld xs" and "get_list ld w' = get_list ld w" and "\<And>x. x \<in> set xs \<Longrightarrow> slabs w' x = slabs w x"
  shows "on_list w' ld xs"
proof -
  have "slist (slabs w') bk p ys = slist (slabs w) bk p ys" if "set ys \<subseteq> set xs" for bk p ys
    using that assms(3) by (induction ys arbitrary: bk p) (auto split: option.splits)
  then show ?thesis
    using assms(1,2) by (simp add: on_list_def)
qed

text \<open>Updates of the load of a slab leave the links alone.\<close>

lemma on_list_load:
  assumes "on_list w ld xs" and "slabs w a = Some s"
    and "s_prev_slab s' = s_prev_slab s" and "s_next_slab s' = s_next_slab s"
  shows "on_list (w\<lparr>slabs := (slabs w)(a \<mapsto> s')\<rparr>) ld xs"
proof -
  have "slist ((slabs w)(a \<mapsto> s')) bk p ys = slist (slabs w) bk p ys" for bk p ys
    using assms(2-4) by (induction ys arbitrary: bk p) (auto split: option.splits)
  then show ?thesis
    using assms(1) by (simp add: on_list_def)
qed


lemma core_okD:
  assumes "core_ok w L fl"
  shows "on_list w ld (L ld)" and "i \<noteq> j \<Longrightarrow> set (L i) \<inter> set (L j) = {}"
    and "a \<in> set (L ld) \<Longrightarrow> slab_ok w a ld (fl a)" and "regions_ok w (all_slabs L)" and "0 < cap w"
  using assms by (simp_all add: core_ok_def)

lemma on_list_range: "on_list w ld xs \<Longrightarrow> a \<in> set xs \<Longrightarrow> 0 < a \<and> a < 2 ^ 64"
  by (auto simp: on_list_def)

definition move :: "list_id \<Rightarrow> list_id \<Rightarrow> nat \<Rightarrow> lists \<Rightarrow> lists" where
  "move src dst a L = (let L' = L(src := remove1 a (L src)) in L'(dst := a # L' dst))"

lemma set_move:
  assumes "a \<in> set (L src)" and "distinct (L src)" and "\<And>i j. i \<noteq> j \<Longrightarrow> set (L i) \<inter> set (L j) = {}"
  shows "set (move src dst a L ld) = (if ld = dst then insert a (set (L ld)) else set (L ld) - {a})"
proof (cases "ld = src")
  case True
  then show ?thesis
    using assms(1,2) by (auto simp: move_def Let_def)
next
  case False
  then have "a \<notin> set (L ld)"
    using assms(3) [of ld src] assms(1) by auto
  then show ?thesis
    using False by (auto simp: move_def Let_def)
qed

lemma all_slabs_move:
  assumes "a \<in> set (L src)" and "distinct (L src)" and "\<And>i j. i \<noteq> j \<Longrightarrow> set (L i) \<inter> set (L j) = {}"
  shows "all_slabs (move src dst a L) = all_slabs L"
proof -
  note m = set_move [where L = L and src = src and a = a, OF assms]
  have "x \<in> all_slabs (move src dst a L) \<longleftrightarrow> x \<in> all_slabs L" for x
  proof (cases "x = a")
    case True
    then show ?thesis
      using m [of dst] assms(1) unfolding all_slabs_def by auto
  next
    case False
    then show ?thesis
      unfolding all_slabs_def by (auto simp: m split: if_splits)
  qed
  then show ?thesis by blast
qed

lemma reposition_spec:
  assumes ok: "core_ok w L fl" and a: "a \<in> set (L src)"
  shows "\<exists>w'. slab_reposition (Some src) (Some dst) (Some a) w = Inr w' \<and>
    core_ok w' (move src dst a L) fl \<and> same_env w w'"
proof -
  have l: "on_list w src (L src)" and d: "distinct (L src)" and a64: "0 < a" "a < 2 ^ 64"
    using core_okD(1) [OF ok] on_list_range [OF core_okD(1) [OF ok] a] by (auto simp: on_list_def)
  obtain xs ys where xs: "L src = xs @ a # ys"
    using a by (meson split_list)
  then have rem: "remove1 a (L src) = xs @ ys" and a_new: "a \<notin> set (xs @ ys)"
    using d by (auto simp: remove1_append)
  obtain h p s where h: "delete_from_list (Some src) (Some a) w =
      Inr (put_list src \<lparr>l_size = of_nat (length (xs @ ys)), l_head = p\<rparr> (w\<lparr>slabs := h\<rparr>))"
      "slist h None p (xs @ ys)" "\<forall>x. x \<notin> set (L src) \<longrightarrow> h x = slabs w x" "links_only (slabs w) h"
      "h a = Some s" "s_next_slab s = None"
    using delete_spec [of w src xs a ys] l unfolding xs by blast
  let ?w1 = "put_list src \<lparr>l_size = of_nat (length (xs @ ys)), l_head = p\<rparr> (w\<lparr>slabs := h\<rparr>)"
  let ?L1 = "L(src := xs @ ys)"
  have l1: "on_list ?w1 ld (?L1 ld)" for ld
  proof (cases "ld = src")
    case True
    then show ?thesis
      using h(2) l by (auto simp: on_list_def xs)
  next
    case False
    have "on_list ?w1 ld (L ld)"
      by (rule on_list_frame [OF core_okD(1) [OF ok, of ld]])
        (use False h(3) core_okD(2) [OF ok False] in auto)
    then show ?thesis
      using False by simp
  qed
  have a1: "a \<notin> set (?L1 dst)"
    using a_new a core_okD(2) [OF ok, of dst src] by (cases "dst = src") auto
  obtain h2 where h2: "add_to_list (Some dst) (Some a) ?w1 =
      Inr (put_list dst \<lparr>l_size = of_nat (length (a # ?L1 dst)), l_head = Some a\<rparr> (?w1\<lparr>slabs := h2\<rparr>))"
      "slist h2 None (Some a) (a # ?L1 dst)" "\<forall>x. x \<notin> set (a # ?L1 dst) \<longrightarrow> h2 x = h x"
      "links_only (h(a \<mapsto> s\<lparr>s_list_ptr := Some dst\<rparr>)) h2"
    using add_to_list_spec [OF l1, of a s dst] h(5,6) a1 a64 by auto
  let ?w2 = "put_list dst \<lparr>l_size = of_nat (length (a # ?L1 dst)), l_head = Some a\<rparr> (?w1\<lparr>slabs := h2\<rparr>)"
  let ?L2 = "move src dst a L"
  have L2: "?L2 = ?L1(dst := a # ?L1 dst)"
    by (simp add: move_def rem Let_def)
  note m = set_move [where L = L and src = src and a = a and dst = dst, OF a d core_okD(2) [OF ok]]
  have env: "same_env w ?w2"
    by simp
  have all: "all_slabs ?L2 = all_slabs L"
    using all_slabs_move [where L = L and src = src, OF a d] core_okD(2) [OF ok] by blast
  have "on_list ?w2 ld (?L2 ld)" for ld
  proof (cases "ld = dst")
    case True
    then show ?thesis
      using h2(2) l1 [of dst] a1 a64 by (simp add: L2 on_list_def)
  next
    case False
    have "a \<notin> set (?L1 ld)"
      using a_new a core_okD(2) [OF ok, of ld src] by (cases "ld = src") auto
    moreover have "set (?L1 ld) \<inter> set (?L1 dst) = {}"
      using core_okD(2) [OF ok False] by (auto simp: xs split: if_splits)
    ultimately have "on_list ?w2 ld (?L1 ld)"
      by (intro on_list_frame [OF l1 [of ld]]) (use False h2(3) in auto)
    then show ?thesis
      using False by (simp add: L2)
  qed
  moreover have "set (?L2 i) \<inter> set (?L2 j) = {}" if "i \<noteq> j" for i j
    using core_okD(2) [OF ok that] that by (auto simp: m)
  moreover have "slab_ok ?w2 b ld (fl b)" if b: "b \<in> set (?L2 ld)" for ld b
  proof -
    let ?w' = "w\<lparr>slabs := h(a \<mapsto> s\<lparr>s_list_ptr := Some dst\<rparr>)\<rparr>"
    have "slab_ok ?w' b ld (fl b)"
    proof (cases "b = a")
      case True
      then have "ld = dst"
        using b by (auto simp: m split: if_splits)
      moreover have "slab_ok (w\<lparr>slabs := h\<rparr>) a src (fl a)"
        by (rule slab_ok_links [OF core_okD(3) [OF ok a]]) (use h(4) in simp_all)
      ultimately show ?thesis
        using True h(5) by (simp add: slab_ok_def cap_def addrs_def)
    next
      case False
      then have "slab_ok (w\<lparr>slabs := h\<rparr>) b ld (fl b)"
        by (intro slab_ok_links [OF core_okD(3) [OF ok]]) (use h(4) b in \<open>auto simp: m split: if_splits\<close>)
      then show ?thesis
        using False by (simp add: slab_ok_def cap_def addrs_def split: option.splits)
    qed
    then show ?thesis
      by (rule slab_ok_links) (use h2(4) in \<open>simp_all add: same_env_def\<close>)
  qed
  ultimately have "core_ok ?w2 ?L2 fl"
    using core_okD(4,5) [OF ok]
    unfolding core_ok_def same_envD(1,4) [OF env] all by blast
  then show ?thesis
    using h(1) h2(1) env by (simp add: slab_reposition_def)
qed


subsection \<open>Blocks of a slab\<close>

lemma slab_of:
  assumes "slab_ok w a ld fl"
  obtains s where "slabs w a = Some s" and "s_capacity s = c_slab_objects w" and "s_list_ptr s = Some ld"
    and "chain (blocks w) (s_first_block s) fl" and "unat (s_size s) + length fl = cap w"
  using assms by (auto simp: slab_ok_def split: option.splits)

lemma addrs_in_region:
  assumes "regions_ok w A" and "a \<in> A" and "x \<in> set (addrs w a)"
  shows "x \<in> region w a" and "a < x"
proof -
  let ?o = "unat (c_object_size w) + 24"
  obtain i where i: "x = a + 64 + i * ?o" "i < cap w"
    using assms(3) by (auto simp: addrs_def set_block_addrs)
  then have "(i + 1) * ?o \<le> cap w * ?o"
    by (intro mult_right_mono) simp_all
  moreover obtain n where "malloced w a = Some n" "64 + cap w * ?o \<le> n"
    using assms(1,2) by (auto simp: regions_ok_def)
  ultimately show "x \<in> region w a" and "a < x"
    using i(1) by (auto simp: region_def add_mult_distrib)
qed

lemma addrs_disjoint:
  assumes "regions_ok w A" and "a \<in> A" and "b \<in> A" and "a \<noteq> b"
  shows "set (addrs w a) \<inter> set (addrs w b) = {}"
proof -
  have "region w a \<inter> region w b = {}"
    using assms by (auto simp: regions_ok_def)
  then show ?thesis
    using addrs_in_region [OF assms(1,2)] addrs_in_region [OF assms(1,3)] by blast
qed

lemma all_slabsI: "a \<in> set (L ld) \<Longrightarrow> a \<in> all_slabs L"
  by (auto simp: all_slabs_def)

text \<open>
  A change of the free list of one slab: its header gets a new first block and size, one of its blocks
  a new next pointer.
\<close>

lemma core_ok_block:
  assumes ok: "core_ok w L fl" and a: "a \<in> set (L ld)" and s: "slabs w a = Some s"
    and p: "p \<in> set (addrs w a)" "blocks w p = Some b"
    and w': "w' = w\<lparr>slabs := (slabs w)(a \<mapsto> s\<lparr>s_first_block := fb, s_size := n\<rparr>),
      blocks := (blocks w)(p \<mapsto> b\<lparr>b_next_block := nb\<rparr>)\<rparr>"
    and fl': "chain (blocks w') fb fs" "distinct fs" "set fs \<subseteq> set (addrs w a)" "unat n + length fs = cap w"
  shows "core_ok w' L (fl(a := fs))"
proof -
  have env: "same_env w w'" and eqs: "slabs w' = (slabs w)(a \<mapsto> s\<lparr>s_first_block := fb, s_size := n\<rparr>)"
      "blocks w' = (blocks w)(p \<mapsto> b\<lparr>b_next_block := nb\<rparr>)" "c_slab_objects w' = c_slab_objects w"
    by (simp_all add: w' same_env_def)
  note rules = slab_ok_def same_envD [OF env] eqs
  have "on_list w' i (L i)" for i
    using on_list_load [OF core_okD(1) [OF ok, of i] s, of "s\<lparr>s_first_block := fb, s_size := n\<rparr>"]
    by (simp add: w' on_list_def)
  moreover have "slab_ok w' c i ((fl(a := fs)) c)" if c: "c \<in> set (L i)" for i c
  proof (cases "c = a")
    case True
    then have "i = ld"
      using core_okD(2) [OF ok, of i ld] a c by blast
    then have "slab_ok w a i (fl a)"
      using core_okD(3) [OF ok a] by simp
    then show ?thesis
      using True s p fl' by (auto simp: rules)
  next
    case False
    have sc: "slab_ok w c i (fl c)"
      by (rule core_okD(3) [OF ok c])
    have "p \<notin> set (addrs w c)"
      using addrs_disjoint [OF core_okD(4) [OF ok]] all_slabsI [of _ L] a c False p(1) by blast
    moreover from this have "p \<notin> set (fl c)"
      using sc by (auto simp: slab_ok_def)
    ultimately show ?thesis
      using sc False by (auto simp: rules split: option.splits)
  qed
  ultimately show ?thesis
    using core_okD(2,4,5) [OF ok] by (simp add: core_ok_def same_envD [OF env])
qed


lemma alloc_block_spec:
  assumes ok: "core_ok w L fl" and a: "a \<in> set (L ld)" and fl: "fl a = p # fs"
  shows "\<exists>w'. alloc_block (Some a) w = Inr (Some (p + sizeof_block), w') \<and> core_ok w' L (fl(a := fs)) \<and>
    same_env w w' \<and> slab_is_full (Some a) w' = Inr (fs = [])"
proof -
  have sok: "slab_ok w a ld (p # fs)"
    using core_okD(3) [OF ok a] fl by simp
  then obtain s where s: "slabs w a = Some s" "s_capacity s = c_slab_objects w"
      "chain (blocks w) (s_first_block s) (p # fs)" "unat (s_size s) + length (p # fs) = cap w"
    by (rule slab_of)
  obtain b where b: "s_first_block s = Some p" "blocks w p = Some b" "chain (blocks w) (b_next_block b) fs"
    using s(3) by (auto split: option.splits)
  have p: "p \<in> set (addrs w a)" "p \<notin> set fs" "distinct fs" "set fs \<subseteq> set (addrs w a)"
    using sok by (auto simp: slab_ok_def)
  have "unat (s_size s) < 2 ^ 64 - 1"
    using s(4) unat_size_t_less [of "c_slab_objects w"] by (simp add: cap_def)
  then have n: "unat (s_size s + 1) = unat (s_size s) + 1"
    using unat_of_nat_less [of "unat (s_size s) + 1"] by (simp add: add.commute)
  have less: "\<not> s_capacity s \<le> s_size s" and full: "s_capacity s \<le> s_size s + 1 \<longleftrightarrow> fs = []"
    using s(2,4) n by (cases fs; auto simp: word_le_nat_alt cap_def)+
  define w' where "w' = w\<lparr>slabs := (slabs w)(a \<mapsto> s\<lparr>s_first_block := b_next_block b, s_size := s_size s + 1\<rparr>),
    blocks := (blocks w)(p \<mapsto> b\<lparr>b_next_block := None\<rparr>)\<rparr>"
  have "core_ok w' L (fl(a := fs))"
    by (rule core_ok_block [OF ok a s(1) p(1) b(2) w'_def]) (use b(3) p s(4) n in \<open>simp_all add: w'_def\<close>)
  moreover have "alloc_block (Some a) w = Inr (Some (p + sizeof_block), w')"
    using s(1) b less by (simp add: alloc_block_def upd_slab_run upd_block_run w'_def)
  moreover have "slab_is_full (Some a) w' = Inr (fs = [])"
    using full by (simp add: slab_is_full_def w'_def)
  ultimately show ?thesis
    by (auto simp: w'_def)
qed

lemma free_block_spec:
  assumes ok: "core_ok w L fl" and a: "a \<in> set (L ld)"
    and p: "p \<in> set (addrs w a)" "p \<notin> set (fl a)"
  shows "\<exists>w' s'. free_block (Some a) (Some p) w = Inr w' \<and> core_ok w' L (fl(a := p # fl a)) \<and>
    same_env w w' \<and> slabs w' a = Some s' \<and> (s_size s' = 0 \<longleftrightarrow> length (p # fl a) = cap w)"
proof -
  have sok: "slab_ok w a ld (fl a)"
    using core_okD(3) [OF ok a] .
  then obtain s where s: "slabs w a = Some s" "chain (blocks w) (s_first_block s) (fl a)"
      "unat (s_size s) + length (fl a) = cap w"
    by (rule slab_of)
  obtain b where b: "blocks w p = Some b"
    using sok p(1) by (auto simp: slab_ok_def)
  have fl: "distinct (fl a)" "set (fl a) \<subseteq> set (addrs w a)"
    using sok by (simp_all add: slab_ok_def)
  have "card (set (fl a)) < card (set (addrs w a))"
    using fl(2) p by (intro psubset_card_mono) auto
  also have "\<dots> \<le> cap w"
    using card_length [of "addrs w a"] by (simp add: addrs_def)
  finally have "length (fl a) < cap w"
    using fl(1) by (simp add: distinct_card)
  then have pos: "0 < unat (s_size s)"
    using s(3) by simp
  then have "1 \<le> s_size s"
    by (simp add: word_le_nat_alt)
  then have n: "unat (s_size s - 1) = unat (s_size s) - 1"
    by (simp add: unat_sub)
  have first: "s_first_block s \<noteq> Some p"
    using s(2) p(2) by (cases "fl a") auto
  define w' where "w' = w\<lparr>slabs := (slabs w)(a \<mapsto> s\<lparr>s_first_block := Some p, s_size := s_size s - 1\<rparr>),
    blocks := (blocks w)(p \<mapsto> b\<lparr>b_next_block := s_first_block s\<rparr>)\<rparr>"
  have "core_ok w' L (fl(a := p # fl a))"
    by (rule core_ok_block [OF ok a s(1) p(1) b w'_def]) (use s p fl n pos in \<open>simp_all add: w'_def\<close>)
  moreover have "s_size s \<noteq> 0"
    using pos by auto
  then have "free_block (Some a) (Some p) w = Inr w'"
    using s(1) b first by (simp add: free_block_def upd_slab_run upd_block_run w'_def)
  moreover have "s_size s - 1 = 0 \<longleftrightarrow> length (p # fl a) = cap w"
    using n pos s(3) unat_eq_zero [of "s_size s - 1"] by auto
  ultimately show ?thesis
    by (auto simp: w'_def)
qed


subsection \<open>A new slab\<close>

text \<open>What \<open>cache_alloc\<close> needs of \<open>malloc\<close>: enough bytes, apart from the memory already given out.\<close>

definition malloc_ok :: "malloc \<Rightarrow> world \<Rightarrow> lists \<Rightarrow> bool" where
  "malloc_ok malloc w L \<longleftrightarrow>
     (case malloc (4096 * c_slab_order w) of None \<Rightarrow> False
      | Some (a, n) \<Rightarrow> 0 < a \<and> a < 2 ^ 64 \<and>
          sizeof_slab + cap w * (unat (c_object_size w) + sizeof_block) \<le> n \<and>
          (\<forall>b\<in>all_slabs L. {a..<a + n} \<inter> region w b = {})) \<and>
     unat (c_object_size w) + sizeof_block < 2 ^ 64"

lemma upd_swap: "w\<lparr>blocks := g, slabs := h\<rparr> = w\<lparr>slabs := h, blocks := g\<rparr>" for w :: world
  by simp

lemma create_slab_run:
  assumes "malloc (4096 * ord) = Some (a, n)" and "0 < unat cnt" and "unat os + 24 < 2 ^ 64"
    and "64 + unat cnt * (unat os + 24) \<le> n"
  shows "\<exists>s h. create_slab malloc os ord cnt w =
      Inr (Some a, w\<lparr>malloced := (malloced w)(a \<mapsto> n), slabs := (slabs w)(a \<mapsto> s), blocks := h\<rparr>) \<and>
    s_size s = 0 \<and> s_capacity s = cnt \<and> s_next_slab s = None \<and>
    chain h (s_first_block s) (block_addrs (a + 64) (unat os + 24) (unat cnt)) \<and>
    (\<forall>x. x \<notin> set (block_addrs (a + 64) (unat os + 24) (unat cnt)) \<longrightarrow> h x = blocks w x) \<and>
    (\<forall>x\<in>set (block_addrs (a + 64) (unat os + 24) (unat cnt)). \<exists>b. h x = Some b \<and> b_slab_ptr b = Some a)"
proof -
  let ?o = "unat os + 24" and ?raw = "a + 64" and ?k = "unat cnt - 1"
  define s where "s = \<lparr>s_size = 0, s_capacity = cnt, s_block_size = os, s_first_block = Some (a + 64),
    s_prev_slab = None, s_next_slab = None, s_list_ptr = None, s_raw_data = Some (a + 64)\<rparr>"
  define blk where "blk = \<lparr>b_size = os, b_next_block = None, b_slab_ptr = Some a\<rparr>"
  define w1 where "w1 = w\<lparr>malloced := (malloced w)(a \<mapsto> n), slabs := (slabs w)(a \<mapsto> s),
    blocks := (blocks w)(?raw \<mapsto> blk)\<rparr>"
  have o: "unat (os + 24) = ?o"
    using unat_of_nat_less [OF assms(3)] by simp
  have k: "Suc ?k = unat cnt"
    using assms(2) by simp
  then have "unat cnt * ?o = ?k * ?o + ?o"
    by (metis add.commute mult_Suc)
  then have room: "?raw + ?k * ?o + 24 \<le> a + n"
    using assms(4) by simp
  obtain h where h: "init_loop ?k (a + n) ?o blk ?raw (Some ?raw) w1 = Inr (w1\<lparr>blocks := h\<rparr>)"
    "\<forall>x. x \<notin> set (block_addrs ?raw ?o (unat cnt)) \<longrightarrow> h x = blocks w1 x"
    "\<forall>x\<in>set (block_addrs ?raw ?o (unat cnt)). \<exists>b. h x = Some b \<and> b_slab_ptr b = Some a"
    "chain h (Some ?raw) (block_addrs ?raw ?o (unat cnt))"
    using init_loop_ok [of ?raw ?k ?o "a + n" w1 blk "Some a" blk] room k
    by (auto simp: w1_def blk_def)
  have "?raw \<in> set (block_addrs ?raw ?o (unat cnt))"
    using assms(2) by (auto simp: set_block_addrs)
  then have "h x = blocks w x" if "x \<notin> set (block_addrs ?raw ?o (unat cnt))" for x
    using h(2) that by (auto simp: w1_def)
  moreover have "create_slab malloc os ord cnt w = Inr (Some a, w1\<lparr>blocks := h\<rparr>)"
    using assms(1,4) h(1) room o
    by (simp add: create_slab_def alloc_slab_def init_block_list_def put_block_run upd_slab_run Let_def
        w1_def s_def blk_def upd_swap)
  ultimately show ?thesis
    using h(3,4) by (intro exI [of _ s] exI [of _ h]) (simp add: w1_def s_def)
qed


lemma regions_ok_insert:
  assumes "regions_ok w A" and "a \<notin> A" and "malloced w' = (malloced w)(a \<mapsto> n)"
    and "c_object_size w' = c_object_size w" and "c_slab_objects w' = c_slab_objects w"
    and "sizeof_slab + cap w * (unat (c_object_size w) + sizeof_block) \<le> n"
    and "\<forall>b\<in>A. {a..<a + n} \<inter> region w b = {}"
  shows "regions_ok w' (insert a A)"
  using assms by (auto simp: regions_ok_def region_def cap_def)

lemma new_slab_spec:
  assumes ok: "core_ok w L fl" and m: "malloc_ok malloc w L"
  shows "\<exists>a w1 w2. create_slab malloc (c_object_size w) (c_slab_order w) (c_slab_objects w) w = Inr (Some a, w1) \<and>
    add_to_list (Some Slabs_partial) (Some a) w1 = Inr w2 \<and>
    core_ok w2 (L(Slabs_partial := a # L Slabs_partial)) (fl(a := addrs w a)) \<and>
    a \<notin> all_slabs L \<and> cap w2 = cap w \<and> addrs w2 = addrs w"
proof -
  obtain a n where a: "malloc (4096 * c_slab_order w) = Some (a, n)" "0 < a" "a < 2 ^ 64"
      "64 + cap w * (unat (c_object_size w) + 24) \<le> n" "\<forall>b\<in>all_slabs L. {a..<a + n} \<inter> region w b = {}"
      "unat (c_object_size w) + 24 < 2 ^ 64"
    using m by (auto simp: malloc_ok_def split: option.splits)
  note reg = core_okD(4) [OF ok]
  have new: "a \<notin> all_slabs L"
  proof
    assume "a \<in> all_slabs L"
    then have "a \<in> region w a" and "{a..<a + n} \<inter> region w a = {}"
      using reg a(5) by (auto simp: regions_ok_def region_def)
    moreover have "a \<in> {a..<a + n}"
      using a(4) by simp
    ultimately show False
      by blast
  qed
  obtain s h where c: "create_slab malloc (c_object_size w) (c_slab_order w) (c_slab_objects w) w =
      Inr (Some a, w\<lparr>malloced := (malloced w)(a \<mapsto> n), slabs := (slabs w)(a \<mapsto> s), blocks := h\<rparr>)"
      "s_size s = 0" "s_capacity s = c_slab_objects w" "s_next_slab s = None"
      "chain h (s_first_block s) (addrs w a)" "\<And>x. x \<notin> set (addrs w a) \<Longrightarrow> h x = blocks w x"
      "\<forall>x\<in>set (addrs w a). \<exists>b. h x = Some b \<and> b_slab_ptr b = Some a"
    using create_slab_run [where malloc = malloc and ord = "c_slab_order w", OF a(1), of "c_slab_objects w" "c_object_size w" w] core_okD(5) [OF ok] a(4,6)
    by (auto simp: addrs_def cap_def)
  define w1 where "w1 = w\<lparr>malloced := (malloced w)(a \<mapsto> n), slabs := (slabs w)(a \<mapsto> s), blocks := h\<rparr>"
  have w1: "cap w1 = cap w" "addrs w1 = addrs w" "c_slab_objects w1 = c_slab_objects w" "blocks w1 = h"
      "slabs w1 = (slabs w)(a \<mapsto> s)" "\<And>ld. get_list ld w1 = get_list ld w"
    subgoal by (simp add: w1_def cap_def)
    subgoal by (simp add: w1_def cap_def addrs_def fun_eq_iff)
    subgoal by (simp add: w1_def)
    subgoal by (simp add: w1_def)
    subgoal by (simp add: w1_def)
    subgoal for ld by (cases ld) (simp_all add: w1_def)
    done
  have nota: "a \<notin> set (L ld)" for ld
    using new all_slabsI by blast
  have l1: "on_list w1 ld (L ld)" for ld
    by (rule on_list_frame [OF core_okD(1) [OF ok, of ld]]) (use nota [of ld] in \<open>auto simp: w1\<close>)
  have reg1: "regions_ok w1 (insert a (all_slabs L))"
    by (rule regions_ok_insert [OF reg new]) (use a in \<open>simp_all add: w1_def\<close>)
  have ok1: "slab_ok w1 b ld (fl b)" if b: "b \<in> set (L ld)" for b ld
  proof -
    have "set (addrs w a) \<inter> set (addrs w b) = {}"
      using addrs_disjoint [OF reg1, of a b] all_slabsI [of b L ld] b new by (auto simp: w1)
    then have "h x = blocks w x" if "x \<in> set (addrs w b)" for x
      using c(6) [of x] that by auto
    moreover have sb: "slab_ok w b ld (fl b)"
      by (rule core_okD(3) [OF ok b])
    moreover have "chain h p (fl b) = chain (blocks w) p (fl b)" for p
      using calculation by (intro chain_frame) (auto simp: slab_ok_def)
    ultimately show ?thesis
      using nota [of ld] b by (auto simp: slab_ok_def w1 split: option.splits)
  qed
  obtain h2 where h2: "add_to_list (Some Slabs_partial) (Some a) w1 = Inr (put_list Slabs_partial
        \<lparr>l_size = of_nat (length (a # L Slabs_partial)), l_head = Some a\<rparr> (w1\<lparr>slabs := h2\<rparr>))"
      "slist h2 None (Some a) (a # L Slabs_partial)"
      "\<forall>x. x \<notin> set (a # L Slabs_partial) \<longrightarrow> h2 x = slabs w1 x"
      "links_only ((slabs w1)(a \<mapsto> s\<lparr>s_list_ptr := Some Slabs_partial\<rparr>)) h2"
    using add_to_list_spec [OF l1 [of Slabs_partial], of a s] nota a c(4) by (auto simp: w1)
  let ?L = "L(Slabs_partial := a # L Slabs_partial)" and ?fl = "fl(a := addrs w a)"
  define w2 where "w2 = put_list Slabs_partial
        \<lparr>l_size = of_nat (length (a # L Slabs_partial)), l_head = Some a\<rparr> (w1\<lparr>slabs := h2\<rparr>)"
  have env: "same_env w1 w2"
    by (simp add: w2_def same_env_def)
  have l2: "on_list w2 ld (?L ld)" for ld
  proof (cases "ld = Slabs_partial")
    case True
    then show ?thesis
      using l1 [of Slabs_partial] h2(2) a(2,3) nota by (simp add: on_list_def w2_def)
  next
    case False
    have "on_list w2 ld (L ld)"
      by (rule on_list_frame [OF l1]) (use False h2(3) nota [of ld] core_okD(2) [OF ok False] in \<open>auto simp: w2_def\<close>)
    then show ?thesis
      using False by simp
  qed
  have ok2: "slab_ok w2 b ld (?fl b)" if b: "b \<in> set (?L ld)" for b ld
  proof -
    let ?w' = "w1\<lparr>slabs := (slabs w1)(a \<mapsto> s\<lparr>s_list_ptr := Some Slabs_partial\<rparr>)\<rparr>"
    have env': "same_env w1 ?w'" "same_env ?w' w2"
      using env by (simp_all add: same_env_def)
    have "slab_ok ?w' b ld (?fl b)"
    proof (cases "b = a")
      case True
      then have "ld = Slabs_partial"
        using b nota by (auto split: if_splits)
      then show ?thesis
        using True c(2,3,5,7) distinct_block_addrs [of "unat (c_object_size w) + 24" "a + 64" "cap w"]
        by (simp add: slab_ok_def w1 addrs_def [symmetric]) (simp add: addrs_def)
    next
      case False
      then show ?thesis
        using b ok1 [of b ld] by (auto simp: slab_ok_def w1 split: if_splits option.splits)
    qed
    then show ?thesis
      by (rule slab_ok_links) (use h2(4) env' in \<open>simp_all add: w2_def\<close>)
  qed
  have "all_slabs ?L = insert a (all_slabs L)"
    by (auto simp: all_slabs_def split: if_splits)
  then have "core_ok w2 ?L ?fl"
    using l2 ok2 reg1 core_okD(2,5) [OF ok] nota
    by (auto simp: core_ok_def same_envD [OF env] w1(1))
  moreover have "create_slab malloc (c_object_size w) (c_slab_order w) (c_slab_objects w) w = Inr (Some a, w1)"
    and "add_to_list (Some Slabs_partial) (Some a) w1 = Inr w2"
    using c(1) h2(1) by (simp_all only: w1_def w2_def)
  moreover have "cap w2 = cap w" and "addrs w2 = addrs w"
    by (simp_all add: same_envD [OF env] w1)
  ultimately show ?thesis
    using new by blast
qed

subsection \<open>cache\_alloc and cache\_free\<close>

definition used :: "world \<Rightarrow> nat list \<Rightarrow> nat \<Rightarrow> nat set" where
  "used w fs a = (\<lambda>p. p + sizeof_block) ` (set (addrs w a) - set fs)"

definition live :: "world \<Rightarrow> lists \<Rightarrow> (nat \<Rightarrow> nat list) \<Rightarrow> nat set" where
  "live w L fl = (\<Union>a\<in>all_slabs L. used w (fl a) a)"

lemma live_split:
  assumes "a \<in> all_slabs L"
  shows "live w L (fl(a := fs)) = used w fs a \<union> (\<Union>b\<in>all_slabs L - {a}. used w (fl b) b)"
  using assms by (auto simp: live_def split: if_splits)

lemma used_other:
  assumes "core_ok w L fl" and "a \<in> all_slabs L" and "p \<in> set (addrs w a)"
  shows "p + sizeof_block \<notin> (\<Union>b\<in>all_slabs L - {a}. used w (fl' b) b)"
proof
  assume "p + sizeof_block \<in> (\<Union>b\<in>all_slabs L - {a}. used w (fl' b) b)"
  then obtain b where "b \<in> all_slabs L - {a}" "p + sizeof_block \<in> used w (fl' b) b"
    by blast
  then have "b \<in> all_slabs L" "a \<noteq> b" "p \<in> set (addrs w b)"
    by (auto simp: used_def)
  then show False
    using addrs_disjoint [OF core_okD(4) [OF assms(1)] assms(2), of b] assms(3) by blast
qed

lemma cache_okD:
  assumes "cache_ok w L fl"
  shows "core_ok w L fl" and "a \<in> set (L ld) \<Longrightarrow> load_ok (cap w) ld (length (fl a))"
  using assms by (simp_all add: cache_ok_def)

lemma live_take:
  assumes ok: "core_ok w L fl" and a: "a \<in> all_slabs L" and fl: "fl a = p # fs"
    and L': "all_slabs L' = all_slabs L" and env: "addrs w' = addrs w"
  shows "p + sizeof_block \<notin> live w L fl" and "live w' L' (fl(a := fs)) = insert (p + sizeof_block) (live w L fl)"
proof -
  obtain ld where "a \<in> set (L ld)"
    using a by (auto simp: all_slabs_def)
  then have sok: "slab_ok w a ld (p # fs)"
    using core_okD(3) [OF ok] fl by metis
  then have p: "p \<in> set (addrs w a)" "p \<notin> set fs"
    by (auto simp: slab_ok_def)
  have old: "live w L fl = used w (p # fs) a \<union> (\<Union>b\<in>all_slabs L - {a}. used w (fl b) b)"
    using live_split [OF a, of w fl "p # fs"] fl by (metis fun_upd_triv)
  then show "p + sizeof_block \<notin> live w L fl"
    using used_other [OF ok a p(1)] by (auto simp: used_def)
  have "used w fs a = insert (p + sizeof_block) (used w (p # fs) a)"
    using p by (auto simp: used_def)
  moreover have "live w' L' (fl(a := fs)) = live w L (fl(a := fs))"
    by (simp add: live_def L' used_def env)
  ultimately show "live w' L' (fl(a := fs)) = insert (p + sizeof_block) (live w L fl)"
    using live_split [OF a, of w fl fs] old by simp
qed

lemma live_give:
  assumes ok: "core_ok w L fl" and a: "a \<in> all_slabs L" and p: "p \<in> set (addrs w a)" "p \<notin> set (fl a)"
    and L': "all_slabs L' = all_slabs L" and env: "addrs w' = addrs w"
  shows "live w' L' (fl(a := p # fl a)) = live w L fl - {p + sizeof_block}"
proof -
  have old: "live w L fl = used w (fl a) a \<union> (\<Union>b\<in>all_slabs L - {a}. used w (fl b) b)"
    using live_split [OF a, of w fl "fl a"] by (metis fun_upd_triv)
  have "used w (p # fl a) a = used w (fl a) a - {p + sizeof_block}"
    by (auto simp: used_def)
  moreover have "live w' L' (fl(a := p # fl a)) = live w L (fl(a := p # fl a))"
    by (simp add: live_def L' used_def env)
  ultimately show ?thesis
    using live_split [OF a, of w fl "p # fl a"] used_other [OF ok a p(1), of fl] old
    by (simp add: Un_Diff)
qed

lemma load_ok_move:
  assumes ok: "core_ok w' L fl'" and load: "\<And>b ld. b \<in> set (L ld) \<Longrightarrow> b \<noteq> a \<Longrightarrow> load_ok c ld (length (fl' b))"
    and a: "a \<in> set (L src)" and new: "load_ok c dst (length (fl' a))"
    and b: "b \<in> set (move src dst a L ld)"
  shows "load_ok c ld (length (fl' b))"
proof -
  have "distinct (L src)"
    using core_okD(1) [OF ok, of src] by (simp add: on_list_def)
  then have "b \<in> (if ld = dst then insert a (set (L ld)) else set (L ld) - {a})"
    using set_move [where L = L and src = src and a = a, OF a] core_okD(2) [OF ok] b by blast
  then show ?thesis
    using load [of b ld] new by (auto split: if_splits)
qed

lemma take_and_move:
  assumes ok: "core_ok w L fl" and a: "a \<in> set (L src)" and fl: "fl a \<noteq> []"
    and load: "\<And>b ld. b \<in> set (L ld) \<Longrightarrow> b \<noteq> a \<Longrightarrow> load_ok (cap w) ld (length (fl b))"
    and dst: "load_ok (cap w) dst (length (fl a) - 1)"
    and w1: "alloc_block (Some a) w = Inr (q, w1)"
  shows "\<exists>w' L' fl'. slab_reposition (Some src) (Some dst) (Some a) w1 = Inr w' \<and> cache_ok w' L' fl' \<and>
    (\<exists>p. q = Some p \<and> p \<notin> live w L fl \<and> live w' L' fl' = insert p (live w L fl)) \<and> same_env w w'"
proof -
  obtain p fs where p: "fl a = p # fs"
    using fl by (cases "fl a") auto
  have q: "q = Some (p + sizeof_block)" and ok1: "core_ok w1 L (fl(a := fs))" and env: "same_env w w1"
    using alloc_block_spec [OF ok a p] w1 by auto
  obtain w2 where w2: "slab_reposition (Some src) (Some dst) (Some a) w1 = Inr w2"
      "core_ok w2 (move src dst a L) (fl(a := fs))" "same_env w1 w2"
    using reposition_spec [OF ok1 a] by blast
  have env2: "same_env w w2"
    using env w2(3) by (simp add: same_env_def)
  have "cache_ok w2 (move src dst a L) (fl(a := fs))"
    unfolding cache_ok_def same_envD(1) [OF env2]
    using w2(2) load_ok_move [OF ok1 _ a, of "cap w" dst] load dst p by auto
  moreover have "all_slabs (move src dst a L) = all_slabs L"
    using all_slabs_move [where L = L and src = src, OF a] core_okD(1,2) [OF ok] by (auto simp: on_list_def)
  then have "p + sizeof_block \<notin> live w L fl"
    and "live w2 (move src dst a L) (fl(a := fs)) = insert (p + sizeof_block) (live w L fl)"
    using live_take [OF ok all_slabsI [of a L, OF a] p] same_envD(2) [OF env2] by auto
  ultimately show ?thesis
    using w2(1) q env2 by blast
qed


text \<open>Room: a free or a partly used slab, or a \<open>malloc\<close> that delivers.\<close>

definition cache_room :: "malloc \<Rightarrow> world \<Rightarrow> lists \<Rightarrow> bool" where
  "cache_room malloc w L \<longleftrightarrow> L Slabs_free \<noteq> [] \<or> L Slabs_partial \<noteq> [] \<or> malloc_ok malloc w L"

lemma head_of:
  assumes "on_list w ld (a # xs)"
  shows "l_head (get_list ld w) = Some a" and "l_size (get_list ld w) \<noteq> 0" and "0 < l_size (get_list ld w)"
  using assms l_size_0_iff [OF assms] by (auto simp: on_list_def word_gt_0)

lemma alloc_from_free:
  assumes ok: "cache_ok w L fl" and L: "L Slabs_free = a # xs"
  shows "\<exists>w' L' fl' p. cache_alloc malloc w = Inr (Some p, w') \<and> cache_ok w' L' fl' \<and>
    p \<notin> live w L fl \<and> live w' L' fl' = insert p (live w L fl)"
proof -
  note core = cache_okD(1) [OF ok]
  have a: "a \<in> set (L Slabs_free)"
    using L by simp
  have hd: "l_head (slabs_free w) = Some a" "0 < l_size (slabs_free w)"
    using head_of [of w Slabs_free a xs] core_okD(1) [OF core, of Slabs_free] L by simp_all
  have n: "length (fl a) = cap w" and "0 < cap w"
    using cache_okD(2) [OF ok a] core_okD(5) [OF core] by simp_all
  then obtain p fs where p: "fl a = p # fs"
    by (cases "fl a") auto
  obtain w1 where w1: "alloc_block (Some a) w = Inr (Some (p + 24), w1)" "slab_is_full (Some a) w1 = Inr (fs = [])"
    using alloc_block_spec [OF core a p] by blast
  let ?dst = "if fs = [] then Slabs_full else Slabs_partial"
  have "load_ok (cap w) ?dst (length (fl a) - 1)"
    using n p by (cases fs) auto
  then obtain w' L' fl' where "slab_reposition (Some Slabs_free) (Some ?dst) (Some a) w1 = Inr w'"
      "cache_ok w' L' fl'" "p + 24 \<notin> live w L fl" "live w' L' fl' = insert (p + 24) (live w L fl)"
    using take_and_move [OF core a _ _ _ w1(1), of ?dst] p cache_okD(2) [OF ok] by auto
  then show ?thesis
    using hd w1 by (cases "fs = []") (auto simp: cache_alloc_def Let_def)
qed

lemma alloc_from_partial:
  assumes ok: "core_ok w L fl" and a: "a \<in> set (L Slabs_partial)" and fl: "fl a = p # fs" "length fs < cap w"
    and load: "\<And>b ld. b \<in> set (L ld) \<Longrightarrow> b \<noteq> a \<Longrightarrow> load_ok (cap w) ld (length (fl b))"
  shows "\<exists>w1 w' L' fl'. alloc_block (Some a) w = Inr (Some (p + 24), w1) \<and>
    slab_is_full (Some a) w1 = Inr (fs = []) \<and>
    (if fs = [] then slab_reposition (Some Slabs_partial) (Some Slabs_full) (Some a) w1 else Inr w1) = Inr w' \<and>
    cache_ok w' L' fl' \<and> p + 24 \<notin> live w L fl \<and> live w' L' fl' = insert (p + 24) (live w L fl)"
proof -
  obtain w1 where w1: "alloc_block (Some a) w = Inr (Some (p + 24), w1)" "slab_is_full (Some a) w1 = Inr (fs = [])"
      "core_ok w1 L (fl(a := fs))" "same_env w w1"
    using alloc_block_spec [OF ok a fl(1)] by blast
  show ?thesis
  proof (cases "fs = []")
    case True
    then obtain w' L' fl' where "slab_reposition (Some Slabs_partial) (Some Slabs_full) (Some a) w1 = Inr w'"
      "cache_ok w' L' fl'" "p + 24 \<notin> live w L fl" "live w' L' fl' = insert (p + 24) (live w L fl)"
      using take_and_move [OF ok a _ _ _ w1(1), of Slabs_full] fl load by auto
    then show ?thesis
      using w1 True by auto
  next
    case False
    have "load_ok (cap w1) ld (length ((fl(a := fs)) b))" if "b \<in> set (L ld)" for b ld
    proof (cases "b = a")
      case True
      then have "ld = Slabs_partial"
        using that a core_okD(2) [OF ok, of ld Slabs_partial] by blast
      then show ?thesis
        using True False fl(2) by (simp add: same_envD [OF w1(4)])
    qed (use load [OF that] in \<open>simp add: same_envD [OF w1(4)]\<close>)
    then have "cache_ok w1 L (fl(a := fs))"
      using w1(3) by (simp add: cache_ok_def)
    moreover have "p + 24 \<notin> live w L fl" and "live w1 L (fl(a := fs)) = insert (p + 24) (live w L fl)"
      using live_take [OF ok all_slabsI [of a L, OF a] fl(1), of L w1] same_envD(2) [OF w1(4)] by simp_all
    ultimately show ?thesis
      using w1(1,2) False by auto
  qed
qed

lemma cache_alloc_spec:
  assumes ok: "cache_ok w L fl" and room: "cache_room malloc w L"
  shows "\<exists>w' L' fl' p. cache_alloc malloc w = Inr (Some p, w') \<and> cache_ok w' L' fl' \<and>
    p \<notin> live w L fl \<and> live w' L' fl' = insert p (live w L fl)"
proof (cases "L Slabs_free")
  case (Cons a xs)
  then show ?thesis
    using alloc_from_free [OF ok] by blast
next
  case Nil
  note core = cache_okD(1) [OF ok]
  have f0: "\<not> 0 < l_size (slabs_free w)"
    using l_size_0_iff [OF core_okD(1) [OF core, of Slabs_free]] Nil by simp
  show ?thesis
  proof (cases "L Slabs_partial")
    case (Cons a xs)
    have a: "a \<in> set (L Slabs_partial)" and "load_ok (cap w) Slabs_partial (length (fl a))"
      using Cons cache_okD(2) [OF ok, of a Slabs_partial] by simp_all
    then obtain p fs where p: "fl a = p # fs" "length fs < cap w"
      by (cases "fl a") auto
    have "l_head (slabs_partial w) = Some a" "l_size (slabs_partial w) \<noteq> 0"
      using head_of [of w Slabs_partial a xs] core_okD(1) [OF core, of Slabs_partial] Cons by simp_all
    moreover obtain w1 w' L' fl' where w': "alloc_block (Some a) w = Inr (Some (p + 24), w1)"
        "slab_is_full (Some a) w1 = Inr (fs = [])"
        "(if fs = [] then slab_reposition (Some Slabs_partial) (Some Slabs_full) (Some a) w1 else Inr w1) = Inr w'"
        "cache_ok w' L' fl'" "p + 24 \<notin> live w L fl" "live w' L' fl' = insert (p + 24) (live w L fl)"
      using alloc_from_partial [OF core a p cache_okD(2) [OF ok]] by blast
    ultimately have "cache_alloc malloc w = Inr (Some (p + 24), w')"
      using f0 by (simp add: cache_alloc_def Let_def)
    then show ?thesis
      using w' by blast
  next
    case part: Nil
    have p0: "l_size (slabs_partial w) = 0"
      using l_size_0_iff [OF core_okD(1) [OF core, of Slabs_partial]] part by simp
    let ?fl = "\<lambda>a. fl(a := addrs w a)" and ?L = "\<lambda>a. L(Slabs_partial := a # L Slabs_partial)"
    obtain a w1 w2 where a: "create_slab malloc (c_object_size w) (c_slab_order w) (c_slab_objects w) w = Inr (Some a, w1)"
        "add_to_list (Some Slabs_partial) (Some a) w1 = Inr w2" "core_ok w2 (?L a) (?fl a)"
        "a \<notin> all_slabs L" "cap w2 = cap w" "addrs w2 = addrs w"
      using new_slab_spec [OF core, of malloc] room Nil part unfolding cache_room_def by blast
    have "length (addrs w a) = cap w" and "0 < cap w"
      using core_okD(5) [OF core] by (simp_all add: addrs_def)
    then obtain p fs where p: "addrs w a = p # fs" "length fs < cap w"
      by (cases "addrs w a") auto
    have "live w2 (?L a) (?fl a) = live w L fl"
    proof -
      have "all_slabs (?L a) = insert a (all_slabs L)"
        by (auto simp: all_slabs_def split: if_splits)
      then show ?thesis
        using a(4) by (auto simp: live_def used_def a(6) split: if_splits)
    qed
    moreover have "load_ok (cap w2) ld (length (?fl a b))" if "b \<in> set (?L a ld)" "b \<noteq> a" for b ld
      using cache_okD(2) [OF ok, of b ld] that a(5) by (auto split: if_splits)
    ultimately obtain w3 w' L' fl' where w': "alloc_block (Some a) w2 = Inr (Some (p + 24), w3)"
        "slab_is_full (Some a) w3 = Inr (fs = [])"
        "(if fs = [] then slab_reposition (Some Slabs_partial) (Some Slabs_full) (Some a) w3 else Inr w3) = Inr w'"
        "cache_ok w' L' fl'" "p + 24 \<notin> live w L fl" "live w' L' fl' = insert (p + 24) (live w L fl)"
      using alloc_from_partial [OF a(3), of a p fs] a(5) p by auto
    then have "cache_alloc malloc w = Inr (Some (p + 24), w')"
      using a(1,2) f0 p0 by (simp add: cache_alloc_def Let_def)
    then show ?thesis
      using w' by blast
  qed
qed


lemma cache_free_spec:
  assumes ok: "cache_ok w L fl" and q: "q \<in> live w L fl"
  shows "\<exists>w' L' fl'. cache_free (Some w) q = Inr (Some w') \<and> cache_ok w' L' fl' \<and>
    live w' L' fl' = live w L fl - {q}"
proof -
  note core = cache_okD(1) [OF ok]
  obtain a p where p: "q = p + 24" "a \<in> all_slabs L" "p \<in> set (addrs w a)" "p \<notin> set (fl a)"
    using q by (auto simp: live_def used_def)
  obtain ld where a: "a \<in> set (L ld)"
    using p(2) by (auto simp: all_slabs_def)
  have sok: "slab_ok w a ld (fl a)"
    by (rule core_okD(3) [OF core a])
  obtain s where s: "slabs w a = Some s" "s_list_ptr s = Some ld"
    using sok by (rule slab_of)
  obtain b where b: "blocks w p = Some b" "b_slab_ptr b = Some a"
    using sok p(3) by (auto simp: slab_ok_def)
  obtain w1 s' where w1: "free_block (Some a) (Some p) w = Inr w1" "core_ok w1 L (fl(a := p # fl a))"
      "same_env w w1" "slabs w1 a = Some s'" "s_size s' = 0 \<longleftrightarrow> length (p # fl a) = cap w"
    using free_block_spec [OF core a p(3,4)] by blast
  define dst where "dst = (if s_size s' = 0 then Slabs_free else Slabs_partial)"
  let ?fl = "fl(a := p # fl a)" and ?L = "move ld dst a L"
  obtain w' where w': "slab_reposition (Some ld) (Some dst) (Some a) w1 = Inr w'" "core_ok w' ?L ?fl" "same_env w1 w'"
    using reposition_spec [OF w1(2) a] by blast
  have env: "same_env w w'"
    using w1(3) w'(3) by (simp add: same_env_def)
  have "slab_ok w1 a ld (p # fl a)"
    using core_okD(3) [OF w1(2) a] by simp
  then have "length (p # fl a) \<le> cap w1"
    by (auto simp: slab_ok_def split: option.splits)
  then have "length (p # fl a) \<le> cap w"
    by (simp add: same_envD [OF w1(3)])
  then have "load_ok (cap w) dst (length (?fl a))"
    using w1(5) by (cases "s_size s' = 0") (simp_all add: dst_def)
  moreover have "load_ok (cap w) i (length (?fl c))" if "c \<in> set (L i)" "c \<noteq> a" for c i
    using cache_okD(2) [OF ok that(1)] that(2) by simp
  ultimately have "load_ok (cap w) i (length (?fl c))" if "c \<in> set (?L i)" for c i
    using load_ok_move [OF w1(2) _ a _ that] by blast
  then have "cache_ok w' ?L ?fl"
    using w'(2) by (simp add: cache_ok_def same_envD(1) [OF env])
  moreover have "all_slabs ?L = all_slabs L"
    using all_slabs_move [where L = L and src = ld, OF a] core_okD(1,2) [OF core] by (auto simp: on_list_def)
  then have "live w' ?L ?fl = live w L fl - {q}"
    using live_give [OF core p(2-4)] same_envD(2) [OF env] p(1) by simp
  moreover have "cache_free (Some w) q = Inr (Some w')"
    using w1(1,4) w'(1) s b p(1) by (cases "s_size s' = 0") (simp_all add: cache_free_def Let_def dst_def)
  ultimately show ?thesis
    by blast
qed

subsection \<open>Releasing the lists\<close>

lemma free_slab_core:
  assumes ok: "core_ok w L fl" and a: "a \<notin> all_slabs L" and n: "malloced w a = Some n"
    and dis: "\<forall>b\<in>all_slabs L. {a..<a + n} \<inter> region w b = {}"
  shows "\<exists>w'. free_slab (Some a) w = Inr w' \<and> core_ok w' L fl \<and> malloced w' = (malloced w)(a := None) \<and>
    (\<forall>ld. get_list ld w' = get_list ld w)"
proof -
  define w' where "w' = w\<lparr>malloced := (malloced w)(a := None),
    slabs := slabs w |` (- {a..<a + n}), blocks := blocks w |` (- {a..<a + n})\<rparr>"
  have lists: "get_list ld w' = get_list ld w" for ld
    by (cases ld) (simp_all add: w'_def)
  have env: "cap w' = cap w" "addrs w' = addrs w" "c_slab_objects w' = c_slab_objects w"
    "c_object_size w' = c_object_size w"
    by (simp_all add: w'_def cap_def addrs_def fun_eq_iff)
  have reg: "regions_ok w (all_slabs L)"
    by (rule core_okD(4) [OF ok])
  have keep: "slabs w' b = slabs w b" "\<And>x. x \<in> set (addrs w b) \<Longrightarrow> blocks w' x = blocks w x"
    if b: "b \<in> all_slabs L" for b
  proof -
    have "b \<in> region w b"
      using reg b by (auto simp: regions_ok_def region_def)
    then have "b \<notin> {a..<a + n}"
      using dis b by blast
    then show "slabs w' b = slabs w b"
      by (simp add: w'_def restrict_map_def)
    show "blocks w' x = blocks w x" if "x \<in> set (addrs w b)" for x
    proof -
      have "x \<notin> {a..<a + n}"
        using addrs_in_region(1) [OF reg b that] dis b by blast
      then show ?thesis
        by (simp add: w'_def restrict_map_def)
    qed
  qed
  have "on_list w' ld (L ld)" for ld
    by (rule on_list_frame [OF core_okD(1) [OF ok]]) (simp_all add: lists keep all_slabsI)
  moreover have "slab_ok w' b ld (fl b)" if b: "b \<in> set (L ld)" for b ld
  proof -
    have sok: "slab_ok w b ld (fl b)"
      by (rule core_okD(3) [OF ok b])
    note kb = keep [OF all_slabsI [of b L ld, OF b]]
    have "chain (blocks w') p (fl b) = chain (blocks w) p (fl b)" for p
      using sok kb(2) by (intro chain_frame) (auto simp: slab_ok_def)
    then show ?thesis
      using sok kb by (auto simp: slab_ok_def env split: option.splits)
  qed
  moreover have "malloced w' b = malloced w b" and "region w' b = region w b" if "b \<in> all_slabs L" for b
    using that a by (auto simp: w'_def region_def)
  then have "regions_ok w' (all_slabs L)"
    using reg by (simp add: regions_ok_def env)
  ultimately have "core_ok w' L fl"
    using core_okD(2,5) [OF ok] by (simp add: core_ok_def env)
  moreover have "free_slab (Some a) w = Inr w'"
    using n by (simp add: free_slab_def w'_def)
  ultimately show ?thesis
    using lists by (auto simp: w'_def)
qed

lemma delete_core:
  assumes ok: "core_ok w L fl" and L: "L ld = a # xs"
  shows "\<exists>w'. delete_from_list (Some ld) (Some a) w = Inr w' \<and> core_ok w' (L(ld := xs)) fl \<and> same_env w w'"
proof -
  have l: "on_list w ld (a # xs)"
    using core_okD(1) [OF ok, of ld] L by simp
  obtain h p where h: "delete_from_list (Some ld) (Some a) w =
      Inr (put_list ld \<lparr>l_size = of_nat (length xs), l_head = p\<rparr> (w\<lparr>slabs := h\<rparr>))"
      "slist h None p xs" "\<forall>x. x \<notin> set (a # xs) \<longrightarrow> h x = slabs w x" "links_only (slabs w) h"
    using delete_head_spec [OF l] by blast
  define w' where "w' = put_list ld \<lparr>l_size = of_nat (length xs), l_head = p\<rparr> (w\<lparr>slabs := h\<rparr>)"
  have env: "same_env w w'"
    by (simp add: w'_def)
  have "on_list w' i ((L(ld := xs)) i)" for i
  proof (cases "i = ld")
    case True
    then show ?thesis
      using l h(2) by (simp add: on_list_def w'_def)
  next
    case False
    have "on_list w' i (L i)"
      by (rule on_list_frame [OF core_okD(1) [OF ok]])
        (use False h(3) core_okD(2) [OF ok False] L in \<open>auto simp: w'_def\<close>)
    then show ?thesis
      using False by simp
  qed
  moreover have "slab_ok w' b i (fl b)" if "b \<in> set ((L(ld := xs)) i)" for b i
    by (rule slab_ok_links [OF core_okD(3) [OF ok]]) (use that L h(4) env in \<open>auto simp: w'_def split: if_splits\<close>)
  moreover have "set ((L(ld := xs)) i) \<inter> set ((L(ld := xs)) j) = {}" if "i \<noteq> j" for i j
    using core_okD(2) [OF ok that] L by (auto split: if_splits)
  moreover have "all_slabs (L(ld := xs)) \<subseteq> all_slabs L"
    using L by (auto simp: all_slabs_def split: if_splits)
  then have "regions_ok w (all_slabs (L(ld := xs)))"
    using core_okD(4) [OF ok] unfolding regions_ok_def by blast
  ultimately have "core_ok w' (L(ld := xs)) fl"
    using core_okD(5) [OF ok] by (simp add: core_ok_def same_envD [OF env])
  then show ?thesis
    using h(1) env unfolding w'_def by blast
qed


lemma free_loop_spec:
  assumes "core_ok w L fl" and "L ld = xs" and "length xs \<le> f"
  shows "\<exists>w'. free_loop f ld (l_head (get_list ld w)) w = Inr w' \<and> core_ok w' (L(ld := [])) fl \<and>
    malloced w' = malloced w |` (- set xs)"
  using assms
proof (induction xs arbitrary: w L f)
  case Nil
  then have "l_head (get_list ld w) = None" and "L(ld := []) = L"
    using core_okD(1) [OF Nil.prems(1), of ld] by (auto simp: on_list_def)
  then show ?case
    using Nil.prems(1) by (cases f) (auto simp: restrict_map_def)
next
  case (Cons a xs)
  note ok = Cons.prems(1)
  have l: "on_list w ld (a # xs)"
    using core_okD(1) [OF ok, of ld] Cons.prems(2) by simp
  obtain s where s: "slabs w a = Some s" "slist (slabs w) (Some a) (s_prev_slab s) xs"
    using l by (auto simp: on_list_def split: option.splits)
  obtain g where f: "f = Suc g" "length xs \<le> g"
    using Cons.prems(3) by (cases f) auto
  let ?L = "L(ld := xs)"
  obtain w1 where w1: "delete_from_list (Some ld) (Some a) w = Inr w1" "core_ok w1 ?L fl" "same_env w w1"
    using delete_core [OF ok Cons.prems(2)] by blast
  have mal: "malloced w1 = malloced w" and reg: "region w1 = region w"
    using w1(3) by (auto simp: same_env_def region_def fun_eq_iff)
  have a: "a \<in> all_slabs L" "a \<notin> all_slabs ?L" and sub: "all_slabs ?L \<subseteq> all_slabs L"
  proof -
    have "a \<in> set (L ld)"
      using Cons.prems(2) by simp
    then show "a \<in> all_slabs L"
      by (rule all_slabsI)
    show "all_slabs ?L \<subseteq> all_slabs L"
      using Cons.prems(2) by (auto simp: all_slabs_def split: if_splits)
    have "a \<notin> set (?L i)" for i
      using l core_okD(2) [OF ok, of i ld] Cons.prems(2) by (auto simp: on_list_def)
    then show "a \<notin> all_slabs ?L"
      by (simp add: all_slabs_def)
  qed
  obtain n where n: "malloced w a = Some n"
    using core_okD(4) [OF ok] a(1) by (auto simp: regions_ok_def)
  have "{a..<a + n} \<inter> region w1 b = {}" if "b \<in> all_slabs ?L" for b
    using core_okD(4) [OF ok] a that sub n unfolding regions_ok_def reg region_def by force
  then obtain w2 where w2: "free_slab (Some a) w1 = Inr w2" "core_ok w2 ?L fl"
      "malloced w2 = (malloced w)(a := None)" "\<forall>ld. get_list ld w2 = get_list ld w1"
    using free_slab_core [OF w1(2) a(2), of n] n mal by auto
  have "slist (slabs w2) None (l_head (get_list ld w2)) xs"
    using core_okD(1) [OF w2(2), of ld] by (simp add: on_list_def)
  then have hd: "s_prev_slab s = l_head (get_list ld w2)"
    using dll_hd [OF s(2)] dll_hd by metis
  obtain w' where w': "free_loop g ld (l_head (get_list ld w2)) w2 = Inr w'" "core_ok w' (?L(ld := [])) fl"
      "malloced w' = malloced w2 |` (- set xs)"
    using Cons.IH [OF w2(2) _ f(2)] by (metis fun_upd_same)
  have "malloced w2 |` (- set xs) = malloced w |` (- set (a # xs))"
    by (auto simp: w2(3) restrict_map_def)
  moreover have "free_loop f ld (l_head (get_list ld w)) w = Inr w'"
    using w1(1) w2(1) s(1) f(1) hd head_of(1) [OF l] w'(1) by simp
  moreover have "core_ok w' (L(ld := [])) fl"
    using w'(2) by (simp only: fun_upd_upd)
  ultimately show ?case
    using w'(3) by (intro exI [of _ w']) (simp only: simp_thms)
qed

lemma slab_list_free_spec:
  assumes "core_ok w L fl" and "length (L ld) \<le> f"
  shows "\<exists>w'. slab_list_free f (Some ld) w = Inr w' \<and> core_ok w' (L(ld := [])) fl \<and>
    malloced w' = malloced w |` (- set (L ld))"
proof (cases "L ld = []")
  case True
  then have "L(ld := []) = L"
    by auto
  then show ?thesis
    using True assms(1) l_size_0_iff [OF core_okD(1) [OF assms(1), of ld]]
    by (auto simp: slab_list_free_def restrict_map_def)
next
  case False
  then show ?thesis
    using free_loop_spec [OF assms(1) refl assms(2)] l_size_0_iff [OF core_okD(1) [OF assms(1), of ld]]
    by (simp add: slab_list_free_def)
qed

end
