(* ===== verification/Slab_Properties.thy ===== *)
theory Slab_Properties
  imports Slab_Cache
begin

text \<open>
  What the slab cache guarantees once its slabs get the memory they need, and what happens with the
  \<open>malloc\<close> that \<open>alloc_slab\<close> calls. \<open>live_of\<close> is the set of the objects in use; the cache is an instance of
  the allocator interface \<open>mem_pool\<close>.
\<close>

subsection \<open>Objects in use\<close>

lemma chain_unique: "chain h p xs \<Longrightarrow> chain h p ys \<Longrightarrow> xs = ys"
proof (induction xs arbitrary: ys p)
  case (Cons a xs)
  then show ?case
    by (cases ys) (auto split: option.splits)
qed (simp add: chain_None_iff)

lemma cache_ok_unique:
  assumes "cache_ok w L fl" and "cache_ok w L' fl'"
  shows "L = L'" and "a \<in> all_slabs L \<Longrightarrow> fl a = fl' a"
proof -
  note core = cache_okD(1) [OF assms(1)] cache_okD(1) [OF assms(2)]
  show L: "L = L'"
  proof
    fix ld
    show "L ld = L' ld"
      using core_okD(1) [OF core(1), of ld] core_okD(1) [OF core(2), of ld] dll_unique
      unfolding on_list_def by blast
  qed
  assume "a \<in> all_slabs L"
  then obtain ld where a: "a \<in> set (L ld)"
    by (auto simp: all_slabs_def)
  have "slab_ok w a ld (fl a)" and "slab_ok w a ld (fl' a)"
    using core_okD(3) [OF core(1) a] core_okD(3) [OF core(2), of a ld] a L by simp_all
  then show "fl a = fl' a"
    using chain_unique by (auto simp: slab_ok_def split: option.splits)
qed

definition live_of :: "world \<Rightarrow> nat set" where
  "live_of w = \<Union>{live w L fl | L fl. cache_ok w L fl}"

lemma live_of_eq:
  assumes "cache_ok w L fl"
  shows "live_of w = live w L fl"
proof -
  have "live w L' fl' = live w L fl" if "cache_ok w L' fl'" for L' fl'
    using cache_ok_unique [OF assms that] by (auto simp: live_def)
  then have "{live w L fl | L fl. cache_ok w L fl} = {live w L fl}"
    using assms by blast
  then show ?thesis
    by (simp add: live_of_def)
qed

definition free_obj :: "world \<Rightarrow> ptr \<Rightarrow> fault + world" where
  "free_obj w p = (case p of None \<Rightarrow> Inl InvalidPtr
     | Some q \<Rightarrow> bindc (cache_free (Some w) q) (\<lambda>r. case r of None \<Rightarrow> Inl NullDeref | Some w' \<Rightarrow> Inr w'))"

interpretation slab_pool: mem_pool "\<lambda>w. \<exists>L fl. cache_ok w L fl" "\<lambda>w. Some ` live_of w"
    "\<lambda>w malloc. \<forall>L fl. cache_ok w L fl \<longrightarrow> cache_room malloc w L" "\<lambda>w malloc. cache_alloc malloc w" free_obj
proof
  fix w malloc
  assume "\<exists>L fl. cache_ok w L fl" and room: "\<forall>L fl. cache_ok w L fl \<longrightarrow> cache_room malloc w L"
  then obtain L fl where ok: "cache_ok w L fl" "cache_room malloc w L"
    by blast
  obtain w' L' fl' p where "cache_alloc malloc w = Inr (Some p, w')" "cache_ok w' L' fl'"
      "p \<notin> live w L fl" "live w' L' fl' = insert p (live w L fl)"
    using cache_alloc_spec [OF ok] by blast
  then show "\<exists>p w'. cache_alloc malloc w = Inr (p, w') \<and> (\<exists>L fl. cache_ok w' L fl) \<and>
      p \<notin> Some ` live_of w \<and> Some ` live_of w' = insert p (Some ` live_of w)"
    using live_of_eq [OF ok(1)] live_of_eq by (intro exI [of _ "Some p"] exI [of _ w']) auto
next
  fix w p
  assume "\<exists>L fl. cache_ok w L fl" and p: "p \<in> Some ` live_of w"
  then obtain L fl where ok: "cache_ok w L fl"
    by blast
  obtain q where q: "p = Some q" "q \<in> live w L fl"
    using p live_of_eq [OF ok] by auto
  obtain w' L' fl' where "cache_free (Some w) q = Inr (Some w')" "cache_ok w' L' fl'"
      "live w' L' fl' = live w L fl - {q}"
    using cache_free_spec [OF ok q(2)] by blast
  then show "\<exists>w'. free_obj w p = Inr w' \<and> (\<exists>L fl. cache_ok w' L fl) \<and> Some ` live_of w' = Some ` live_of w - {p}"
    using live_of_eq [OF ok] live_of_eq q(1) by (intro exI [of _ w']) (auto simp: free_obj_def)
qed

subsection \<open>Geometry\<close>

lemma setup_fields:
  "c_slab_order (cache_setup os w) = uint (get_slab_order os DEFAULT_SIZE)"
  "c_slab_size (cache_setup os w) = calculate_slab_size (get_slab_order os DEFAULT_SIZE)"
  "c_slab_objects (cache_setup os w) =
     calculate_object_cnt (calculate_slab_size (get_slab_order os DEFAULT_SIZE)) os"
  "c_object_size (cache_setup os w) = os"
  by (simp_all add: cache_setup_def Let_def)

lemma setup_facts:
  assumes "fits os"
  obtains j where "j \<le> 10" and "c_slab_order (cache_setup os w) = int j"
    and "unat (c_slab_size (cache_setup os w)) = 4096 * 2 ^ j"
    and "total_bytes os \<le> 4096 * 2 ^ j" and "\<forall>i<j. 4096 * 2 ^ i < total_bytes os"
    and "sizeof_slab + cap (cache_setup os w) * (unat os + sizeof_block) \<le> 4096 * 2 ^ j"
    and "4096 * 2 ^ j < sizeof_slab + (cap (cache_setup os w) + 1) * (unat os + sizeof_block)"
    and "10 \<le> cap (cache_setup os w)"
proof -
  obtain j where j: "get_slab_order os DEFAULT_SIZE = of_nat j" "j \<le> 10"
      "total_bytes os \<le> 4096 * 2 ^ j" "\<forall>i<j. 4096 * 2 ^ i < total_bytes os"
    using slab_order_spec [OF assms(1)] by blast
  have ord: "c_slab_order (cache_setup os w) = int j"
    using unat_of_nat_less [of j] j(2) unfolding setup_fields j(1) uint_nat by simp
  have usz: "unat (calculate_slab_size (of_nat j)) = 4096 * 2 ^ j"
    unfolding calculate_slab_size_eq [OF j(2)] by (rule page_pow2 [OF j(2)])
  have cnt: "cap (cache_setup os w) = unat (calculate_object_cnt (calculate_slab_size (of_nat j)) os)"
    unfolding cap_def setup_fields j(1) ..
  note spec = object_cnt_spec [OF assms(1) usz j(2) j(3) [folded usz], folded cnt, unfolded usz]
  have "unat (c_slab_size (cache_setup os w)) = 4096 * 2 ^ j"
    unfolding setup_fields j(1) by (rule usz)
  then show ?thesis
    using that [OF j(2) ord _ j(3,4) spec] by blast
qed

text \<open>C31: the layout that \<open>cache_setup\<close> computes. For objects of up to 419,399 bytes (\<open>fits\<close>), the slab size
  is \<open>PAGE_SIZE * 2 ^ order\<close>, the slab header and all blocks with their headers fit into it and no
  further block does, at least ten objects fit, and the order is the least with that property.\<close>

theorem cache_setup_geometry:
  fixes w :: world
  assumes "fits os"
  defines "w' \<equiv> cache_setup os w"
  shows "\<exists>j\<le>10. c_slab_order w' = int j \<and> unat (c_slab_size w') = 4096 * 2 ^ j \<and>
    sizeof_slab + cap w' * (unat os + sizeof_block) \<le> unat (c_slab_size w') \<and>
    unat (c_slab_size w') < sizeof_slab + (cap w' + 1) * (unat os + sizeof_block) \<and>
    10 \<le> cap w' \<and> (\<forall>i<j. 4096 * 2 ^ i < total_bytes os)"
proof -
  obtain j where j: "j \<le> 10" "c_slab_order w' = int j" "unat (c_slab_size w') = 4096 * 2 ^ j"
    "total_bytes os \<le> 4096 * 2 ^ j" "\<forall>i<j. 4096 * 2 ^ i < total_bytes os"
    "sizeof_slab + cap w' * (unat os + sizeof_block) \<le> 4096 * 2 ^ j"
    "4096 * 2 ^ j < sizeof_slab + (cap w' + 1) * (unat os + sizeof_block)" "10 \<le> cap w'"
    by (rule setup_facts [OF assms(1), of w, folded w'_def])
  show ?thesis
    unfolding j(3) by (rule exI [of _ j]) (intro conjI j refl)
qed

definition blank :: world where
  "blank = \<lparr>slabs = Map.empty, blocks = Map.empty, malloced = Map.empty,
     slabs_free = \<lparr>l_size = 0, l_head = None\<rparr>, slabs_partial = \<lparr>l_size = 0, l_head = None\<rparr>,
     slabs_full = \<lparr>l_size = 0, l_head = None\<rparr>, c_object_size = 0, c_slab_order = 0, c_slab_objects = 0,
     c_slab_size = 0\<rparr>"

lemma fits_example: "fits 1000"
  by (simp add: fits_def total_bytes_def)

theorem cache_setup_geometry_witness:
  "\<exists>j\<le>10. c_slab_order (cache_setup 1000 blank) = int j \<and> 10 \<le> cap (cache_setup 1000 blank)"
  using cache_setup_geometry [OF fits_example, of blank] by blast


subsection \<open>Memory of a slab\<close>

lemma pow_gap:
  assumes "1 \<le> j" and "j \<le> (10 :: nat)"
  shows "10 * j < 8 * 2 ^ j"
proof -
  have "j = 1 \<or> j = 2 \<or> j = 3 \<or> j = 4 \<or> j = 5 \<or> j = 6 \<or> j = 7 \<or> j = 8 \<or> j = 9 \<or> j = 10"
    using assms by presburger
  then show ?thesis
    by auto
qed

text \<open>C25: \<open>alloc_slab\<close> asks \<open>malloc\<close> for \<open>PAGE_SIZE * order\<close> bytes, not for the \<open>PAGE_SIZE * 2 ^ order\<close> that
  the layout of the slab is computed from. With a \<open>malloc\<close> that returns blocks of just the requested
  size, \<open>create_slab\<close> writes past the end of its block for every object size, for order 0 already with
  the header of the slab.\<close>

theorem create_slab_overflows:
  fixes w :: world
  assumes "fits os" and "\<And>n. malloc n = Some (a, nat n)"
  defines "w' \<equiv> cache_setup os w"
  shows "create_slab malloc (c_object_size w') (c_slab_order w') (c_slab_objects w') w' = Inl OutOfBounds"
proof -
  obtain j where j: "j \<le> 10" "c_slab_order w' = int j" "unat (c_slab_size w') = 4096 * 2 ^ j"
    "total_bytes os \<le> 4096 * 2 ^ j" "\<forall>i<j. 4096 * 2 ^ i < total_bytes os"
    "64 + cap w' * (unat os + 24) \<le> 4096 * 2 ^ j"
    "4096 * 2 ^ j < 64 + (cap w' + 1) * (unat os + 24)" "10 \<le> cap w'"
    by (rule setup_facts [OF assms(1), of w, folded w'_def])
  have al: "alloc_slab malloc (int j) = Some (a, 4096 * j)"
    using assms(2) [of "4096 * int j"] by (simp add: alloc_slab_def nat_mult_distrib)
  show ?thesis
  proof (cases "j = 0")
    case True
    then show ?thesis
      using al j(2) by (simp add: create_slab_def)
  next
    case False
    let ?B = "unat os + 24" and ?n = "cap w' - 1"
    have "10 * ?B + 64 \<le> 4096 * 2 ^ j" and "10 * j < 8 * 2 ^ j"
      using j(1,4) False pow_gap [of j] by (simp_all add: total_bytes_def)
    moreover have "cap w' + 1 = ?n + 2"
      using j(8) by simp
    then have "(cap w' + 1) * ?B = ?n * ?B + 2 * ?B"
      by (simp only: add_mult_distrib)
    ultimately have over: "a + 4096 * j < a + 64 + ?n * ?B + 24"
      using j(7) by linarith
    have os: "c_object_size w' = os" "unat (os + 24) = ?B" "unat (c_slab_objects w') = cap w'"
      using total_word(2) [OF assms(1)] by (simp_all add: w'_def setup_fields cap_def)
    have "0 < ?n" and "64 \<le> 4096 * j" and "a + 64 + 24 \<le> a + 4096 * j"
      using j(8) False by simp_all
    then show ?thesis
      using al j(2) os init_loop_overflow [OF over]
      by (simp add: create_slab_def init_block_list_def put_block_run upd_slab_run Let_def)
  qed
qed

theorem create_slab_overflows_witness:
  "create_slab (\<lambda>n. Some (4096, nat n)) 1000 (c_slab_order (cache_setup 1000 blank))
     (c_slab_objects (cache_setup 1000 blank)) (cache_setup 1000 blank) = Inl OutOfBounds"
  using create_slab_overflows [OF fits_example, of "\<lambda>n. Some (4096, nat n)" 4096 blank]
  by (simp add: setup_fields(4))


subsection \<open>Allocation and release of objects\<close>

lemma setup_ok:
  assumes "fits os"
  shows "cache_ok (cache_setup os w) (\<lambda>_. []) fl"
proof -
  have "0 < cap (cache_setup os w)"
    using setup_facts [OF assms, of w] by fastforce
  moreover have "on_list (cache_setup os w) ld []" for ld
    by (cases ld) (simp_all add: on_list_def cache_setup_def Let_def slab_list_init_def put_list.simps)
  ultimately show ?thesis
    by (simp add: cache_ok_def core_ok_def all_slabs_def regions_ok_def)
qed

text \<open>An environment that satisfies the conditions: objects of 1000 bytes, 4 MiB of memory at address 4096.\<close>

definition demo :: world where
  "demo = cache_setup 1000 blank"

definition demo_malloc :: malloc where
  "demo_malloc n = Some (4096, 4194304)"

lemma demo_ok: "cache_ok demo (\<lambda>_. []) (\<lambda>_. [])" "cache_room demo_malloc demo (\<lambda>_. [])"
proof -
  show "cache_ok demo (\<lambda>_. []) (\<lambda>_. [])"
    unfolding demo_def by (rule setup_ok [OF fits_example])
  obtain j where "j \<le> 10" "64 + cap demo * (unat (1000 :: size_t) + 24) \<le> 4096 * 2 ^ j"
    unfolding demo_def by (rule setup_facts [OF fits_example, of blank]) blast
  moreover have "(2 :: nat) ^ j \<le> 2 ^ 10"
    using \<open>j \<le> 10\<close> by (intro power_increasing) simp_all
  moreover have "c_object_size demo = 1000"
    by (simp add: demo_def setup_fields)
  ultimately show "cache_room demo_malloc demo (\<lambda>_. [])"
    by (simp add: cache_room_def malloc_ok_def demo_malloc_def all_slabs_def)
qed



text \<open>C7: \<open>cache_free\<close>. For an object in use it succeeds, removes just that object from those in use, moves
  its slab to the free or to the partial list, and keeps the cache well-formed.\<close>

theorem cache_free_returns:
  assumes "cache_ok w L fl" and "p \<in> live_of w"
  shows "\<exists>w' L' fl'. cache_free (Some w) p = Inr (Some w') \<and> cache_ok w' L' fl' \<and> live_of w' = live_of w - {p}"
proof -
  obtain w' L' fl' where p: "cache_free (Some w) p = Inr (Some w')" "cache_ok w' L' fl'"
      "live w' L' fl' = live w L fl - {p}"
    using cache_free_spec [OF assms(1)] assms(2) live_of_eq [OF assms(1)] by blast
  then have "live_of w' = live_of w - {p}"
    by (simp add: live_of_eq [OF assms(1)] live_of_eq [OF p(2)])
  then show ?thesis
    using p(1,2) by blast
qed

theorem cache_free_returns_witness:
  "\<exists>p w1 w2. cache_alloc demo_malloc demo = Inr (Some p, w1) \<and> cache_free (Some w1) p = Inr (Some w2) \<and>
     live_of w2 = live_of w1 - {p}"
proof -
  obtain p w1 L fl where p: "cache_alloc demo_malloc demo = Inr (Some p, w1)" "cache_ok w1 L fl"
      "live w1 L fl = insert p (live demo (\<lambda>_. []) (\<lambda>_. []))"
    using cache_alloc_spec [OF demo_ok] by blast
  then have "p \<in> live_of w1"
    by (simp add: live_of_eq [OF p(2)])
  then show ?thesis
    using cache_free_returns [OF p(2)] p(1) by blast
qed

text \<open>C27: \<open>cache_release\<close> returns, with one round of the loop per slab, leaves the three lists empty and gives
  back to \<open>malloc\<close> all slabs of the cache and nothing else.\<close>

theorem cache_release_frees_all:
  assumes "cache_ok w L fl" and "\<And>ld. length (L ld) \<le> f"
  shows "\<exists>w'. cache_release f (Some w) = Inr (Some w') \<and> malloced w' = malloced w |` (- all_slabs L) \<and>
    (\<forall>ld. get_list ld w' = \<lparr>l_size = 0, l_head = None\<rparr>)"
proof -
  have ok: "core_ok w L fl"
    by (rule cache_okD(1) [OF assms(1)])
  obtain w1 where w1: "slab_list_free f (Some Slabs_free) w = Inr w1" "core_ok w1 (L(Slabs_free := [])) fl"
      "malloced w1 = malloced w |` (- set (L Slabs_free))"
    using slab_list_free_spec [OF ok assms(2)] by blast
  obtain w2 where w2: "slab_list_free f (Some Slabs_partial) w1 = Inr w2"
      "core_ok w2 (L(Slabs_free := [], Slabs_partial := [])) fl"
      "malloced w2 = malloced w1 |` (- set (L Slabs_partial))"
    using slab_list_free_spec [OF w1(2), of Slabs_partial f] assms(2) by auto
  obtain w3 where w3: "slab_list_free f (Some Slabs_full) w2 = Inr w3"
      "core_ok w3 (L(Slabs_free := [], Slabs_partial := [], Slabs_full := [])) fl"
      "malloced w3 = malloced w2 |` (- set (L Slabs_full))"
    using slab_list_free_spec [OF w2(2), of Slabs_full f] assms(2) by auto
  have "get_list ld w3 = \<lparr>l_size = 0, l_head = None\<rparr>" for ld
    using core_okD(1) [OF w3(2), of ld] by (cases ld) (simp_all add: on_list_def)
  moreover have "all_slabs L = set (L Slabs_free) \<union> set (L Slabs_partial) \<union> set (L Slabs_full)"
    by (auto simp: all_slabs_def) (metis list_id.exhaust)
  then have "malloced w3 = malloced w |` (- all_slabs L)"
    by (auto simp: w1(3) w2(3) w3(3) restrict_map_def fun_eq_iff)
  ultimately show ?thesis
    using w1(1) w2(1) w3(1) by (intro exI [of _ w3]) (simp add: cache_release_def)
qed

theorem cache_release_frees_all_witness:
  "\<exists>f p w1 w2. cache_alloc demo_malloc demo = Inr (Some p, w1) \<and> cache_release f (Some w1) = Inr (Some w2) \<and>
     slabs_full w2 = \<lparr>l_size = 0, l_head = None\<rparr>"
proof -
  obtain p w1 L fl where p: "cache_alloc demo_malloc demo = Inr (Some p, w1)" "cache_ok w1 L fl"
    using cache_alloc_spec [OF demo_ok] by blast
  let ?f = "length (L Slabs_free) + length (L Slabs_partial) + length (L Slabs_full)"
  have "length (L ld) \<le> ?f" for ld
    by (cases ld) simp_all
  then obtain w2 where "cache_release ?f (Some w1) = Inr (Some w2)"
      "\<forall>ld. get_list ld w2 = \<lparr>l_size = 0, l_head = None\<rparr>"
    using cache_release_frees_all [OF p(2), of ?f] by blast
  then show ?thesis
    using p(1) get_list.simps(3) by metis
qed


text \<open>A block that is on the free list and freed again.\<close>

lemma chain_suffix: "chain h p (xs @ ys) \<Longrightarrow> ys \<noteq> [] \<Longrightarrow> chain h (Some (hd ys)) ys"
proof (induction xs arbitrary: p)
  case Nil
  then show ?case by (cases ys) auto
qed (auto split: option.splits)

lemma chain_from: "chain h p xs \<Longrightarrow> chain h p fs \<Longrightarrow> length xs = length fs"
  by (induction xs arbitrary: p fs) (case_tac fs; auto split: option.splits)+

fun walk :: "(nat \<rightharpoonup> block) \<Rightarrow> ptr \<Rightarrow> nat list \<Rightarrow> ptr \<Rightarrow> bool" where
  "walk h p [] q \<longleftrightarrow> p = q"
| "walk h p (a # xs) q \<longleftrightarrow> p = Some a \<and> (case h a of None \<Rightarrow> False | Some b \<Rightarrow> walk h (b_next_block b) xs q)"

lemma walk_chain: "walk h p xs q \<Longrightarrow> chain h p fs \<Longrightarrow> \<exists>gs. chain h q gs \<and> length fs = length xs + length gs"
proof (induction xs arbitrary: p fs)
  case (Cons a xs)
  then show ?case
    by (cases fs) (fastforce split: option.splits)+
qed auto

lemma cyclic_no_chain:
  assumes "walk h p xs p" and "xs \<noteq> []"
  shows "\<not> chain h p fs"
proof
  assume "chain h p fs"
  then obtain gs where "chain h p gs" "length fs = length xs + length gs"
    using walk_chain [OF assms(1)] by blast
  then show False
    using chain_from [OF \<open>chain h p fs\<close>, of gs] assms(2) by simp
qed

lemma walk_to: "chain h p (xs @ q # ys) \<Longrightarrow> q \<notin> set xs \<Longrightarrow> walk (h(q := v)) p xs (Some q)"
  by (induction xs arbitrary: p) (auto split: option.splits)

text \<open>C40: \<open>free_block\<close> recognises a block that is freed twice only when it is the head of the free list of
  the slab. For every other free block the second call succeeds and links the list into a cycle: no finite
  list of blocks ends it any more, and the number of blocks in use drops below the real one.\<close>

theorem free_block_double_free:
  assumes "slabs w a = Some s" and "s_size s \<noteq> 0"
    and "chain (blocks w) (s_first_block s) (f # xs @ p # ys)" and "distinct (f # xs @ p # ys)"
  shows "\<exists>w' s'. free_block (Some a) (Some p) w = Inr w' \<and> slabs w' a = Some s' \<and>
    s_size s' = s_size s - 1 \<and> (\<forall>fs. \<not> chain (blocks w') (s_first_block s') fs)"
proof -
  have f: "s_first_block s = Some f" "f \<noteq> p"
    using assms(3,4) by auto
  have "chain (blocks w) (Some p) (p # ys)"
    using chain_suffix [of "blocks w" "s_first_block s" "f # xs" "p # ys"] assms(3) by simp
  then obtain b where b: "blocks w p = Some b"
    by (auto split: option.splits)
  let ?h = "(blocks w)(p \<mapsto> b\<lparr>b_next_block := Some f\<rparr>)"
  have "walk ?h (Some f) (f # xs) (Some p)"
    using assms(3,4) f(1) by (intro walk_to [where ys = ys]) auto
  then have "walk ?h (Some p) (p # f # xs) (Some p)"
    by simp
  then have "\<not> chain ?h (Some p) fs" for fs
    by (rule cyclic_no_chain) simp
  moreover have "free_block (Some a) (Some p) w = Inr (w\<lparr>blocks := ?h, slabs := (slabs w)(a \<mapsto> s\<lparr>s_first_block := Some p, s_size := s_size s - 1\<rparr>)\<rparr>)"
    using assms(1,2) f b by (simp add: free_block_def upd_block_run upd_slab_run deref_def)
  ultimately show ?thesis
    by simp
qed

text \<open>A slab at 50 with capacity 3, one block in use and the free blocks 200 and 300.\<close>

definition two_free :: world where
  "two_free = blank\<lparr>slabs := [50 \<mapsto> \<lparr>s_size = 1, s_capacity = 3, s_block_size = 8, s_first_block = Some 200,
       s_prev_slab = None, s_next_slab = None, s_list_ptr = None, s_raw_data = Some 114\<rparr>],
     blocks := [200 \<mapsto> \<lparr>b_size = 8, b_next_block = Some 300, b_slab_ptr = Some 50\<rparr>,
       300 \<mapsto> \<lparr>b_size = 8, b_next_block = None, b_slab_ptr = Some 50\<rparr>]\<rparr>"

theorem free_block_double_free_witness:
  "\<exists>w' s'. free_block (Some 50) (Some 300) two_free = Inr w' \<and> slabs w' 50 = Some s' \<and>
    (\<forall>fs. \<not> chain (blocks w') (s_first_block s') fs)"
  using free_block_double_free [of two_free 50 _ 200 "[]" 300 "[]"] by (fastforce simp: two_free_def)

text \<open>\<open>cache_alloc\<close> does not check the result of \<open>create_slab\<close>: on a cache without free or partial slabs and
  with \<open>malloc\<close> out of memory, it does not report the failure to its caller but uses the null pointer.\<close>

theorem cache_alloc_no_memory:
  assumes "l_size (slabs_free w) = 0" and "l_size (slabs_partial w) = 0" and "\<And>n. malloc n = None"
  shows "cache_alloc malloc w = Inl NullDeref"
  using assms by (simp add: cache_alloc_def create_slab_def alloc_slab_def add_to_list_def alloc_block_def deref_def)

theorem cache_alloc_no_memory_witness:
  "cache_alloc (\<lambda>_. None) demo = Inl NullDeref"
  by (rule cache_alloc_no_memory) (simp_all add: demo_def cache_setup_def Let_def slab_list_init_def put_list.simps)

end
