(* ===== verification/Conn_Pool.thy ===== *)
theory Conn_Pool
  imports C_Prelude
begin

unbundle bit_operations_syntax

text \<open>
  The table of connections of the file server (\<open>fileserver/conn_pool.c\<close>).

  A pool is an array of connection descriptors and a bitmap in which a set bit marks a free slot. The
  bitmap has 64 bits, but \<open>book_pos\<close> and \<open>unbook_pos\<close> work on it with a mask of type \<open>int\<close>: the
  model keeps both widths and the sign extension between them. Left shifts of an \<open>int\<close> are those of gcc,
  which drop the upper bits; a shift by 32 and more, and \<open>__builtin_ctz\<close> of 0, are faults.

  The results of \<open>malloc\<close> and of the initialisers of the mutex and of the condition variables are
  arguments. What \<open>release_connection\<close> does outside of the pool is the list of its events.
\<close>

subsection \<open>conn_pool.h\<close>

type_synonym int32 = "32 word"

abbreviation OK :: int64_t where "OK \<equiv> 1"
abbreviation NOT_OK :: int64_t where "NOT_OK \<equiv> - 1"
abbreviation sizeof_ConnectionDesc :: size_t where "sizeof_ConnectionDesc \<equiv> 24"

definition INT64_MAX :: int64_t where
  "INT64_MAX = 0x7FFFFFFFFFFFFFFF"

record ConnectionDesc =
  thread_id :: "64 word"
  connection_sock :: int32
  offset :: int64_t

record ConnectionsPool =
  connections :: "ConnectionDesc list"
  p_size :: size_t
  free_space_bitmap :: int64_t

datatype pool_resource = Pool_mem | Connections_mem | Lock | Cond | Is_free_cond

datatype pool_event = Close int32 | Broadcast_cond | Broadcast_is_free_cond

subsection \<open>conn_pool.c\<close>

definition no_connection :: ConnectionDesc where
  "no_connection = \<lparr>thread_id = 0, connection_sock = 0, offset = 0\<rparr>"

text \<open>The second component lists the resources that are held on return.\<close>

definition create_conn_pool ::
    "bool \<Rightarrow> bool \<Rightarrow> bool \<Rightarrow> bool \<Rightarrow> bool \<Rightarrow> size_t \<Rightarrow> ConnectionsPool option \<times> pool_resource list" where
  "create_conn_pool pool_ok conns_ok lock_ok cond_ok is_free_ok sz =
     (if \<not> pool_ok then (None, [])
      else
        let held = [Pool_mem]; mem_size = sz * sizeof_ConnectionDesc in
        if \<not> conns_ok then (None, removeAll Pool_mem held)
        else
          let held = Connections_mem # held;
              conns = replicate (unat mem_size div 24) no_connection in
          if \<not> lock_ok then (None, removeAll Pool_mem (removeAll Connections_mem held))
          else
            let held = Lock # held in
            if \<not> cond_ok then (None, removeAll Pool_mem (removeAll Lock (removeAll Connections_mem held)))
            else
              let held = Cond # held in
              if \<not> is_free_ok then
                (None, removeAll Pool_mem (removeAll Cond (removeAll Lock (removeAll Connections_mem held))))
              else (Some \<lparr>connections = conns, p_size = sz, free_space_bitmap = INT64_MAX\<rparr>, Is_free_cond # held))"

definition destruct_conn_pool :: "ConnectionsPool option \<Rightarrow> pool_resource list \<Rightarrow> pool_resource list" where
  "destruct_conn_pool pool held = (case pool of None \<Rightarrow> held
     | Some _ \<Rightarrow> removeAll Pool_mem (removeAll Is_free_cond (removeAll Cond (removeAll Lock
         (removeAll Connections_mem held)))))"

definition pool_is_free :: "ConnectionsPool \<Rightarrow> bool" where
  "pool_is_free pool \<longleftrightarrow> free_space_bitmap pool = INT64_MAX"

text \<open>\<open>zero_size\<close> is read before anything is stored in it: its value is an argument.\<close>

definition pool_is_full :: "int64_t \<Rightarrow> ConnectionsPool \<Rightarrow> fault + bool" where
  "pool_is_full zero_size pool =
     bindc (guardc Undefined (unat (p_size pool) < 64)) (\<lambda>_.
     let n = unat (p_size pool); zero_size = push_bit n (signed_drop_bit n zero_size) in
     Inr (free_space_bitmap pool = zero_size))"

definition builtin_ctz :: "32 word \<Rightarrow> fault + nat" where
  "builtin_ctz w = (if w = 0 then Inl Undefined else Inr (length (takeWhile (\<lambda>i. \<not> bit w i) [0..<32])))"

definition book_pos :: "int64_t option \<Rightarrow> fault + (int64_t \<times> int64_t option)" where
  "book_pos bitmap = (case bitmap of None \<Rightarrow> Inr (- 1, None)
     | Some b \<Rightarrow>
         bindc (builtin_ctz (ucast b)) (\<lambda>res.
         let mask = push_bit res 1 :: int32; b = b AND scast (NOT mask) in
         Inr (of_nat res, Some b)))"

definition unbook_pos :: "int64_t option \<Rightarrow> int64_t \<Rightarrow> fault + int64_t option" where
  "unbook_pos bitmap ofs = (case bitmap of None \<Rightarrow> Inr None
     | Some b \<Rightarrow>
         bindc (guardc Undefined (unat ofs < 32)) (\<lambda>_.
         let mask = push_bit (unat ofs) 1 :: int32 in
         Inr (Some (b OR scast mask))))"

text \<open>\<open>tid\<close> is what lies in the uninitialised field \<open>thread_id\<close> of the local variable \<open>conn\<close>.\<close>

definition store_connection ::
    "64 word \<Rightarrow> ConnectionsPool option \<Rightarrow> int32 \<Rightarrow> fault + (int64_t \<times> ConnectionsPool option)" where
  "store_connection tid pool sock = (case pool of None \<Rightarrow> Inr (NOT_OK, None)
     | Some p \<Rightarrow>
         if free_space_bitmap p = 0 then Inr (NOT_OK, Some p)
         else
           bindc (book_pos (Some (free_space_bitmap p))) (\<lambda>(ofs, b).
           let p = (case b of None \<Rightarrow> p | Some b \<Rightarrow> p\<lparr>free_space_bitmap := b\<rparr>) in
           if ofs = - 1 \<or> p_size p \<le> ofs then Inr (NOT_OK, Some p)
           else
             bindc (store_at (connections p) (unat ofs)
               \<lparr>thread_id = tid, connection_sock = sock, offset = ofs\<rparr>) (\<lambda>cs.
             Inr (ofs, Some (p\<lparr>connections := cs\<rparr>)))))"

text \<open>The address of the field \<open>thread_id\<close> is given by the index of its descriptor.\<close>

definition get_tid_pos :: "ConnectionsPool option \<Rightarrow> size_t \<Rightarrow> size_t option" where
  "get_tid_pos pool ofs = (case pool of None \<Rightarrow> None | Some p \<Rightarrow> Some ofs)"

definition release_connection ::
    "ConnectionsPool option \<Rightarrow> int64_t \<Rightarrow> fault + (int64_t \<times> ConnectionsPool option \<times> pool_event list)" where
  "release_connection pool ofs = (case pool of None \<Rightarrow> Inr (NOT_OK, None, [])
     | Some p \<Rightarrow>
         bindc (load_at (connections p) (unat ofs)) (\<lambda>conn.
         let out = [Close (connection_sock conn)] in
         bindc (unbook_pos (Some (free_space_bitmap p)) ofs) (\<lambda>b.
         let p = (case b of None \<Rightarrow> p | Some b \<Rightarrow> p\<lparr>free_space_bitmap := b\<rparr>);
             out = (if pool_is_free p then out @ [Broadcast_cond] else out);
             out = out @ [Broadcast_is_free_cond] in
         bindc (store_at (connections p) (unat ofs) no_connection) (\<lambda>cs.
         Inr (OK, Some (p\<lparr>connections := cs\<rparr>), out)))))"

definition bitmap_contain :: "int64_t \<Rightarrow> int64_t \<Rightarrow> fault + int32" where
  "bitmap_contain bitmap ofs =
     (if bitmap = 0 then Inr (- 1)
      else
        bindc (guardc Undefined (unat ofs < 64)) (\<lambda>_.
        let mask = push_bit (unat ofs) 1; mask = mask AND bitmap in
        Inr (if mask = 0 then 1 else 0)))"

text \<open>The lines that \<open>print\<close> writes for the connections, from the slot \<open>i\<close> on.\<close>

fun print_loop :: "ConnectionsPool \<Rightarrow> nat \<Rightarrow> nat \<Rightarrow> fault + ConnectionDesc list" where
  "print_loop p 0 i = Inr []"
| "print_loop p (Suc n) i =
     bindc (guardc Undefined (i < 64)) (\<lambda>_.
     bindc (bitmap_contain (free_space_bitmap p) (of_nat i)) (\<lambda>c.
     bindc (if c \<noteq> 0 then bindc (load_at (connections p) i) (\<lambda>conn. Inr [conn]) else Inr []) (\<lambda>out.
     bindc (print_loop p n (Suc i)) (\<lambda>rest. Inr (out @ rest)))))"

definition print_pool :: "ConnectionsPool option \<Rightarrow> fault + (size_t \<times> ConnectionDesc list) option" where
  "print_pool pool = (case pool of None \<Rightarrow> Inr None
     | Some p \<Rightarrow> bindc (print_loop p (unat (p_size p)) 0) (\<lambda>out. Inr (Some (p_size p, out))))"

subsection \<open>The bitmap\<close>

lemma takeWhile_upt:
  assumes "k < n" and "P k" and "\<And>i. i < k \<Longrightarrow> \<not> P i"
  shows "length (takeWhile (\<lambda>i. \<not> P i) [0..<n]) = k"
proof -
  have "[0..<n] = [0..<k] @ k # [Suc k..<n]"
    using assms(1) upt_add_eq_append [of 0 k "n - k"] upt_conv_Cons [of k n] by simp
  moreover have "takeWhile (\<lambda>i. \<not> P i) ([0..<k] @ k # [Suc k..<n]) = [0..<k] @ takeWhile (\<lambda>i. \<not> P i) (k # [Suc k..<n])"
    using assms(3) by (intro takeWhile_append2) auto
  ultimately show ?thesis
    using assms(2) by simp
qed

lemma builtin_ctz_eq:
  assumes "k < 32" and "bit w k" and "\<And>i. i < k \<Longrightarrow> \<not> bit w i"
  shows "builtin_ctz w = Inr k"
proof -
  have "w \<noteq> 0"
    using assms(2) by auto
  then show ?thesis
    using takeWhile_upt [of k 32 "bit w", OF assms] by (simp add: builtin_ctz_def)
qed

lemma bit_one_shift: "k < 32 \<Longrightarrow> bit (push_bit k 1 :: int32) n \<longleftrightarrow> n = k"
  by (auto simp: bit_push_bit_iff bit_1_iff simp del: push_bit_of_1)

lemma bit_book_mask:
  assumes "k < 32" and "n < 64"
  shows "bit (scast (NOT (push_bit k 1 :: int32)) :: int64_t) n \<longleftrightarrow> (if k = 31 then n < 31 else n \<noteq> k)"
  using assms by (auto simp: bit_signed_iff bit_not_iff bit_one_shift min_def simp del: push_bit_of_1)

lemma bit_unbook_mask:
  assumes "k < 32" and "n < 64"
  shows "bit (scast (push_bit k 1 :: int32) :: int64_t) n \<longleftrightarrow> (if k = 31 then 31 \<le> n else n = k)"
  using assms by (auto simp: bit_signed_iff bit_one_shift min_def simp del: push_bit_of_1)

text \<open>\<open>book_pos\<close> finds the least free slot below 32, and removes it; but slot 31 takes all slots above with it.\<close>

lemma book_pos_spec:
  assumes "k < 32" and "bit b k" and "\<And>i. i < k \<Longrightarrow> \<not> bit b i"
  obtains b' where "book_pos (Some b) = Inr (of_nat k, Some b')"
    and "\<And>n. bit b' n \<longleftrightarrow> bit b n \<and> (if k = 31 then n < 31 else n \<noteq> k)"
proof
  have "builtin_ctz (ucast b) = Inr k"
    using assms by (intro builtin_ctz_eq) (auto simp: bit_unsigned_iff)
  then show "book_pos (Some b) = Inr (of_nat k, Some (b AND scast (NOT (push_bit k 1 :: int32))))"
    by (simp add: book_pos_def)
  fix n
  show "bit (b AND scast (NOT (push_bit k 1 :: int32))) n \<longleftrightarrow> bit b n \<and> (if k = 31 then n < 31 else n \<noteq> k)"
    using bit_book_mask [OF assms(1), of n] bit_imp_le_length [of b n] by (auto simp: bit_and_iff)
qed

lemma unbook_pos_spec:
  assumes "unat ofs < 32"
  obtains b' where "unbook_pos (Some b) ofs = Inr (Some b')"
    and "\<And>n. bit b' n \<longleftrightarrow> n < 64 \<and> (bit b n \<or> (if unat ofs = 31 then 31 \<le> n else n = unat ofs))"
proof
  show "unbook_pos (Some b) ofs = Inr (Some (b OR scast (push_bit (unat ofs) 1 :: int32)))"
    using assms by (simp add: unbook_pos_def)
  fix n
  show "bit (b OR scast (push_bit (unat ofs) 1 :: int32)) n \<longleftrightarrow>
      n < 64 \<and> (bit b n \<or> (if unat ofs = 31 then 31 \<le> n else n = unat ofs))"
  proof (cases "n < 64")
    case True
    then show ?thesis
      using bit_unbook_mask [OF assms True] by (simp add: bit_or_iff)
  next
    case False
    then show ?thesis
      using bit_imp_le_length [of "b OR scast (push_bit (unat ofs) 1 :: int32)" n] by auto
  qed
qed


subsection \<open>The invariant of a pool\<close>

text \<open>
  \<open>pool_inv p\<close> describes the pools on which no slot has been lost: at most 31 slots (a mask of type
  \<open>int\<close> serves no more), all bits above them set and the sign bit clear, and every booked
  descriptor holding its own index. \<open>conns p\<close> is the table itself: which socket each booked slot holds.
\<close>

definition pool_inv :: "ConnectionsPool \<Rightarrow> bool" where
  "pool_inv p \<longleftrightarrow> unat (p_size p) \<le> 31 \<and> length (connections p) = unat (p_size p) \<and>
     \<not> bit (free_space_bitmap p) 63 \<and> (\<forall>i. unat (p_size p) \<le> i \<and> i < 63 \<longrightarrow> bit (free_space_bitmap p) i) \<and>
     (\<forall>i < unat (p_size p). \<not> bit (free_space_bitmap p) i \<longrightarrow> offset (connections p ! i) = of_nat i)"

definition conns :: "ConnectionsPool \<Rightarrow> nat \<rightharpoonup> int32" where
  "conns p i = (if i < unat (p_size p) \<and> \<not> bit (free_space_bitmap p) i
     then Some (connection_sock (connections p ! i)) else None)"

lemma pool_invD:
  assumes "pool_inv p"
  shows "unat (p_size p) \<le> 31" and "length (connections p) = unat (p_size p)"
    and "\<not> bit (free_space_bitmap p) 63"
    and "\<And>i. unat (p_size p) \<le> i \<Longrightarrow> i < 63 \<Longrightarrow> bit (free_space_bitmap p) i"
    and "\<And>i. i < unat (p_size p) \<Longrightarrow> \<not> bit (free_space_bitmap p) i \<Longrightarrow> offset (connections p ! i) = of_nat i"
  using assms by (auto simp: pool_inv_def)

lemma dom_conns: "dom (conns p) = {i. i < unat (p_size p) \<and> \<not> bit (free_space_bitmap p) i}"
  by (auto simp: conns_def dom_def)

lemma bit_INT64_MAX: "bit INT64_MAX n \<longleftrightarrow> n < 63"
proof -
  have max: "INT64_MAX = mask 63"
    by (simp add: INT64_MAX_def mask_eq_exp_minus_1)
  show ?thesis
    unfolding max by (auto simp: bit_mask_iff)
qed

lemma free_iff:
  assumes "pool_inv p"
  shows "pool_is_free p \<longleftrightarrow> conns p = Map.empty"
proof -
  have "bit (free_space_bitmap p) n \<longleftrightarrow> bit INT64_MAX n" if "conns p = Map.empty" "n < 64" for n
  proof -
    have "n < unat (p_size p) \<Longrightarrow> bit (free_space_bitmap p) n"
      using dom_conns [of p] that(1) by auto
    then show ?thesis
      using pool_invD(1,3,4) [OF assms] that(2) unfolding bit_INT64_MAX
      by (cases "n = 63"; cases "n < unat (p_size p)") (auto simp: less_Suc_eq_le)
  qed
  then have "conns p = Map.empty \<Longrightarrow> free_space_bitmap p = INT64_MAX"
    by (intro bit_word_eqI) simp
  moreover have "free_space_bitmap p = INT64_MAX \<Longrightarrow> conns p = Map.empty"
    using pool_invD(1) [OF assms] by (auto simp: conns_def bit_INT64_MAX fun_eq_iff)
  ultimately show ?thesis
    by (auto simp: pool_is_free_def)
qed

lemma create_ok:
  assumes "unat sz \<le> 31" and "create_conn_pool True True True True True sz = (pool, held)"
  obtains p where "pool = Some p" and "pool_inv p" and "conns p = Map.empty" and "p_size p = sz"
proof -
  have "unat (sz * 24) div 24 = unat sz"
    using assms(1) by (simp add: unat_word_ariths)
  then show thesis
    using assms that by (auto simp: create_conn_pool_def Let_def pool_inv_def conns_def bit_INT64_MAX fun_eq_iff)
qed

subsection \<open>Storing and releasing\<close>

lemma least_free:
  assumes "P i"
  obtains k where "k \<le> (i :: nat)" and "P k" and "\<And>j. j < k \<Longrightarrow> \<not> P j"
proof
  show "(LEAST k. P k) \<le> i" "P (LEAST k. P k)"
    using assms by (auto intro: Least_le LeastI)
  show "\<And>j. j < (LEAST k. P k) \<Longrightarrow> \<not> P j"
    by (rule not_less_Least)
qed

lemma store_spec:
  assumes inv: "pool_inv p" and i: "i < unat (p_size p)" "i \<notin> dom (conns p)"
  obtains k p' where "store_connection tid (Some p) s = Inr (of_nat k, Some p')" and "pool_inv p'"
    and "k < unat (p_size p)" and "k \<notin> dom (conns p)" and "\<And>j. j < k \<Longrightarrow> j \<in> dom (conns p)"
    and "conns p' = (conns p)(k \<mapsto> s)" and "p_size p' = p_size p"
proof -
  let ?b = "free_space_bitmap p"
  have "bit ?b i"
    using i by (auto simp: dom_conns)
  then obtain k where k: "k \<le> i" "bit ?b k" "\<And>j. j < k \<Longrightarrow> \<not> bit ?b j"
    using least_free [of "bit ?b" i] by blast
  have lt: "k < 31" "k < unat (p_size p)"
    using k(1) i(1) pool_invD(1) [OF inv] by auto
  obtain b' where b': "book_pos (Some ?b) = Inr (of_nat k, Some b')" "\<And>n. bit b' n \<longleftrightarrow> bit ?b n \<and> n \<noteq> k"
  proof (rule book_pos_spec [of k ?b])
    show "k < 32" "bit ?b k" "\<And>i. i < k \<Longrightarrow> \<not> bit ?b i"
      using lt(1) k(2,3) by auto
  qed (use lt(1) that in simp)
  have kk: "unat (of_nat k :: int64_t) = k"
    using lt by (simp add: unat_of_nat_less)
  have "(of_nat k :: int64_t) \<noteq> - 1"
  proof
    assume "(of_nat k :: int64_t) = - 1"
    then have "k = 2 ^ 64 - 1"
      using kk by (simp add: unsigned_minus_1_eq_mask mask_eq_exp_minus_1)
    then show False
      using lt(1) by simp
  qed
  moreover have "\<not> p_size p \<le> of_nat k"
    using lt(2) kk by (simp add: word_le_nat_alt)
  moreover have "?b \<noteq> 0"
    using k(2) by auto
  ultimately have run: "store_connection tid (Some p) s = Inr (of_nat k,
      Some (p\<lparr>free_space_bitmap := b', connections := (connections p)[k := \<lparr>thread_id = tid, connection_sock = s, offset = of_nat k\<rparr>]\<rparr>))"
    using b'(1) kk lt(2) pool_invD(2) [OF inv] by (simp add: store_connection_def store_at_def)
  show thesis
  proof (rule that [OF run])
    show "pool_inv (p\<lparr>free_space_bitmap := b', connections := (connections p)[k := \<lparr>thread_id = tid, connection_sock = s, offset = of_nat k\<rparr>]\<rparr>)"
      using inv lt by (auto simp: pool_inv_def b'(2) nth_list_update)
    show "k \<notin> dom (conns p)" "\<And>j. j < k \<Longrightarrow> j \<in> dom (conns p)"
      using k(2,3) lt by (auto simp: dom_conns)
    show "conns (p\<lparr>free_space_bitmap := b', connections := (connections p)[k := \<lparr>thread_id = tid, connection_sock = s, offset = of_nat k\<rparr>]\<rparr>) = (conns p)(k \<mapsto> s)"
      using lt pool_invD(2) [OF inv] by (auto simp: conns_def b'(2) fun_eq_iff)
  qed (use lt in simp_all)
qed

lemma release_spec:
  assumes inv: "pool_inv p" and k: "conns p k = Some s"
  obtains p' where "release_connection (Some p) (of_nat k) = Inr (OK, Some p',
      [Close s] @ (if conns p' = Map.empty then [Broadcast_cond] else []) @ [Broadcast_is_free_cond])"
    and "pool_inv p'" and "conns p' = (conns p)(k := None)" and "p_size p' = p_size p"
proof -
  let ?b = "free_space_bitmap p"
  have lt: "k < unat (p_size p)" and s: "connection_sock (connections p ! k) = s"
    using k by (auto simp: conns_def split: if_splits)
  then have "k < 31"
    using pool_invD(1) [OF inv] by simp
  then have kk: "unat (of_nat k :: int64_t) = k"
    by (simp add: unat_of_nat_less)
  obtain b' where b': "unbook_pos (Some ?b) (of_nat k) = Inr (Some b')"
      "\<And>n. bit b' n \<longleftrightarrow> n < 64 \<and> (bit ?b n \<or> n = k)"
    using unbook_pos_spec [of "of_nat k" ?b] kk \<open>k < 31\<close> by auto
  let ?p = "p\<lparr>free_space_bitmap := b'\<rparr>"
  let ?p' = "p\<lparr>free_space_bitmap := b', connections := (connections p)[k := no_connection]\<rparr>"
  have inv': "pool_inv ?p'" and conns': "conns ?p' = (conns p)(k := None)"
    using inv lt \<open>k < 31\<close> by (auto simp: pool_inv_def conns_def b'(2) nth_list_update fun_eq_iff)
  have "pool_is_free ?p \<longleftrightarrow> conns ?p' = Map.empty"
    using free_iff [OF inv'] by (simp add: pool_is_free_def)
  then have "release_connection (Some p) (of_nat k) = Inr (OK, Some ?p',
      [Close s] @ (if conns ?p' = Map.empty then [Broadcast_cond] else []) @ [Broadcast_is_free_cond])"
    using b'(1) kk lt s pool_invD(2) [OF inv]
    by (simp add: release_connection_def load_at_def store_at_def)
  then show thesis
    using inv' conns' by (intro that [of ?p']) simp_all
qed

text \<open>A pool without free slot: the next \<open>store_connection\<close> fails, and takes the bit above the last slot.\<close>

lemma store_full:
  assumes inv: "pool_inv p" and full: "\<And>i. i < unat (p_size p) \<Longrightarrow> i \<in> dom (conns p)"
  obtains p' where "store_connection tid (Some p) s = Inr (NOT_OK, Some p')" and "p_size p' = p_size p"
    and "connections p' = connections p" and "\<not> bit (free_space_bitmap p') (unat (p_size p))"
    and "\<forall>i. bit (free_space_bitmap p') i \<longrightarrow> bit (free_space_bitmap p) i"
proof -
  let ?b = "free_space_bitmap p" and ?n = "unat (p_size p)"
  have n: "?n < 32" "bit ?b ?n" "\<And>i. i < ?n \<Longrightarrow> \<not> bit ?b i"
    using pool_invD(1,4) [OF inv] full by (auto simp: dom_conns)
  obtain b' where b': "book_pos (Some ?b) = Inr (of_nat ?n, Some b')"
      "\<And>i. bit b' i \<longleftrightarrow> bit ?b i \<and> (if ?n = 31 then i < 31 else i \<noteq> ?n)"
    using book_pos_spec [OF n] by metis
  have "\<not> bit b' ?n"
    by (auto simp: b'(2))
  have "?b \<noteq> 0"
    using n(2) by auto
  then have "store_connection tid (Some p) s = Inr (NOT_OK, Some (p\<lparr>free_space_bitmap := b'\<rparr>))"
    using b'(1) by (simp add: store_connection_def)
  then show thesis
    using b'(2) \<open>\<not> bit b' ?n\<close> by (intro that [of "p\<lparr>free_space_bitmap := b'\<rparr>"]) simp_all
qed

text \<open>The check for a full pool depends on what lies in \<open>zero_size\<close>.\<close>

lemma is_full_iff:
  assumes "pool_inv p"
  shows "pool_is_full z p = Inr (dom (conns p) = {..<unat (p_size p)} \<and>
    (\<forall>i. unat (p_size p) \<le> i \<and> i < 64 \<longrightarrow> bit z i = (i < 63)))"
proof -
  let ?b = "free_space_bitmap p" and ?n = "unat (p_size p)"
  have n: "?n \<le> 31"
    by (rule pool_invD(1) [OF assms])
  have bz: "bit (push_bit ?n (signed_drop_bit ?n z)) i \<longleftrightarrow> ?n \<le> i \<and> bit z i" if "i < 64" for i
    using that by (auto simp: bit_push_bit_iff bit_signed_drop_bit_iff)
  have hi: "bit ?b i \<longleftrightarrow> i < 63" if "?n \<le> i" "i < 64" for i
    using pool_invD(3,4) [OF assms] that by (cases "i = 63") (auto simp: less_Suc_eq_le)
  have "?b = push_bit ?n (signed_drop_bit ?n z) \<longleftrightarrow> (\<forall>i < 64. bit ?b i \<longleftrightarrow> ?n \<le> i \<and> bit z i)"
    using bz bit_word_eqI [of ?b "push_bit ?n (signed_drop_bit ?n z)"] by auto
  also have "\<dots> \<longleftrightarrow> (\<forall>i < ?n. \<not> bit ?b i) \<and> (\<forall>i. ?n \<le> i \<and> i < 64 \<longrightarrow> bit z i = (i < 63))"
  proof safe
    fix i
    assume "\<forall>i < 64. bit ?b i \<longleftrightarrow> ?n \<le> i \<and> bit z i"
    then show "i < ?n \<Longrightarrow> bit ?b i \<Longrightarrow> False" and "?n \<le> i \<Longrightarrow> i < 64 \<Longrightarrow> bit z i \<Longrightarrow> i < 63"
      and "?n \<le> i \<Longrightarrow> i < 64 \<Longrightarrow> i < 63 \<Longrightarrow> bit z i"
      using n hi [of i] by auto
  next
    fix i
    assume lo: "\<forall>i < ?n. \<not> bit ?b i" and z: "\<forall>i. ?n \<le> i \<and> i < 64 \<longrightarrow> bit z i = (i < 63)" and i: "i < (64 :: nat)"
    show "bit ?b i \<Longrightarrow> ?n \<le> i" and "bit ?b i \<Longrightarrow> bit z i" and "?n \<le> i \<Longrightarrow> bit z i \<Longrightarrow> bit ?b i"
      using lo z hi [of i] i by (cases "?n \<le> i"; auto)+
  qed
  also have "(\<forall>i < ?n. \<not> bit ?b i) \<longleftrightarrow> dom (conns p) = {..<?n}"
    by (auto simp: dom_conns)
  finally show ?thesis
    using n by (simp add: pool_is_full_def Let_def)
qed

end
