(* ===== verification/C_String.thy ===== *)
theory C_String
  imports C_Prelude
begin

text \<open>
  Strings of C in buffers of bytes: the string that starts at the beginning of a buffer ends before its
  first zero byte; a function that finds none runs over the end of the buffer.
\<close>

subsection \<open>Library functions\<close>

definition c_str :: "bytes \<Rightarrow> bytes" where
  "c_str b = takeWhile (\<lambda>x. x \<noteq> 0) b"

definition strlen :: "bytes \<Rightarrow> fault + nat" where
  "strlen b = (if 0 \<in> set b then Inr (length (c_str b)) else Inl OutOfBounds)"

text \<open>\<open>strncmp\<close> up to the sign of its result; \<open>strcmp\<close> has no limit.\<close>

fun strncmp :: "bytes \<Rightarrow> bytes \<Rightarrow> nat \<Rightarrow> fault + int" where
  "strncmp s t 0 = Inr 0"
| "strncmp (a # s) (b # t) (Suc n) =
     (if a \<noteq> b then Inr (if a < b then - 1 else 1) else if a = 0 then Inr 0 else strncmp s t n)"
| "strncmp _ _ (Suc n) = Inl OutOfBounds"

fun strcmp :: "bytes \<Rightarrow> bytes \<Rightarrow> fault + int" where
  "strcmp (a # s) (b # t) =
     (if a \<noteq> b then Inr (if a < b then - 1 else 1) else if a = 0 then Inr 0 else strcmp s t)"
| "strcmp _ _ = Inl OutOfBounds"

text \<open>A literal is an array that ends with a zero byte.\<close>

definition lit :: "string \<Rightarrow> bytes" where
  "lit s = map of_char s @ [0]"

subsection \<open>Lemmas\<close>

lemma c_str_0 [simp]: "0 \<notin> set s \<Longrightarrow> c_str (s @ 0 # r) = s"
  by (induction s) (auto simp: c_str_def)

lemma strlen_0 [simp]: "0 \<notin> set s \<Longrightarrow> strlen (s @ 0 # r) = Inr (length s)"
  by (simp add: strlen_def)

lemma c_str_no_0 [simp]: "0 \<notin> set (c_str b)"
  by (auto simp: c_str_def dest: set_takeWhileD)

lemma c_str_split: "0 \<in> set b \<Longrightarrow> \<exists>r. b = c_str b @ 0 # r"
proof (induction b)
  case (Cons a b)
  then show ?case by (cases "a = 0") (auto simp: c_str_def)
qed simp

lemma length_c_str: "0 \<in> set b \<Longrightarrow> length (c_str b) < length b"
  by (induction b) (auto simp: c_str_def)

lemma c_str_split': "0 \<in> set b \<Longrightarrow> b = c_str b @ 0 # drop (Suc (length (c_str b))) b"
  using c_str_split [of b] by (metis append_Cons append_Nil append_assoc append_eq_conv_conj length_append_singleton)

lemma strncmp_0_iff:
  assumes "0 \<notin> set s" and "0 \<notin> set t"
  shows "strncmp (s @ 0 # r) (t @ 0 # r') n = Inr 0 \<longleftrightarrow> take n s = take n t"
  using assms
proof (induction s arbitrary: t n)
  case Nil
  then show ?case by (cases n; cases t) auto
next
  case (Cons a s)
  then show ?case by (cases n; cases t) auto
qed

lemma strncmp_ends:
  assumes "0 \<in> set b" and "0 \<in> set b'"
  shows "\<exists>v. strncmp b b' n = Inr v"
  using assms
proof (induction b b' n rule: strncmp.induct)
  case (2 a s b t n)
  then show ?case by (cases "a = 0"; cases "b = 0") auto
qed auto

lemma strcmp_0_iff:
  assumes "0 \<notin> set s" and "0 \<notin> set t"
  shows "strcmp (s @ 0 # r) (t @ 0 # r') = Inr 0 \<longleftrightarrow> s = t"
  using assms
proof (induction s arbitrary: t)
  case Nil
  then show ?case by (cases t) auto
next
  case (Cons a s)
  then show ?case by (cases t) auto
qed

subsection \<open>Splitting at a separator\<close>

fun split_on :: "'a \<Rightarrow> 'a list \<Rightarrow> 'a list list" where
  "split_on c [] = [[]]"
| "split_on c (x # xs) =
     (if x = c then [] # split_on c xs
      else (case split_on c xs of [] \<Rightarrow> [[x]] | t # ts \<Rightarrow> (x # t) # ts))"

lemma split_on_not_Nil [simp]: "split_on c xs \<noteq> []"
  by (induction xs) (auto split: list.splits)

lemma split_on_one: "c \<notin> set xs \<Longrightarrow> split_on c xs = [xs]"
  by (induction xs) auto

lemma split_on_append: "c \<notin> set xs \<Longrightarrow> split_on c (xs @ c # ys) = xs # split_on c ys"
  by (induction xs) auto

lemma length_split_on: "length (split_on c xs) = Suc (count_list xs c)"
proof (induction xs)
  case (Cons x xs)
  then show ?case by (cases "split_on c xs") auto
qed simp

lemma split_on_no_sep: "t \<in> set (split_on c xs) \<Longrightarrow> c \<notin> set t"
proof (induction xs arbitrary: t)
  case (Cons x xs)
  then show ?case by (cases "split_on c xs") (auto split: if_splits)
qed simp

lemma split_on_set: "t \<in> set (split_on c xs) \<Longrightarrow> set t \<subseteq> set xs"
proof (induction xs arbitrary: t)
  case (Cons x xs)
  then show ?case by (cases "split_on c xs") (fastforce split: if_splits)+
qed simp

end
