(* ===== verification/Request.thy ===== *)
theory Request
  imports C_String
begin

text \<open>
  The parser of the requests of the file server (\<open>fileserver/utils.c\<close>).

  A request is a string whose tokens are separated by colons. \<open>malloc\<close> is an argument that maps the
  requested size to the block it returns: its bytes are arbitrary, and its length is the memory that
  is really there, which may be more than was asked for. \<open>add_elemnt\<close> needs one byte more.
\<close>

subsection \<open>utils.h and utils.c\<close>

datatype Operation = GET | POST | UNDEFINED

type_synonym block_alloc = "nat \<Rightarrow> bytes option"

fun count_loop :: "bytes \<Rightarrow> nat \<Rightarrow> nat \<Rightarrow> size_t \<Rightarrow> fault + size_t" where
  "count_loop str 0 i cnt = Inr cnt"
| "count_loop str (Suc n) i cnt =
     bindc (load_at str i) (\<lambda>c. count_loop str n (Suc i) (if c = of_char CHR '':'' then cnt + 1 else cnt))"

definition get_tokens_cnt :: "bytes \<Rightarrow> size_t \<Rightarrow> fault + size_t" where
  "get_tokens_cnt str len = count_loop str (unat len) 0 1"

text \<open>With an empty token the index \<open>token_size - 1\<close> wraps around to a byte in front of the block.\<close>

definition add_elemnt ::
    "block_alloc \<Rightarrow> bytes option list \<Rightarrow> bytes \<Rightarrow> size_t \<Rightarrow> size_t \<Rightarrow> size_t \<Rightarrow> fault + bytes option list" where
  "add_elemnt malloc tokens str tokens_indx start_pos end_pos =
     (let token_size = end_pos - start_pos in
      bindc (store_at tokens (unat tokens_indx) (malloc (unat token_size))) (\<lambda>tokens.
      case malloc (unat token_size) of None \<Rightarrow> Inl NullDeref
      | Some blk \<Rightarrow>
          bindc (memcpy_from str (unat start_pos) (unat token_size)) (\<lambda>src.
          bindc (memcpy_to blk 0 src) (\<lambda>blk.
          bindc (store_at blk (unat token_size) 0) (\<lambda>blk.
          bindc (load_at blk (unat (token_size - 1))) (\<lambda>c.
          bindc (if c = of_char CHR ''\<newline>'' then store_at blk (unat (token_size - 1)) 0 else Inr blk) (\<lambda>blk.
          store_at tokens (unat tokens_indx) (Some blk))))))))"

text \<open>The second comparison repeats the first one.\<close>

definition get_op_type :: "bytes option \<Rightarrow> fault + Operation" where
  "get_op_type request = (case request of None \<Rightarrow> Inl NullDeref
     | Some r \<Rightarrow>
         bindc (strncmp r (lit ''GET'') 3) (\<lambda>c.
         if c = 0 then Inr GET
         else
           bindc (strncmp r (lit ''GET'') 3) (\<lambda>c.
           if c = 0 then Inr POST else Inr UNDEFINED)))"

fun parse_loop :: "block_alloc \<Rightarrow> bytes \<Rightarrow> size_t \<Rightarrow> nat \<Rightarrow> size_t \<Rightarrow> size_t \<Rightarrow> size_t \<Rightarrow> bytes option list \<Rightarrow>
    fault + bytes option list" where
  "parse_loop malloc str tokens_cnt 0 end_pos start_pos tokens_indx tokens =
     add_elemnt malloc tokens str tokens_indx start_pos end_pos"
| "parse_loop malloc str tokens_cnt (Suc n) end_pos start_pos tokens_indx tokens =
     bindc (load_at str (unat end_pos)) (\<lambda>c.
     if c = of_char CHR '':'' \<and> tokens_indx < tokens_cnt then
       bindc (add_elemnt malloc tokens str tokens_indx start_pos end_pos) (\<lambda>tokens.
       parse_loop malloc str tokens_cnt n (end_pos + 1) (end_pos + 1) (tokens_indx + 1) tokens)
     else parse_loop malloc str tokens_cnt n (end_pos + 1) start_pos tokens_indx tokens)"

text \<open>
  \<open>parse_request\<close>: the length of the string is kept in an \<open>int\<close>; the loop of \<open>n\<close> rounds runs while
  \<open>end_pos < str_len\<close>. \<open>array_ok\<close> says that \<open>malloc\<close> succeeds for the array of tokens.
\<close>

definition parse_request :: "block_alloc \<Rightarrow> bool \<Rightarrow> bytes \<Rightarrow> fault + (bytes option list \<times> size_t)" where
  "parse_request malloc array_ok str =
     bindc (strlen str) (\<lambda>len.
     let str_len = of_nat len :: 32 word in
     bindc (get_tokens_cnt str (scast str_len)) (\<lambda>tokens_cnt.
     bindc (guardc NullDeref array_ok) (\<lambda>_.
     bindc (parse_loop malloc str tokens_cnt (unat (scast str_len :: size_t)) 0 0 0
       (replicate (unat tokens_cnt) None)) (\<lambda>tokens.
     Inr (tokens, tokens_cnt)))))"

text \<open>The blocks that \<open>free_args_list\<close> gives back.\<close>

fun free_args_loop :: "bytes option list \<Rightarrow> nat \<Rightarrow> nat \<Rightarrow> fault + bytes list" where
  "free_args_loop args 0 i = Inr []"
| "free_args_loop args (Suc n) i =
     bindc (load_at args i) (\<lambda>a.
     bindc (free_args_loop args n (Suc i)) (\<lambda>fs. Inr ((case a of None \<Rightarrow> [] | Some b \<Rightarrow> [b]) @ fs)))"

definition free_args_list :: "bytes option list \<Rightarrow> size_t \<Rightarrow> fault + bytes list" where
  "free_args_list args_list sz = free_args_loop args_list (unat sz) 0"

subsection \<open>Tokens\<close>

definition colon :: byte where
  "colon = of_char CHR '':''"

definition chomp :: "bytes \<Rightarrow> bytes" where
  "chomp t = (if t \<noteq> [] \<and> last t = of_char CHR ''\<newline>'' then butlast t else t)"

text \<open>An allocator with slack: it does not fail, and the block has at least one byte more than asked for.\<close>

definition slack :: "block_alloc \<Rightarrow> bool" where
  "slack malloc \<longleftrightarrow> (\<forall>n < 2 ^ 62. \<exists>b. malloc n = Some b \<and> n < length b \<and> length b < 2 ^ 64)"

lemma count_loop_eq:
  "i + n \<le> length str \<Longrightarrow>
   count_loop str n i cnt = Inr (cnt + of_nat (count_list (take n (drop i str)) colon))"
proof (induction n arbitrary: i cnt)
  case (Suc n)
  then have "take (Suc n) (drop i str) = str ! i # take n (drop (Suc i) str)"
    by (simp add: Cons_nth_drop_Suc [symmetric])
  then show ?case
    using Suc by (simp add: load_at_def colon_def add.assoc)
qed simp

lemma chomp_block:
  assumes "t \<noteq> []" and "0 \<notin> set t" and "length t < length blk"
    and blk': "blk' = (write_at 0 t blk)[length t := 0]"
  shows "blk' ! (length t - 1) = last t"
    and "c_str (if last t = of_char CHR ''\<newline>'' then blk'[length t - 1 := 0] else blk') = chomp t"
    and "0 \<in> set (if last t = of_char CHR ''\<newline>'' then blk'[length t - 1 := 0] else blk')"
proof -
  have "drop (length t) blk = blk ! length t # drop (Suc (length t)) blk"
    using assms(3) by (simp add: Cons_nth_drop_Suc)
  then have b: "blk' = t @ 0 # drop (Suc (length t)) blk"
    using blk' by (simp add: write_at_def list_update_append)
  obtain u x where t: "t = u @ [x]"
    using assms(1) by (cases t rule: rev_cases) auto
  show "blk' ! (length t - 1) = last t"
    using b t by (simp add: nth_append)
  have nl: "blk'[length t - 1 := 0] = u @ 0 # 0 # drop (Suc (length t)) blk"
    using b t by (simp add: list_update_append)
  then show "0 \<in> set (if last t = of_char CHR ''\<newline>'' then blk'[length t - 1 := 0] else blk')"
    using b by simp
  note nl
  moreover have "c_str blk' = t"
    unfolding b using assms(2) by (rule c_str_0)
  ultimately show "c_str (if last t = of_char CHR ''\<newline>'' then blk'[length t - 1 := 0] else blk') = chomp t"
    using t assms(2) by (auto simp: chomp_def)
qed

lemma add_elemnt_ok:
  assumes "slack malloc" and "k < length tokens" and "length tokens < 2 ^ 64"
    and "s + length t \<le> length str" and "length str < 2 ^ 62" and "take (length t) (drop s str) = t"
    and "t \<noteq> []" and "0 \<notin> set t"
  shows "\<exists>b. add_elemnt malloc tokens str (of_nat k) (of_nat s) (of_nat (s + length t)) = Inr (tokens[k := Some b]) \<and>
    c_str b = chomp t \<and> 0 \<in> set b"
proof -
  have "length t < 2 ^ 62"
    using assms(4,5) by linarith
  then obtain blk where blk: "malloc (length t) = Some blk" "length t < length blk"
    using assms(1) unfolding slack_def by blast
  have n: "unat (of_nat k :: size_t) = k" "unat (of_nat s :: size_t) = s" "unat (of_nat (length t) :: size_t) = length t"
    using assms(2-5) by (intro unat_of_nat_less; simp)+
  have sub: "of_nat (s + length t) - of_nat s = (of_nat (length t) :: size_t)"
    by simp
  have "unat (of_nat (length t) - 1 :: size_t) = length t - 1"
    using assms(4,5,7) unat_of_nat_less [of "length t - 1"] by (simp add: of_nat_diff Suc_leI)
  moreover have "memcpy_from str s (length t) = Inr t"
    using assms(4,6) by (simp add: memcpy_from_def)
  moreover have "memcpy_to blk 0 t = Inr (write_at 0 t blk)" "length (write_at 0 t blk) = length blk"
    using blk(2) by (simp_all add: memcpy_to_def)
  ultimately have "add_elemnt malloc tokens str (of_nat k) (of_nat s) (of_nat (s + length t)) =
      Inr (tokens[k := Some (if last t = of_char CHR ''\<newline>'' then (write_at 0 t blk)[length t := 0, length t - 1 := 0]
        else (write_at 0 t blk)[length t := 0])])"
    unfolding add_elemnt_def sub Let_def
    using blk assms(2,7) n chomp_block(1) [OF assms(7,8) blk(2) refl]
    by (simp add: store_at_def load_at_def less_imp_diff_less)
  then show ?thesis
    using chomp_block(2,3) [OF assms(7,8) blk(2) refl] by blast
qed


lemma add_elemnt_empty:
  assumes "slack malloc" and "k < length tokens" and "length tokens < 2 ^ 64" and "s \<le> length str"
  shows "add_elemnt malloc tokens str (of_nat k) (of_nat s) (of_nat s) = Inl OutOfBounds"
proof -
  obtain blk where blk: "malloc 0 = Some blk" "0 < length blk" "length blk < 2 ^ 64"
    using assms(1) by (force simp: slack_def)
  have "unat (- 1 :: size_t) = 2 ^ 64 - 1"
    by (simp add: unsigned_minus_1_eq_mask mask_eq_exp_minus_1)
  moreover have "unat (of_nat s :: size_t) \<le> s"
    by (simp add: unsigned_of_nat)
  ultimately show ?thesis
    using assms(2-4) blk unat_of_nat_less [of k]
    by (simp add: add_elemnt_def store_at_def memcpy_from_def memcpy_to_def write_at_def load_at_def)
qed

text \<open>
  \<open>parsed ts old r\<close>: the result \<open>r\<close> adds to \<open>old\<close> a block for each of the pieces \<open>ts\<close>, provided none is empty.
\<close>

definition parsed :: "bytes list \<Rightarrow> bytes option list \<Rightarrow> fault + bytes option list \<Rightarrow> bool" where
  "parsed ts old r \<longleftrightarrow> (if [] \<in> set ts then r = Inl OutOfBounds
     else (\<exists>bs. r = Inr (old @ map Some bs) \<and> map c_str bs = map chomp ts \<and> (\<forall>b \<in> set bs. 0 \<in> set b)))"

lemma parsed_Cons:
  assumes "c_str b = chomp t \<and> 0 \<in> set b" and "t \<noteq> []"
    and "parsed ts (old @ [Some b]) r"
  shows "parsed (t # ts) old r"
proof (cases "[] \<in> set ts")
  case False
  then obtain bs where "r = Inr ((old @ [Some b]) @ map Some bs)" "map c_str bs = map chomp ts" "\<forall>b \<in> set bs. 0 \<in> set b"
    using assms(3) by (auto simp: parsed_def)
  then show ?thesis
    using False assms(1,2) unfolding parsed_def by (auto intro!: exI [of _ "b # bs"])
qed (use assms(2,3) in \<open>simp add: parsed_def\<close>)

text \<open>
  The loop at position \<open>e\<close>: the current token \<open>cur\<close> starts at \<open>st\<close>, \<open>rest\<close> is still to be read, and
  \<open>tokens\<close> has a slot for each token to come.
\<close>

lemma parse_loop_ok:
  assumes "slack malloc" and "length str < 2 ^ 62" and "0 \<notin> set (cur @ rest)" and "colon \<notin> set cur"
    and "take (length (cur @ rest)) (drop st str) = cur @ rest" and "st + length (cur @ rest) \<le> length str"
    and "length tokens = k + length (split_on colon (cur @ rest))" and "length tokens < 2 ^ 64"
  shows "parsed (split_on colon (cur @ rest)) (take k tokens)
    (parse_loop malloc str (of_nat (length tokens)) (length rest) (of_nat (st + length cur)) (of_nat st) (of_nat k) tokens)"
  using assms(3-)
proof (induction rest arbitrary: cur st k tokens)
  case Nil
  then have sp: "split_on colon cur = [cur]"
    by (simp add: split_on_one)
  have k: "k < length tokens" "take (length cur) (drop st str) = cur"
    using Nil.prems(3,5) sp by auto
  show ?case
  proof (cases "cur = []")
    case True
    then show ?thesis
      using add_elemnt_empty [OF assms(1) k(1) Nil.prems(6)] sp Nil.prems(4) by (simp add: parsed_def)
  next
    case False
    then obtain b where "add_elemnt malloc tokens str (of_nat k) (of_nat st) (of_nat (st + length cur)) = Inr (tokens[k := Some b])"
        "c_str b = chomp cur \<and> 0 \<in> set b"
      using add_elemnt_ok [OF assms(1) k(1) Nil.prems(6), of st cur str] Nil.prems(1,4) k(2) assms(2) by auto
    moreover have "tokens[k := Some b] = take k tokens @ map Some [b]"
      using Nil.prems(5) sp by (simp add: upd_conv_take_nth_drop)
    ultimately show ?thesis
      using sp False by (auto simp: parsed_def intro: exI [of _ "[b]"])
  qed
next
  case (Cons x rest)
  let ?e = "st + length cur"
  let ?n = "of_nat (length tokens) :: size_t"
  have len: "?e < length str" "?e < 2 ^ 64"
    using Cons.prems(4) assms(2) by simp_all
  have "take (length (cur @ x # rest)) (drop st str) ! length cur = (cur @ x # rest) ! length cur"
    using Cons.prems(3) by simp
  then have x: "str ! ?e = x"
    using Cons.prems(4) by (simp add: nth_append)
  have ld: "load_at str (unat (of_nat ?e :: size_t)) = Inr x"
    using x len by (simp only: unat_of_nat_less load_at_Inr)
  show ?case
  proof (cases "x = colon")
    case False
    have "parsed (split_on colon ((cur @ [x]) @ rest)) (take k tokens)
        (parse_loop malloc str ?n (length rest) (of_nat (st + length (cur @ [x]))) (of_nat st) (of_nat k) tokens)"
      using Cons.prems False by (intro Cons.IH) auto
    then show ?thesis
      using ld False by (simp add: colon_def add.commute)
  next
    case True
    then have sp: "split_on colon (cur @ x # rest) = cur # split_on colon rest"
      using Cons.prems(2) split_on_append by metis
    have k: "k < length tokens" "take (length cur) (drop st str) = cur"
      using Cons.prems(5) sp arg_cong [OF Cons.prems(3), of "take (length cur)"] by (simp_all add: min_def)
    have t2: "take (length rest) (drop (Suc ?e) str) = rest"
      using arg_cong [OF Cons.prems(3), of "drop (Suc (length cur))"] by (simp add: drop_take add.commute)
    have lt: "(of_nat k :: size_t) < ?n"
      using k Cons.prems(6) by (simp add: word_less_nat_alt unat_of_nat_less)
    show ?thesis
    proof (cases "cur = []")
      case True
      then show ?thesis
        using add_elemnt_empty [OF assms(1) k(1) Cons.prems(6)] ld lt sp \<open>x = colon\<close> len(1)
        by (simp add: parsed_def colon_def)
    next
      case False
      obtain b where b: "add_elemnt malloc tokens str (of_nat k) (of_nat st) (of_nat ?e) = Inr (tokens[k := Some b])"
          "c_str b = chomp cur \<and> 0 \<in> set b"
        using add_elemnt_ok [OF assms(1) k(1) Cons.prems(6), of st cur str] Cons.prems(1,4) assms(2) k(2) False by auto
      have "parsed (split_on colon ([] @ rest)) (take (Suc k) (tokens[k := Some b]))
          (parse_loop malloc str (of_nat (length (tokens[k := Some b]))) (length rest) (of_nat (Suc ?e + length ([] :: bytes)))
          (of_nat (Suc ?e)) (of_nat (Suc k)) (tokens[k := Some b]))"
        using Cons.prems sp t2 by (intro Cons.IH) auto
      moreover have "take (Suc k) (tokens[k := Some b]) = take k tokens @ [Some b]"
        using k(1) by (simp add: take_Suc_conv_app_nth)
      moreover have "parse_loop malloc str ?n (length (x # rest)) (of_nat ?e) (of_nat st) (of_nat k) tokens =
          parse_loop malloc str ?n (length rest) (of_nat (Suc ?e)) (of_nat (Suc ?e)) (of_nat (Suc k)) (tokens[k := Some b])"
        using ld \<open>x = colon\<close> b(1) lt by (simp add: colon_def add.commute)
      ultimately show ?thesis
        using parsed_Cons [OF b(2) False] sp by fastforce
    qed
  qed
qed

lemma tokens_cnt:
  assumes "0 \<notin> set s" and "length s < 2 ^ 31"
  shows "get_tokens_cnt (s @ 0 # r) (of_nat (length s)) = Inr (of_nat (length (split_on colon s)))"
  using assms unat_of_nat_less [of "length s"]
  by (simp add: get_tokens_cnt_def count_loop_eq length_split_on)

lemma str_len:
  assumes "n < 2 ^ 31"
  shows "scast (of_nat n :: 32 word) = (of_nat n :: size_t)"
proof -
  have "sint (of_nat n :: 32 word) = int n"
    using assms by (simp add: sint_uint unsigned_of_nat take_bit_nat_eq_self signed_take_bit_int_eq_self)
  then show ?thesis
    by (metis of_int_of_nat_eq of_int_sint)
qed

text \<open>What the parser does on a string, up to its loop.\<close>

lemma parse_request_eq:
  assumes "0 \<notin> set s" and "length s < 2 ^ 31"
  shows "parse_request malloc True (s @ 0 # r) =
    bindc (parse_loop malloc (s @ 0 # r) (of_nat (length (split_on colon s))) (length s) 0 0 0
      (replicate (length (split_on colon s)) None))
      (\<lambda>tokens. Inr (tokens, of_nat (length (split_on colon s))))"
proof -
  have "count_list s colon \<le> length s"
    by (rule count_le_length)
  then have "unat (of_nat (length (split_on colon s)) :: size_t) = length (split_on colon s)"
    using assms(2) by (intro unat_of_nat_less) (simp add: length_split_on)
  then show ?thesis
    using assms tokens_cnt [OF assms, of r] str_len [OF assms(2)] unat_of_nat_less [of "length s"]
    by (simp add: parse_request_def Let_def)
qed

subsection \<open>Properties\<close>

lemma parse_request_parsed:
  assumes "slack malloc" and "0 \<notin> set s" and "length s < 2 ^ 31" and "length r < 2 ^ 31"
  obtains res where "parse_request malloc True (s @ 0 # r) = bindc res (\<lambda>tokens. Inr (tokens, of_nat (length (split_on colon s))))"
    and "parsed (split_on colon s) [] res"
proof -
  have "count_list s colon \<le> length s"
    by (rule count_le_length)
  then have "length (split_on colon s) < 2 ^ 64"
    using assms(3) by (simp add: length_split_on)
  then have "parsed (split_on colon s) [] (parse_loop malloc (s @ 0 # r) (of_nat (length (split_on colon s))) (length s) 0 0 0
      (replicate (length (split_on colon s)) None))"
    using parse_loop_ok [OF assms(1), where cur = "[]" and rest = s and st = 0 and k = 0 and str = "s @ 0 # r"
        and tokens = "replicate (length (split_on colon s)) None"] assms(2-4) by simp
  then show thesis
    using parse_request_eq [OF assms(2,3), of malloc r] that by blast
qed


definition roomy_malloc :: block_alloc where
  "roomy_malloc n = Some (replicate (Suc n) 7)"

lemma roomy_slack: "slack roomy_malloc"
  by (auto simp: slack_def roomy_malloc_def)


text \<open>An empty token. When the request is empty, or starts or ends with a colon, or has two colons in a row,
  \<open>add_elemnt\<close> looks for the newline in front of the block of the empty token.\<close>

theorem parse_request_empty_token:
  assumes "slack malloc" and "0 \<notin> set s" and "length s < 2 ^ 31" and "length r < 2 ^ 31"
    and "[] \<in> set (split_on colon s)"
  shows "parse_request malloc True (s @ 0 # r) = Inl OutOfBounds"
proof -
  obtain res where "parse_request malloc True (s @ 0 # r) = bindc res (\<lambda>tokens. Inr (tokens, of_nat (length (split_on colon s))))"
      "parsed (split_on colon s) [] res"
    by (rule parse_request_parsed [OF assms(1-4)])
  then show ?thesis
    using assms(5) by (simp add: parsed_def)
qed

theorem parse_request_empty_token_witness:
  "parse_request roomy_malloc True (lit []) = Inl OutOfBounds \<and>
   parse_request roomy_malloc True (lit ''GET:'') = Inl OutOfBounds"
  using parse_request_empty_token [OF roomy_slack, of "[]" "[]"]
    parse_request_empty_token [OF roomy_slack, of "map of_char ''GET:''" "[]"]
  by (simp add: lit_def colon_def)

lemma add_elemnt_exact:
  assumes "\<And>n. \<exists>b. malloc n = Some b \<and> length b = n"
  shows "add_elemnt malloc tokens str k st e = Inl OutOfBounds"
proof -
  obtain b where b: "malloc (unat (e - st)) = Some b" "length b = unat (e - st)"
    using assms by blast
  then show ?thesis
    by (auto simp: add_elemnt_def Let_def store_at_def memcpy_from_def memcpy_to_def bindc_def)
qed

lemma parse_loop_exact:
  assumes "\<And>n. \<exists>b. malloc n = Some b \<and> length b = n"
  shows "e + n \<le> length str \<Longrightarrow> e + n < 2 ^ 64 \<Longrightarrow> parse_loop malloc str c n (of_nat e) st k tokens = Inl OutOfBounds"
proof (induction n arbitrary: e)
  case (Suc n)
  then show ?case
    using add_elemnt_exact [OF assms] Suc.IH [of "Suc e"]
    by (simp add: load_at_def unat_of_nat_less add.commute)
qed (simp add: add_elemnt_exact [OF assms])

text \<open>C33: \<open>add_elemnt\<close> overruns. When \<open>malloc\<close> returns exactly the memory it is asked for, the terminating zero of
  the first token goes behind the end of its block, whatever the request.\<close>

theorem parse_request_overruns:
  assumes "\<And>n. \<exists>b. malloc n = Some b \<and> length b = n" and "0 \<notin> set s" and "length s < 2 ^ 31"
  shows "parse_request malloc True (s @ 0 # r) = Inl OutOfBounds"
  using parse_request_eq [OF assms(2,3), of malloc r] parse_loop_exact [OF assms(1), of 0 "length s"] assms(3)
  by simp

theorem parse_request_overruns_witness:
  "parse_request (\<lambda>n. Some (replicate n 0)) True (lit ''GET:a'') = Inl OutOfBounds"
  using parse_request_overruns [of "\<lambda>n. Some (replicate n 0)" "map of_char ''GET:a''" "[]"] by (simp add: lit_def)

lemma get_op_type_eq:
  assumes "0 \<notin> set s"
  shows "get_op_type (Some (s @ 0 # r)) = Inr (if take 3 s = map of_char ''GET'' then GET else UNDEFINED)"
proof -
  have "0 \<notin> set (map of_char ''GET'' :: bytes)"
    by simp
  then have iff: "strncmp (s @ 0 # r) (lit ''GET'') 3 = Inr 0 \<longleftrightarrow> take 3 s = map of_char ''GET''"
    using strncmp_0_iff [OF assms, of "map of_char ''GET''" r "[]" 3] unfolding lit_def by simp
  have "0 \<in> set (lit ''GET'')"
    by (simp add: lit_def)
  then obtain v where v: "strncmp (s @ 0 # r) (lit ''GET'') 3 = Inr v"
    using strncmp_ends [of "s @ 0 # r" "lit ''GET''" 3] by auto
  then show ?thesis
    using iff unfolding get_op_type_def by simp
qed

text \<open>\<open>get_op_type\<close> on a string: \<open>GET\<close> exactly for the strings that start so, and \<open>UNDEFINED\<close> for all others.
  It never answers \<open>POST\<close>, so that the branch of the server that stores files is dead.\<close>

theorem get_op_type_never_post:
  assumes "0 \<notin> set s"
  shows "get_op_type (Some (s @ 0 # r)) = Inr (if take 3 s = map of_char ''GET'' then GET else UNDEFINED)"
  using assms by (rule get_op_type_eq)

theorem get_op_type_never_post_witness:
  "get_op_type (Some (lit ''POST'')) = Inr UNDEFINED \<and> get_op_type (Some (lit ''GETX'')) = Inr GET"
  using get_op_type_never_post [of "map of_char ''POST''" "[]"] get_op_type_never_post [of "map of_char ''GETX''" "[]"]
  by (simp add: lit_def)


lemma free_args_loop_ok: "i + n \<le> length args \<Longrightarrow> \<exists>fs. free_args_loop args n i = Inr fs"
proof (induction n arbitrary: i)
  case (Suc n)
  then have "Suc i + n \<le> length args"
    by simp
  then obtain fs where "free_args_loop args n (Suc i) = Inr fs"
    using Suc.IH by blast
  then show ?case
    using Suc.prems by (simp add: load_at_def)
qed simp

lemma parse_request_two:
  assumes "slack malloc" and "0 \<notin> set s" and "length s < 2 ^ 31" and "length r < 2 ^ 31" and "split_on colon s = [t, u]"
    and "t \<noteq> []" and "u \<noteq> []"
  obtains a b where "parse_request malloc True (s @ 0 # r) = Inr ([Some a, Some b], 2)"
    and "c_str a = chomp t" and "0 \<in> set a" and "c_str b = chomp u" and "0 \<in> set b"
proof -
  obtain res where res: "parse_request malloc True (s @ 0 # r) = bindc res (\<lambda>tokens. Inr (tokens, of_nat (length (split_on colon s))))"
      "parsed (split_on colon s) [] res"
    by (rule parse_request_parsed [OF assms(1-4)])
  moreover have "[] \<notin> set (split_on colon s)"
    using assms(5-7) by simp
  ultimately obtain bs where bs: "res = Inr (map Some bs)" "map c_str bs = map chomp [t, u]" "\<forall>b \<in> set bs. 0 \<in> set b"
    unfolding parsed_def assms(5) by (auto simp only: if_False append_Nil)
  then obtain a b where "bs = [a, b]"
    by (auto simp: map_eq_Cons_conv)
  then show thesis
    using that res(1) bs assms(5) by simp
qed

end
