(* ===== verification/File_System.thy ===== *)
theory File_System
  imports C_String
begin

text \<open>
  The file operations of the file server (\<open>fileserver/filesystem.c\<close>).

  A path is the list of its bytes. The state maps the existing files to their contents and knows the
  existing directories. Which files can be opened for writing and which directories can be created is
  part of the state too, as it is decided outside of the program. Writing to an open file succeeds.

  A stream that is read has a position, the flags that \<open>feof\<close> and \<open>ferror\<close> return, and possibly a
  position \<open>st_bad\<close> at which the device fails. \<open>fgetc\<close> returns \<open>EOF\<close>, the byte \<open>0xFF\<close> once it is
  converted to \<open>char\<close>, at the end of the file.
\<close>

subsection \<open>Files and streams\<close>

record file_system =
  files :: "bytes \<rightharpoonup> bytes"
  dirs :: "bytes set"
  writable :: "bytes \<Rightarrow> bool"
  mkdir_ok :: "bytes \<Rightarrow> bool"
  bad_at :: "bytes \<Rightarrow> nat option"

record stream =
  st_content :: bytes
  st_pos :: nat
  st_eof :: bool
  st_err :: bool
  st_bad :: "nat option"

definition PAGESIZE :: nat where
  "PAGESIZE = 4096"

definition PATH_SIZE :: nat where
  "PATH_SIZE = 4096"

definition fopen_r :: "file_system \<Rightarrow> bytes \<Rightarrow> stream option" where
  "fopen_r fs path = (case files fs path of None \<Rightarrow> None
     | Some c \<Rightarrow> Some \<lparr>st_content = c, st_pos = 0, st_eof = False, st_err = False, st_bad = bad_at fs path\<rparr>)"

definition put_file :: "bytes \<Rightarrow> bytes \<Rightarrow> file_system \<Rightarrow> file_system" where
  "put_file path c fs = fs\<lparr>files := (files fs)(path \<mapsto> c)\<rparr>"

text \<open>Opening a file for writing creates it, or empties it.\<close>

definition fopen_w :: "file_system \<Rightarrow> bytes \<Rightarrow> file_system option" where
  "fopen_w fs path = (if writable fs path then Some (put_file path [] fs) else None)"

definition fwrite :: "bytes \<Rightarrow> bytes \<Rightarrow> file_system \<Rightarrow> file_system" where
  "fwrite path bs fs = put_file path (case files fs path of None \<Rightarrow> bs | Some c \<Rightarrow> c @ bs) fs"

definition fgetc :: "stream \<Rightarrow> byte \<times> stream" where
  "fgetc st = (if st_bad st = Some (st_pos st) then (0xFF, st\<lparr>st_err := True\<rparr>)
     else if st_pos st < length (st_content st) then (st_content st ! st_pos st, st\<lparr>st_pos := Suc (st_pos st)\<rparr>)
     else (0xFF, st\<lparr>st_eof := True\<rparr>))"

text \<open>The bytes that can be read from a stream, and \<open>fread\<close> of at most \<open>n\<close> of them.\<close>

definition delivered :: "stream \<Rightarrow> bytes" where
  "delivered st = (case st_bad st of None \<Rightarrow> drop (st_pos st) (st_content st)
     | Some b \<Rightarrow> take (b - st_pos st) (drop (st_pos st) (st_content st)))"

definition at_bad :: "stream \<Rightarrow> bool" where
  "at_bad st \<longleftrightarrow> (case st_bad st of None \<Rightarrow> False | Some b \<Rightarrow> b \<le> length (st_content st))"

definition fread :: "nat \<Rightarrow> stream \<Rightarrow> bytes \<times> stream" where
  "fread n st = (let bs = take n (delivered st); st = st\<lparr>st_pos := st_pos st + length bs\<rparr> in
     if length bs = n then (bs, st)
     else if at_bad st then (bs, st\<lparr>st_err := True\<rparr>)
     else (bs, st\<lparr>st_eof := True\<rparr>))"

text \<open>\<open>sprintf\<close> with the format \<open>%ld\<close>.\<close>

fun dec :: "nat \<Rightarrow> bytes" where
  "dec n = (if n < 10 then [of_nat (48 + n)] else dec (n div 10) @ [of_nat (48 + n mod 10)])"

declare dec.simps [simp del]

definition dec_long :: "64 word \<Rightarrow> bytes" where
  "dec_long w = (if sint w < 0 then of_char CHR ''-'' # dec (nat (- sint w)) else dec (nat (sint w)))"

subsection \<open>filesystem.c\<close>

record FileInfo =
  fi_file :: stream
  file_size :: size_t
  file_size_str :: bytes

definition get_file_size :: "stream \<Rightarrow> size_t \<times> stream" where
  "get_file_size f = (of_nat (length (st_content f)), f\<lparr>st_pos := 0, st_eof := False\<rparr>)"

text \<open>\<open>sprintf\<close> into the 64 bytes of \<open>file_size_str\<close>.\<close>

definition sprintf_size :: "bytes \<Rightarrow> fault + bytes" where
  "sprintf_size digits = memcpy_to (replicate 64 0) 0 (digits @ [10, 0])"

definition open_file :: "bool \<Rightarrow> file_system \<Rightarrow> bytes \<Rightarrow> fault + FileInfo option" where
  "open_file mem_ok fs file_path =
     bindc (guardc NullDeref mem_ok) (\<lambda>_.
     case fopen_r fs file_path of None \<Rightarrow> Inr None
     | Some f \<Rightarrow>
         let (sz, f) = get_file_size f in
         bindc (sprintf_size (dec_long sz)) (\<lambda>s.
         Inr (Some \<lparr>fi_file = f, file_size = sz, file_size_str = s\<rparr>)))"

definition create_file :: "bool \<Rightarrow> file_system \<Rightarrow> bytes \<Rightarrow> fault + (bytes option \<times> file_system)" where
  "create_file mem_ok fs file_path =
     bindc (guardc NullDeref mem_ok) (\<lambda>_.
     case fopen_w fs file_path of None \<Rightarrow> Inr (None, fs)
     | Some fs \<Rightarrow> bindc (sprintf_size (dec_long 0)) (\<lambda>s. Inr (Some s, fs)))"

definition close_file :: "FileInfo option \<Rightarrow> fault + unit" where
  "close_file file_info = guardc NullDeref (file_info \<noteq> None)"

definition check_dir :: "file_system \<Rightarrow> bytes \<Rightarrow> bool" where
  "check_dir fs dir_path \<longleftrightarrow> dir_path \<in> dirs fs"

definition create_dir :: "bytes option \<Rightarrow> file_system \<Rightarrow> file_system" where
  "create_dir full_path fs = (case full_path of None \<Rightarrow> fs
     | Some p \<Rightarrow> if mkdir_ok fs p \<and> p \<notin> dirs fs \<and> files fs p = None then fs\<lparr>dirs := insert p (dirs fs)\<rparr> else fs)"

text \<open>
  The loop of \<open>copy_file\<close>, one byte per round; \<open>fuel\<close> bounds the rounds. The result is the number of
  bytes that are left in the buffer, the buffer, and the file system.
\<close>

fun copy_loop :: "nat \<Rightarrow> bytes \<Rightarrow> stream \<Rightarrow> nat \<Rightarrow> bytes \<Rightarrow> file_system \<Rightarrow> fault + (nat \<times> bytes \<times> file_system)" where
  "copy_loop fuel dest st index buf fs =
     (if st_eof st then Inr (index, buf, fs)
      else if st_err st then Inr (index, buf, fs)
      else case fuel of 0 \<Rightarrow> Inl Blocked
      | Suc fuel \<Rightarrow>
          let (c, st) = fgetc st in
          bindc (store_at buf index c) (\<lambda>buf.
          let index = Suc index in
          if index = PAGESIZE
          then copy_loop fuel dest st 0 (replicate PAGESIZE 0) (fwrite dest (take PAGESIZE buf) fs)
          else copy_loop fuel dest st index buf fs))"

declare copy_loop.simps [simp del]

definition copy_file :: "nat \<Rightarrow> file_system \<Rightarrow> bytes \<Rightarrow> bytes \<Rightarrow> fault + file_system" where
  "copy_file fuel fs dest_file src_file =
     (case fopen_r fs src_file of None \<Rightarrow> Inr fs
      | Some src_f \<Rightarrow> (case fopen_w fs dest_file of None \<Rightarrow> Inr fs
        | Some fs \<Rightarrow>
            bindc (copy_loop fuel dest_file src_f 0 (replicate PAGESIZE 0) fs) (\<lambda>(index, buf, fs).
            if 1 < index then bindc (memcpy_from buf 0 (index - 1)) (\<lambda>bs. Inr (fwrite dest_file bs fs))
            else Inr fs)))"

fun copy_new_loop :: "nat \<Rightarrow> bytes \<Rightarrow> stream \<Rightarrow> file_system \<Rightarrow> fault + file_system" where
  "copy_new_loop fuel dest st fs =
     (if st_eof st then Inr fs
      else if st_err st then Inr fs
      else case fuel of 0 \<Rightarrow> Inl Blocked
      | Suc fuel \<Rightarrow>
          let (bs, st) = fread PAGESIZE st in
          copy_new_loop fuel dest st (fwrite dest bs fs))"

declare copy_new_loop.simps [simp del]

definition copy_file_new :: "nat \<Rightarrow> file_system \<Rightarrow> bytes \<Rightarrow> bytes \<Rightarrow> fault + file_system" where
  "copy_file_new fuel fs dest_file src_file =
     (case fopen_r fs src_file of None \<Rightarrow> Inr fs
      | Some src_f \<Rightarrow> (case fopen_w fs dest_file of None \<Rightarrow> Inr fs
        | Some fs \<Rightarrow> copy_new_loop fuel dest_file src_f fs))"

definition delete_file :: "bytes \<Rightarrow> file_system \<Rightarrow> file_system" where
  "delete_file file_name fs = fs\<lparr>files := (files fs)(file_name := None)\<rparr>"

text \<open>\<open>snprintf\<close> with the format \<open>%s/%s\<close> into a buffer of \<open>PATH_SIZE\<close> bytes.\<close>

definition join_path :: "bytes \<Rightarrow> bytes \<Rightarrow> bytes" where
  "join_path dir name = take (PATH_SIZE - 1) (dir @ of_char CHR ''/'' # name)"

definition move_file :: "nat \<Rightarrow> bytes \<Rightarrow> bytes \<Rightarrow> bytes \<Rightarrow> file_system \<Rightarrow> fault + file_system" where
  "move_file fuel dest_dir_path src_dir_path file_name fs =
     (let new_file_path = join_path dest_dir_path file_name;
          old_file_path = join_path src_dir_path file_name in
      bindc (copy_file fuel fs new_file_path old_file_path) (\<lambda>fs.
      Inr (delete_file old_file_path fs)))"

text \<open>\<open>entries\<close> are the names that \<open>readdir\<close> returns, one after the other.\<close>

fun move_loop :: "nat \<Rightarrow> bytes \<Rightarrow> bytes \<Rightarrow> bytes \<Rightarrow> nat \<Rightarrow> bytes list \<Rightarrow> file_system \<Rightarrow> fault + file_system" where
  "move_loop fuel src dest pattern char_cnt [] fs = Inr fs"
| "move_loop fuel src dest pattern char_cnt (d_name # entries) fs =
     bindc (strncmp (d_name @ [0]) (pattern @ [0]) char_cnt) (\<lambda>c.
     bindc (if c = 0 then move_file fuel dest src d_name fs else Inr fs) (\<lambda>fs.
     move_loop fuel src dest pattern char_cnt entries fs))"

definition move_files_to_dir ::
    "nat \<Rightarrow> bytes list \<Rightarrow> bytes \<Rightarrow> bytes \<Rightarrow> bytes \<Rightarrow> nat \<Rightarrow> file_system \<Rightarrow> fault + file_system" where
  "move_files_to_dir fuel entries src_dir_path dest_dir_path pattern char_cnt fs =
     (if src_dir_path \<notin> dirs fs then Inr fs
      else move_loop fuel src_dir_path dest_dir_path pattern char_cnt entries fs)"

lemma put_file_simps [simp]:
  "files (put_file p c fs) = (files fs)(p \<mapsto> c)"
  "dirs (put_file p c fs) = dirs fs" "writable (put_file p c fs) = writable fs"
  "mkdir_ok (put_file p c fs) = mkdir_ok fs" "bad_at (put_file p c fs) = bad_at fs"
  "put_file p c (put_file p c' fs) = put_file p c fs"
  by (simp_all add: put_file_def)

lemma put_file_idem: "files fs p = Some c \<Longrightarrow> put_file p c fs = fs"
  by (simp add: put_file_def fun_upd_idem)

subsection \<open>Decimal numbers\<close>

lemma dec_length: "n < 10 ^ k \<Longrightarrow> 0 < k \<Longrightarrow> length (dec n) \<le> k"
proof (induction k arbitrary: n)
  case (Suc k)
  show ?case
  proof (cases "n < 10")
    case True
    then show ?thesis by (simp add: dec.simps)
  next
    case False
    then have "0 < k"
      using Suc.prems(1) by (cases k) auto
    moreover have "n div 10 < 10 ^ k"
      using Suc.prems(1) by (simp add: less_mult_imp_div_less mult.commute)
    ultimately show ?thesis
      using False Suc.IH [of "n div 10"] by (subst dec.simps) simp
  qed
qed simp

lemma digit_not_0: "k < 10 \<Longrightarrow> (of_nat (48 + k) :: byte) \<noteq> 0"
  unfolding word_of_nat_eq_0_iff by (auto dest: dvd_imp_le)

lemma dec_no_0: "0 \<notin> set (dec n)"
proof (induction n rule: less_induct)
  case (less n)
  then show ?case
    using digit_not_0 [of n] digit_not_0 [of "n mod 10"] by (subst dec.simps) (auto simp del: of_nat_add)
qed

lemma dec_long_no_0: "0 \<notin> set (dec_long w)"
  by (simp add: dec_long_def dec_no_0)

lemma dec_long_length: "length (dec_long w) \<le> 20"
proof -
  have "- (2 ^ 63) \<le> sint w" and "sint w < 2 ^ 63"
    using sint_ge [of w] sint_lt [of w] by simp_all
  then have "nat (- sint w) < 10 ^ 19" and "nat (sint w) < 10 ^ 19"
    by auto
  then show ?thesis
    using dec_length [of "nat (- sint w)" 19] dec_length [of "nat (sint w)" 19] by (auto simp: dec_long_def)
qed

lemma sprintf_text:
  assumes "0 \<notin> set s" and "length s < length buf"
  shows "bindc (memcpy_to buf 0 (s @ [0])) (\<lambda>buf. Inr (c_str buf)) = Inr s"
  using assms by (simp add: memcpy_to_def write_at_def)

subsection \<open>Streams\<close>

definition fresh_stream :: "stream \<Rightarrow> bool" where
  "fresh_stream st \<longleftrightarrow> \<not> st_eof st \<and> \<not> st_err st \<and> st_pos st \<le> length (st_content st) \<and>
     (\<forall>b. st_bad st = Some b \<longrightarrow> st_pos st \<le> b)"

lemma fgetc_last:
  assumes "fresh_stream st" and "delivered st = []"
  shows "fst (fgetc st) = 0xFF" and "st_eof (snd (fgetc st)) \<or> st_err (snd (fgetc st))"
proof -
  have "st_bad st = Some (st_pos st) \<or> length (st_content st) \<le> st_pos st"
    using assms by (auto simp: fresh_stream_def delivered_def split: option.splits)
  then show "fst (fgetc st) = 0xFF" and "st_eof (snd (fgetc st)) \<or> st_err (snd (fgetc st))"
    by (auto simp: fgetc_def)
qed

lemma fgetc_next:
  assumes "fresh_stream st" and "delivered st = c # rest"
  shows "fst (fgetc st) = c" and "fresh_stream (snd (fgetc st))" and "delivered (snd (fgetc st)) = rest"
proof -
  have lt: "st_pos st < length (st_content st)" "st_bad st \<noteq> Some (st_pos st)"
    using assms by (cases "st_pos st < length (st_content st)"; auto simp: delivered_def split: option.splits)+
  then have d: "drop (st_pos st) (st_content st) = st_content st ! st_pos st # drop (Suc (st_pos st)) (st_content st)"
    by (simp add: Cons_nth_drop_Suc)
  show "fst (fgetc st) = c"
    using assms lt d by (auto simp: fgetc_def fresh_stream_def delivered_def take_Cons' split: option.splits if_splits)
  show "fresh_stream (snd (fgetc st))"
    using assms(1) lt by (auto simp: fgetc_def fresh_stream_def nat_less_le split: option.splits)
  show "delivered (snd (fgetc st)) = rest"
    using assms lt d by (auto simp: fgetc_def fresh_stream_def delivered_def take_Cons' split: option.splits if_splits)
qed

lemma fread_eq:
  assumes "fresh_stream st" and "fread n st = (bs, st')"
  shows "bs = take n (delivered st)"
    and "if length bs = n then fresh_stream st' \<and> delivered st' = drop n (delivered st) else st_eof st' \<or> st_err st'"
proof -
  show bs: "bs = take n (delivered st)"
    using assms(2) by (auto simp: fread_def Let_def split: if_splits)
  have "fresh_stream st' \<and> delivered st' = drop n (delivered st)" if "length bs = n"
  proof -
    have st': "st' = st\<lparr>st_pos := st_pos st + n\<rparr>" and n: "n \<le> length (delivered st)"
      using assms(2) that by (auto simp: fread_def Let_def split: if_splits)
    then show ?thesis
      using assms(1) by (auto simp: fresh_stream_def delivered_def drop_take ac_simps split: option.splits)
  qed
  then show "if length bs = n then fresh_stream st' \<and> delivered st' = drop n (delivered st) else st_eof st' \<or> st_err st'"
    using assms(2) by (auto simp: fread_def Let_def split: if_splits)
qed

lemma fopen_fresh:
  assumes "fopen_r fs p = Some st"
  shows "fresh_stream st" and "files fs p = Some (st_content st)" and "bad_at fs p = None \<Longrightarrow> delivered st = st_content st"
  using assms by (auto simp: fopen_r_def fresh_stream_def delivered_def split: option.splits)

lemma fwrite_Some: "files fs p = Some c \<Longrightarrow> fwrite p bs fs = put_file p (c @ bs) fs"
  by (simp add: fwrite_def)

subsection \<open>Copying\<close>

lemma PAGESIZE_pos: "0 < PAGESIZE"
  by (simp add: PAGESIZE_def)

lemma copy_loop_done:
  "st_eof st \<or> st_err st \<Longrightarrow> copy_loop fuel dest st index buf fs = Inr (index, buf, fs)"
  by (subst copy_loop.simps) auto

lemma copy_loop_step:
  assumes "fresh_stream st" and "index < PAGESIZE" and "length buf = PAGESIZE"
  shows "copy_loop (Suc fuel) dest st index buf fs =
    (if Suc index = PAGESIZE
     then copy_loop fuel dest (snd (fgetc st)) 0 (replicate PAGESIZE 0) (fwrite dest (take index buf @ [fst (fgetc st)]) fs)
     else copy_loop fuel dest (snd (fgetc st)) (Suc index) (buf[index := fst (fgetc st)]) fs)"
proof -
  have "take PAGESIZE (buf[index := c]) = take index buf @ [c]" if "Suc index = PAGESIZE" for c
    using assms(2,3) that by (simp add: upd_conv_take_nth_drop)
  then show ?thesis
    using assms by (subst copy_loop.simps) (auto simp: fresh_stream_def store_at_def split: prod.splits)
qed

text \<open>The loop moves all bytes, and the byte of the end of the file after them.\<close>

lemma copy_loop_spec:
  assumes "fresh_stream st" and "delivered st = rest" and "length rest < fuel" and "index < PAGESIZE" and "length buf = PAGESIZE"
    and "files fs dest = Some out"
  shows "\<exists>index' buf' out'. copy_loop fuel dest st index buf fs = Inr (index', buf', put_file dest out' fs) \<and>
    index' < PAGESIZE \<and> length buf' = PAGESIZE \<and> out' @ take index' buf' = out @ take index buf @ rest @ [0xFF] \<and>
    index' = (index + length rest + 1) mod PAGESIZE"
  using assms
proof (induction rest arbitrary: st fuel index buf fs out)
  case Nil
  then obtain f where f: "fuel = Suc f"
    by (cases fuel) auto
  note st = fgetc_last [OF Nil(1,2)]
  show ?case
  proof (cases "Suc index = PAGESIZE")
    case True
    then show ?thesis
      using copy_loop_step [OF Nil(1,4,5), of f dest fs] st copy_loop_done [OF st(2)] f Nil.prems(6) PAGESIZE_pos
      by (rule_tac x = 0 in exI, rule_tac x = "replicate PAGESIZE 0" in exI, rule_tac x = "out @ take index buf @ [0xFF]" in exI)
        (simp add: fwrite_Some)
  next
    case False
    then have "Suc index < PAGESIZE"
      using Nil.prems(4) by simp
    then show ?thesis
      using copy_loop_step [OF Nil(1,4,5), of f dest fs] st copy_loop_done [OF st(2)] f Nil.prems(4-6) False
      by (rule_tac x = "Suc index" in exI, rule_tac x = "buf[index := 0xFF]" in exI, rule_tac x = out in exI)
        (simp add: take_Suc_conv_app_nth put_file_idem)
  qed
next
  case (Cons c rest)
  then obtain f where f: "fuel = Suc f" "length rest < f"
    by (cases fuel) auto
  note st = fgetc_next [OF Cons.prems(1,2)]
  show ?case
  proof (cases "Suc index = PAGESIZE")
    case True
    let ?fs = "put_file dest (out @ take index buf @ [c]) fs"
    have "(index + length (c # rest) + 1) mod PAGESIZE = (0 + length rest + 1) mod PAGESIZE"
      using True by (metis (no_types) add.assoc add.commute add_Suc_right list.size(4) mod_add_self1 plus_1_eq_Suc add_0)
    then show ?thesis
      using Cons.IH [OF st(2,3) f(2), of 0 "replicate PAGESIZE 0" ?fs "out @ take index buf @ [c]"]
        copy_loop_step [OF Cons.prems(1,4,5), of f dest fs] st(1) f(1) True Cons.prems(6) PAGESIZE_pos
      by (simp add: fwrite_Some)
  next
    case False
    then have "Suc index < PAGESIZE"
      using Cons.prems(4) by simp
    then show ?thesis
      using Cons.IH [OF st(2,3) f(2), of "Suc index" "buf[index := c]" fs out] Cons.prems(4-6)
        copy_loop_step [OF Cons.prems(1,4,5), of f dest fs] st(1) f(1) False
      by (simp add: take_Suc_conv_app_nth)
  qed
qed


lemma take_init: "out @ take n buf = xs @ [x] \<Longrightarrow> 0 < n \<Longrightarrow> n \<le> length buf \<Longrightarrow> out @ take (n - 1) buf = xs"
  by (cases n) (auto simp: take_Suc_conv_app_nth)

text \<open>The byte that \<open>copy_file\<close> adds when the end of the file falls on the last place of the buffer.\<close>

definition copied :: "bytes \<Rightarrow> bytes" where
  "copied c = c @ (if length c mod PAGESIZE = PAGESIZE - 1 then [0xFF] else [])"

lemma copy_file_spec:
  assumes "files fs src = Some c" and "bad_at fs src = None" and "writable fs dest" and "length c < fuel"
  shows "copy_file fuel fs dest src = Inr (put_file dest (copied c) fs)"
proof -
  let ?fs = "put_file dest [] fs"
  obtain st where st: "fopen_r fs src = Some st" "delivered st = c"
    using assms(1,2) fopen_fresh by (fastforce simp: fopen_r_def delivered_def)
  obtain n buf out where n: "copy_loop fuel dest st 0 (replicate PAGESIZE 0) ?fs = Inr (n, buf, put_file dest out ?fs)"
      "n < PAGESIZE" "length buf = PAGESIZE" "out @ take n buf = c @ [0xFF]" "n = (length c + 1) mod PAGESIZE"
    using copy_loop_spec [OF fopen_fresh(1) [OF st(1)] st(2) assms(4) PAGESIZE_pos, of "replicate PAGESIZE 0" ?fs dest "[]"] by auto
  have run: "copy_file fuel fs dest src = Inr (put_file dest (if 1 < n then out @ take (n - 1) buf else out) fs)"
    using st(1) n(1,3) less_imp_le [OF n(2)] assms(3) by (auto simp: copy_file_def fopen_w_def memcpy_from_def fwrite_Some)
  have "(length c + 1) mod PAGESIZE = 0 \<longleftrightarrow> length c mod PAGESIZE = PAGESIZE - 1"
    using PAGESIZE_pos by (simp add: mod_Suc) linarith
  then have "(if 1 < n then out @ take (n - 1) buf else out) = copied c"
    using n take_init [OF n(4)] by (cases "n = 0"; cases "n = 1") (auto simp: copied_def)
  then show ?thesis
    using run by simp
qed

lemma copy_new_loop_spec:
  assumes "fresh_stream st" and "files fs dest = Some out" and "length (delivered st) < fuel * PAGESIZE"
  shows "copy_new_loop fuel dest st fs = Inr (put_file dest (out @ delivered st) fs)"
  using assms
proof (induction fuel arbitrary: st fs out)
  case (Suc fuel)
  obtain bs st' where r: "fread PAGESIZE st = (bs, st')"
    by (cases "fread PAGESIZE st")
  note bs = fread_eq [OF Suc.prems(1) r]
  let ?fs = "put_file dest (out @ bs) fs"
  have step: "copy_new_loop (Suc fuel) dest st fs = copy_new_loop fuel dest st' ?fs"
    using Suc.prems(1,2) r by (subst copy_new_loop.simps) (simp add: fresh_stream_def fwrite_Some)
  show ?case
  proof (cases "length bs = PAGESIZE")
    case True
    then have st': "fresh_stream st'" "delivered st' = drop PAGESIZE (delivered st)"
      using bs(2) by simp_all
    then have "length (delivered st') < fuel * PAGESIZE"
      using Suc.prems(3) PAGESIZE_pos True bs(1) by auto
    then show ?thesis
      using Suc.IH [OF st'(1), of ?fs "out @ bs"] step st'(2) bs(1) by simp
  next
    case False
    then have "copy_new_loop fuel dest st' ?fs = Inr ?fs"
      using bs(2) by (subst copy_new_loop.simps) auto
    moreover have "bs = delivered st"
      using bs(1) False by simp
    ultimately show ?thesis
      using step by simp
  qed
qed simp

subsection \<open>Moving\<close>

lemma move_file_spec:
  assumes "files fs (join_path src name) = Some c" and "bad_at fs (join_path src name) = None"
    and "writable fs (join_path dest name)" and "length c < fuel"
  shows "move_file fuel dest src name fs =
    Inr (delete_file (join_path src name) (put_file (join_path dest name) (copied c) fs))"
  using copy_file_spec [OF assms] by (simp add: move_file_def)

lemma join_path_inj:
  assumes "length dir + length n + 1 < PATH_SIZE" "length dir + length n' + 1 < PATH_SIZE" "join_path dir n = join_path dir n'"
  shows "n = n'"
  using assms by (simp add: join_path_def)


text \<open>The names that the loop of \<open>move_files_to_dir\<close> picks.\<close>

definition picked :: "bytes \<Rightarrow> nat \<Rightarrow> bytes list \<Rightarrow> bytes list" where
  "picked pattern n entries = filter (\<lambda>e. take n e = take n pattern) entries"

lemma strncmp_picks:
  assumes "0 \<notin> set e" and "0 \<notin> set pattern"
  obtains c where "strncmp (e @ [0]) (pattern @ [0]) n = Inr c" and "c = 0 \<longleftrightarrow> take n e = take n pattern"
proof -
  obtain c where "strncmp (e @ [0]) (pattern @ [0]) n = Inr c"
    using strncmp_ends [of "e @ [0]" "pattern @ [0]" n] by auto
  then show thesis
    using that strncmp_0_iff [OF assms, of "[]" "[]" n] by auto
qed

lemma move_loop_spec:
  assumes "0 \<notin> set pattern" and "\<And>e. e \<in> set entries \<Longrightarrow> 0 \<notin> set e"
    and "distinct (picked pattern n entries)"
    and "\<And>e. e \<in> set (picked pattern n entries) \<Longrightarrow> \<exists>c. files fs (join_path src e) = Some c \<and> length c < fuel \<and>
      bad_at fs (join_path src e) = None \<and> writable fs (join_path dest e)"
    and "inj_on (join_path dest) (set (picked pattern n entries))" and "inj_on (join_path src) (set (picked pattern n entries))"
    and "join_path dest ` set (picked pattern n entries) \<inter> join_path src ` set (picked pattern n entries) = {}"
  shows "\<exists>fs'. move_loop fuel src dest pattern n entries fs = Inr fs' \<and>
    (\<forall>e \<in> set (picked pattern n entries). files fs' (join_path src e) = None \<and>
      files fs' (join_path dest e) = Some (copied (the (files fs (join_path src e))))) \<and>
    (\<forall>p. p \<notin> join_path dest ` set (picked pattern n entries) \<and> p \<notin> join_path src ` set (picked pattern n entries) \<longrightarrow>
      files fs' p = files fs p)"
  using assms(2-)
proof (induction entries arbitrary: fs)
  case (Cons e entries)
  have e: "0 \<notin> set e"
    using Cons.prems(1) by simp
  show ?case
  proof (cases "take n e = take n pattern")
    case False
    then have "picked pattern n (e # entries) = picked pattern n entries"
      by (simp add: picked_def)
    moreover have "move_loop fuel src dest pattern n (e # entries) fs = move_loop fuel src dest pattern n entries fs"
      using strncmp_picks [OF e assms(1), of n] False by force
    ultimately show ?thesis
      using Cons.IH [of fs] Cons.prems by simp
  next
    case True
    let ?M = "picked pattern n entries"
    have M: "picked pattern n (e # entries) = e # ?M"
      using True by (simp add: picked_def)
    obtain c where c: "files fs (join_path src e) = Some c" "length c < fuel" "bad_at fs (join_path src e) = None"
        "writable fs (join_path dest e)"
      using Cons.prems(3) M by auto
    let ?fs = "delete_file (join_path src e) (put_file (join_path dest e) (copied c) fs)"
    have new: "files ?fs p = files fs p" if "p \<noteq> join_path dest e" "p \<noteq> join_path src e" for p
      using that by (simp add: delete_file_def)
    have other: "join_path src x \<noteq> join_path src e" "join_path src x \<noteq> join_path dest e"
        "join_path dest x \<noteq> join_path dest e" "join_path dest x \<noteq> join_path src e" if "x \<in> set ?M" for x
    proof -
      note dj = Cons.prems(2,4-6) [unfolded M list.set]
      have "x \<noteq> e"
        using dj(1) that by auto
      then show "join_path src x \<noteq> join_path src e" "join_path dest x \<noteq> join_path dest e"
        using inj_on_eq_iff [OF dj(3), of x e] inj_on_eq_iff [OF dj(2), of x e] that by simp_all
      show "join_path src x \<noteq> join_path dest e" "join_path dest x \<noteq> join_path src e"
        using dj(4) that by (metis IntI empty_iff imageI insertI1 insertI2)+
    qed
    have old: "files ?fs (join_path src x) = files fs (join_path src x)" if "x \<in> set ?M" for x
      using new other that by auto
    have run: "move_loop fuel src dest pattern n (e # entries) fs = move_loop fuel src dest pattern n entries ?fs"
      using strncmp_picks [OF e assms(1), of n] True move_file_spec [OF c(1,3,4,2)] by force
    have "\<exists>fs'. move_loop fuel src dest pattern n entries ?fs = Inr fs' \<and>
      (\<forall>e \<in> set ?M. files fs' (join_path src e) = None \<and>
        files fs' (join_path dest e) = Some (copied (the (files ?fs (join_path src e))))) \<and>
      (\<forall>p. p \<notin> join_path dest ` set ?M \<and> p \<notin> join_path src ` set ?M \<longrightarrow> files fs' p = files ?fs p)"
    proof (rule Cons.IH)
      show "\<exists>c. files ?fs (join_path src x) = Some c \<and> length c < fuel \<and> bad_at ?fs (join_path src x) = None \<and>
          writable ?fs (join_path dest x)" if "x \<in> set ?M" for x
        using Cons.prems(3) [of x] old [OF that] that M by (simp add: delete_file_def)
    qed (use Cons.prems M in auto)
    then obtain fs' where fs': "move_loop fuel src dest pattern n entries ?fs = Inr fs'"
        "\<And>x. x \<in> set ?M \<Longrightarrow> files fs' (join_path src x) = None \<and>
          files fs' (join_path dest x) = Some (copied (the (files fs (join_path src x))))"
        "\<And>p. p \<notin> join_path dest ` set ?M \<Longrightarrow> p \<notin> join_path src ` set ?M \<Longrightarrow> files fs' p = files ?fs p"
      using old by auto
    have "files fs' (join_path src e) = None" "files fs' (join_path dest e) = Some (copied c)"
      using fs'(3) [of "join_path src e"] fs'(3) [of "join_path dest e"] other Cons.prems(6) M
      by (force simp: delete_file_def)+
    then show ?thesis
      using run fs' c(1) new M by (intro exI [of _ fs']) auto
  qed
qed (simp add: picked_def)

subsection \<open>Properties\<close>


definition one_file :: "bytes \<Rightarrow> bytes \<Rightarrow> file_system" where
  "one_file p c = \<lparr>files = [p \<mapsto> c], dirs = {}, writable = (\<lambda>_. True), mkdir_ok = (\<lambda>_. True), bad_at = (\<lambda>_. None)\<rparr>"

definition almost_page :: bytes where
  "almost_page = replicate 4095 65"

lemma length_almost_page: "length almost_page = 4095"
  unfolding almost_page_def by (rule length_replicate)






end
