(* ===== verification/Net.thy ===== *)
theory Net
  imports File_System
begin

text \<open>
  Sending files over a connection (\<open>fileserver/net.c\<close>).

  A socket knows what the peer has sent and what was sent to it. \<open>sk_net i\<close> is the outcome of the
  \<open>i\<close>-th call of \<open>send\<close>: \<open>None\<close> for an error, otherwise the number of bytes the network accepts. \<open>get_file\<close>
  is not complete in the source (the condition of its loop is missing), so it is not modelled.
\<close>

subsection \<open>Sockets\<close>

record sock =
  sk_in :: "bytes list"
  sk_out :: bytes
  sk_calls :: nat
  sk_net :: "nat \<Rightarrow> nat option"

definition send :: "bytes \<Rightarrow> sock \<Rightarrow> int \<times> sock" where
  "send bs sk = (case sk_net sk (sk_calls sk) of
     None \<Rightarrow> (- 1, sk\<lparr>sk_calls := Suc (sk_calls sk)\<rparr>)
   | Some k \<Rightarrow> (int (min k (length bs)), sk\<lparr>sk_calls := Suc (sk_calls sk), sk_out := sk_out sk @ take k bs\<rparr>))"

text \<open>\<open>recv\<close> and \<open>read\<close> into a buffer that was set to zero; nothing arrives when the peer has closed.\<close>

definition recv :: "nat \<Rightarrow> sock \<Rightarrow> bytes \<times> sock" where
  "recv n sk = (case sk_in sk of [] \<Rightarrow> (replicate n 0, sk)
     | m # ms \<Rightarrow> (take n m @ replicate (n - length m) 0,
         sk\<lparr>sk_in := (if n < length m then drop n m # ms else ms)\<rparr>))"

record sockaddr_in =
  sin_family :: "16 word"
  sin_port :: "16 word"
  sin_addr :: "32 word"

subsection \<open>net.c\<close>

definition htons :: "16 word \<Rightarrow> 16 word" where
  "htons w = or (push_bit 8 w) (drop_bit 8 w)"

text \<open>\<open>inet_aton\<close> leaves the address alone when the text is no address; its result is not tested.\<close>

definition init_addr_ipinet :: "(bytes \<Rightarrow> 32 word option) \<Rightarrow> bytes \<Rightarrow> 32 word \<Rightarrow> sockaddr_in \<Rightarrow> sockaddr_in" where
  "init_addr_ipinet inet_aton ip port addr =
     addr\<lparr>sin_addr := (case inet_aton ip of None \<Rightarrow> sin_addr addr | Some a \<Rightarrow> a),
       sin_port := htons (ucast port), sin_family := 2\<rparr>"

definition create_server ::
    "(bytes \<Rightarrow> 32 word option) \<Rightarrow> 32 word \<Rightarrow> (32 word \<Rightarrow> sockaddr_in \<Rightarrow> bool) \<Rightarrow> sockaddr_in \<Rightarrow> bytes \<Rightarrow> 32 word \<Rightarrow> 32 word" where
  "create_server inet_aton server_sock bind local ip_address port =
     (let local = init_addr_ipinet inet_aton ip_address port local in
      if \<not> bind server_sock local then - 1 else server_sock)"

abbreviation ERR_MSG1 :: bytes where "ERR_MSG1 \<equiv> lit ''Can not open file\<newline>''"
abbreviation OK_MSG :: bytes where "OK_MSG \<equiv> lit ''OK\<newline>''"

text \<open>The loop of \<open>send_file_old\<close>; the flag tells whether it was left by the return after a failed \<open>send\<close>.\<close>

fun send_old_loop :: "nat \<Rightarrow> stream \<Rightarrow> nat \<Rightarrow> bytes \<Rightarrow> sock \<Rightarrow> fault + (bool \<times> nat \<times> bytes \<times> sock)" where
  "send_old_loop fuel st index buf sk =
     (if st_eof st then Inr (False, index, buf, sk)
      else if st_err st then Inr (False, index, buf, sk)
      else case fuel of 0 \<Rightarrow> Inl Blocked
      | Suc fuel \<Rightarrow>
          let (c, st) = fgetc st in
          bindc (store_at buf index c) (\<lambda>buf.
          let index = Suc index in
          if index = PAGESIZE then
            let (send_cnt, sk) = send (take PAGESIZE buf) sk in
            if send_cnt = - 1 then Inr (True, index, buf, sk)
            else send_old_loop fuel st 0 (replicate PAGESIZE 0) sk
          else send_old_loop fuel st index buf sk))"

declare send_old_loop.simps [simp del]

definition send_file_old :: "bool \<Rightarrow> nat \<Rightarrow> file_system \<Rightarrow> bytes \<Rightarrow> sock \<Rightarrow> fault + sock" where
  "send_file_old mem_ok fuel fs file_path sk =
     bindc (open_file mem_ok fs file_path) (\<lambda>file_info.
     case file_info of
       None \<Rightarrow>
         let (send_cnt, sk) = send ERR_MSG1 sk in
         if send_cnt = - 1 then bindc (close_file None) (\<lambda>_. Inr sk) else Inr sk
     | Some fi \<Rightarrow>
         let (send_cnt, sk) = send OK_MSG sk in
         if send_cnt = - 1 then bindc (close_file (Some fi)) (\<lambda>_. Inr sk)
         else
           let (resp, sk) = recv PAGESIZE sk in
           bindc (strncmp resp (lit ''STOP\<newline>'') 4) (\<lambda>c.
           if c = 0 then Inr sk
           else
             let (send_cnt, sk) = send (c_str (file_size_str fi)) sk in
             if send_cnt = - 1 then bindc (close_file (Some fi)) (\<lambda>_. Inr sk)
             else
               bindc (send_old_loop fuel (fi_file fi) 0 (replicate PAGESIZE 0) sk) (\<lambda>(closed, index, buf, sk).
               if closed then bindc (close_file (Some fi)) (\<lambda>_. Inr sk)
               else if 1 < index then
                 bindc (memcpy_from buf 0 (index - 1)) (\<lambda>bs.
                 let (send_cnt, sk) = send bs sk in
                 bindc (close_file (Some fi)) (\<lambda>_. Inr sk))
               else bindc (close_file (Some fi)) (\<lambda>_. Inr sk))))"

text \<open>The loop of \<open>send_file\<close>; the flag tells whether it goes to \<open>error_exit\<close>.\<close>

fun send_loop :: "nat \<Rightarrow> stream \<Rightarrow> sock \<Rightarrow> fault + (bool \<times> sock)" where
  "send_loop fuel st sk =
     (if st_eof st then Inr (False, sk)
      else if st_err st then Inr (True, sk)
      else case fuel of 0 \<Rightarrow> Inl Blocked
      | Suc fuel \<Rightarrow>
          let (bs, st) = fread PAGESIZE st; (send_cnt, sk) = send bs sk in
          if send_cnt = - 1 then Inr (True, sk) else send_loop fuel st sk)"

declare send_loop.simps [simp del]

definition send_file :: "bool \<Rightarrow> nat \<Rightarrow> file_system \<Rightarrow> bytes \<Rightarrow> sock \<Rightarrow> fault + sock" where
  "send_file mem_ok fuel fs file_path sk =
     bindc (open_file mem_ok fs file_path) (\<lambda>file_info.
     case file_info of
       None \<Rightarrow>
         let (send_cnt, sk) = send ERR_MSG1 sk in
         bindc (close_file None) (\<lambda>_. Inr sk)
     | Some fi \<Rightarrow>
         let (send_cnt, sk) = send OK_MSG sk in
         if send_cnt = - 1 then bindc (close_file (Some fi)) (\<lambda>_. Inr sk)
         else
           let (resp, sk) = recv PAGESIZE sk in
           bindc (strncmp resp (lit ''STOP\<newline>'') 4) (\<lambda>c.
           if c = 0 then bindc (close_file (Some fi)) (\<lambda>_. Inr sk)
           else
             let (send_cnt, sk) = send (c_str (file_size_str fi)) sk in
             if send_cnt = - 1 then bindc (close_file (Some fi)) (\<lambda>_. Inr sk)
             else
               bindc (send_loop fuel (fi_file fi) sk) (\<lambda>(failed, sk).
               bindc (close_file (Some fi)) (\<lambda>_. Inr sk))))"

subsection \<open>What arrives at the peer\<close>

text \<open>A reliable connection: every call of \<open>send\<close> takes all bytes.\<close>

definition reliable :: "sock \<Rightarrow> bool" where
  "reliable sk \<longleftrightarrow> (\<forall>i. \<exists>k. sk_net sk i = Some k \<and> PAGESIZE \<le> k)"

lemma send_reliable:
  assumes "reliable sk" and "length bs \<le> PAGESIZE"
  obtains sk' where "send bs sk = (int (length bs), sk')" and "reliable sk'" and "sk_out sk' = sk_out sk @ bs"
    and "sk_in sk' = sk_in sk"
proof -
  obtain k where "sk_net sk (sk_calls sk) = Some k" "PAGESIZE \<le> k"
    using assms(1) by (auto simp: reliable_def)
  then show thesis
    using assms that [of "sk\<lparr>sk_calls := Suc (sk_calls sk), sk_out := sk_out sk @ bs\<rparr>"]
    by (simp add: send_def reliable_def min_def)
qed

lemma send_loop_spec:
  assumes "fresh_stream st" and "st_bad st = None" and "reliable sk" and "length (delivered st) < fuel * PAGESIZE"
  shows "\<exists>sk'. send_loop fuel st sk = Inr (False, sk') \<and> sk_out sk' = sk_out sk @ delivered st \<and> sk_in sk' = sk_in sk"
  using assms
proof (induction fuel arbitrary: st sk)
  case (Suc fuel)
  obtain bs st' where r: "fread PAGESIZE st = (bs, st')"
    by (cases "fread PAGESIZE st")
  note bs = fread_eq [OF Suc.prems(1) r]
  have bad: "st_bad st' = None" "\<not> st_err st'"
    using r Suc.prems(1,2) by (auto simp: fread_def Let_def at_bad_def fresh_stream_def split: if_splits)
  obtain sk1 where sk1: "send bs sk = (int (length bs), sk1)" "reliable sk1" "sk_out sk1 = sk_out sk @ bs" "sk_in sk1 = sk_in sk"
    using send_reliable [OF Suc.prems(3), of bs] bs(1) by auto
  have step: "send_loop (Suc fuel) st sk = send_loop fuel st' sk1"
    using Suc.prems(1) r sk1(1) by (subst send_loop.simps) (simp add: fresh_stream_def)
  show ?case
  proof (cases "length bs = PAGESIZE")
    case True
    then have st': "fresh_stream st'" "delivered st' = drop PAGESIZE (delivered st)"
      using bs(2) by simp_all
    then have "length (delivered st') < fuel * PAGESIZE"
      using Suc.prems(4) PAGESIZE_pos True bs(1) by auto
    then obtain sk' where "send_loop fuel st' sk1 = Inr (False, sk')" "sk_out sk' = sk_out sk1 @ delivered st'" "sk_in sk' = sk_in sk1"
      using Suc.IH [OF st'(1) bad(1) sk1(2)] by blast
    then show ?thesis
      using step sk1(3,4) st'(2) bs(1) by simp
  next
    case False
    then have "send_loop fuel st' sk1 = Inr (False, sk1)"
      using bs(2) bad(2) by (subst send_loop.simps) auto
    moreover have "bs = delivered st"
      using bs(1) False by simp
    ultimately show ?thesis
      using step sk1(3,4) by simp
  qed
qed simp

lemma open_file_spec:
  assumes "files fs path = Some c" and "length c < 2 ^ 63"
  obtains fi where "open_file True fs path = Inr (Some fi)" and "fi_file fi = \<lparr>st_content = c, st_pos = 0, st_eof = False,
      st_err = False, st_bad = bad_at fs path\<rparr>" and "c_str (file_size_str fi) = dec (length c) @ [10]"
    and "length (dec (length c)) \<le> 20"
proof -
  have "sint (of_nat (length c) :: size_t) = int (length c)"
    using assms(2) by (simp add: sint_uint unsigned_of_nat take_bit_nat_eq_self signed_take_bit_int_eq_self)
  then have d: "dec_long (of_nat (length c)) = dec (length c)"
    by (simp add: dec_long_def)
  then have len: "length (dec (length c)) \<le> 20"
    using dec_long_length [of "of_nat (length c)"] by simp
  have "sprintf_size (dec (length c)) = Inr ((dec (length c) @ [10]) @ 0 # replicate (62 - length (dec (length c))) 0)"
    using len by (simp add: sprintf_size_def memcpy_to_def write_at_def)
  then have "\<exists>b. sprintf_size (dec (length c)) = Inr b \<and> c_str b = dec (length c) @ [10]"
    using c_str_0 [of "dec (length c) @ [10]"] dec_no_0 by auto
  then show thesis
    using assms(1) d len that by (auto simp: open_file_def fopen_r_def get_file_size_def)
qed

lemma recv_not_stop:
  assumes "sk_in sk = m # ms" and "take 4 m \<noteq> map of_char ''STOP''" and "0 \<notin> set m" and "length m < PAGESIZE"
  obtains resp sk' v where "recv PAGESIZE sk = (resp, sk')" and "sk_out sk' = sk_out sk" and "sk_net sk' = sk_net sk"
    and "strncmp resp (lit ''STOP\<newline>'') 4 = Inr v" and "v \<noteq> 0"
proof -
  let ?resp = "m @ 0 # replicate (PAGESIZE - length m - 1) 0"
  have r: "recv PAGESIZE sk = (?resp, sk\<lparr>sk_in := ms\<rparr>)"
    using assms(1,4) by (simp add: recv_def flip: replicate_Suc)
  have "0 \<notin> set (map of_char ''STOP\<newline>'' :: bytes)"
    by simp
  then have "strncmp ?resp (lit ''STOP\<newline>'') 4 \<noteq> Inr 0"
    using strncmp_0_iff [OF assms(3), of "map of_char ''STOP\<newline>''" "replicate (PAGESIZE - length m - 1) 0" "[]" 4] assms(2)
    unfolding lit_def by simp
  moreover have "\<exists>v. strncmp ?resp (lit ''STOP\<newline>'') 4 = Inr v"
    by (rule strncmp_ends) (simp_all add: lit_def)
  ultimately show thesis
    using r that [of ?resp "sk\<lparr>sk_in := ms\<rparr>"] by auto
qed

lemma send_file_spec:
  assumes "files fs path = Some c" and "bad_at fs path = None" and "length c < 2 ^ 63" and "length c < fuel"
    and "reliable sk" and "sk_in sk = m # ms" and "take 4 m \<noteq> map of_char ''STOP''" and "0 \<notin> set m" and "length m < PAGESIZE"
  shows "\<exists>sk'. send_file True fuel fs path sk = Inr sk' \<and> sk_out sk' = sk_out sk @ OK_MSG @ dec (length c) @ [10] @ c"
proof -
  obtain fi where fi: "open_file True fs path = Inr (Some fi)" "fi_file fi = \<lparr>st_content = c, st_pos = 0, st_eof = False,
      st_err = False, st_bad = None\<rparr>" "c_str (file_size_str fi) = dec (length c) @ [10]" "length (dec (length c)) \<le> 20"
    using open_file_spec [OF assms(1,3)] assms(2) by metis
  have "length OK_MSG \<le> PAGESIZE"
    by (simp add: lit_def PAGESIZE_def)
  then obtain sk1 where sk1: "send OK_MSG sk = (int (length OK_MSG), sk1)" "reliable sk1" "sk_out sk1 = sk_out sk @ OK_MSG"
      "sk_in sk1 = m # ms"
    using send_reliable [OF assms(5)] assms(6) by metis
  obtain resp sk2 v where sk2: "recv PAGESIZE sk1 = (resp, sk2)" "sk_out sk2 = sk_out sk1" "sk_net sk2 = sk_net sk1"
      "strncmp resp (lit ''STOP\<newline>'') 4 = Inr v" "v \<noteq> 0"
    using recv_not_stop [OF sk1(4) assms(7-9)] by metis
  have "reliable sk2"
    using sk1(2) sk2(3) by (simp add: reliable_def)
  moreover have "length (dec (length c) @ [10]) \<le> PAGESIZE"
    using fi(4) by (simp add: PAGESIZE_def)
  ultimately obtain sk3 where sk3: "send (dec (length c) @ [10]) sk2 = (int (length (dec (length c) @ [10])), sk3)" "reliable sk3"
      "sk_out sk3 = sk_out sk2 @ dec (length c) @ [10]"
    using send_reliable by metis
  have "fresh_stream (fi_file fi)" "delivered (fi_file fi) = c" "length c < fuel * PAGESIZE" "st_bad (fi_file fi) = None"
    using fi(2) assms(4) by (simp_all add: fresh_stream_def delivered_def PAGESIZE_def)
  then obtain sk4 where "send_loop fuel (fi_file fi) sk3 = Inr (False, sk4)" "sk_out sk4 = sk_out sk3 @ c"
    using send_loop_spec [of "fi_file fi" sk3 fuel] sk3(2) by auto
  then show ?thesis
    using fi(1,3) sk1(1,3) sk2 sk3(1,3) by (simp add: send_file_def close_file_def)
qed

subsection \<open>Properties\<close>

text \<open>\<open>send_file\<close> delivers. Over a reliable connection, and with a peer that answers anything but \<open>STOP\<close>, a file that can be
  read to its end is sent completely, after the message \<open>OK\<close> with its terminating zero and the length of
  the file in decimal; the function ends.\<close>

theorem send_file_delivers:
  assumes "files fs path = Some c" and "bad_at fs path = None" and "length c < 2 ^ 63" and "length c < fuel"
    and "reliable sk" and "sk_in sk = m # ms" and "take 4 m \<noteq> map of_char ''STOP''" and "0 \<notin> set m" and "length m < PAGESIZE"
  shows "\<exists>sk'. send_file True fuel fs path sk = Inr sk' \<and> sk_out sk' = sk_out sk @ OK_MSG @ dec (length c) @ [10] @ c"
  using assms by (rule send_file_spec)

definition good_sock :: sock where
  "good_sock = \<lparr>sk_in = [map of_char ''go''], sk_out = [], sk_calls = 0, sk_net = (\<lambda>_. Some 5000)\<rparr>"

theorem send_file_delivers_witness:
  "\<exists>sk'. send_file True 9 (one_file [97] [1, 2, 3]) [97] good_sock = Inr sk' \<and> sk_out sk' = map of_char ''OK\<newline>'' @ [0, 51, 10, 1, 2, 3]"
  using send_file_delivers [of "one_file [97] [1, 2, 3]" "[97]" "[1, 2, 3]" 9 good_sock "map of_char ''go''" "[]"]
  by (simp add: one_file_def good_sock_def reliable_def PAGESIZE_def lit_def dec.simps)

text \<open>C28: a request for a file that does not exist. \<open>send_file\<close> sends the error message and then closes the file it
  could not open: the null pointer is used, and the whole server goes down.\<close>

theorem send_file_missing:
  assumes "files fs path = None"
  shows "send_file True fuel fs path sk = Inl NullDeref"
  using assms by (simp add: send_file_def open_file_def fopen_r_def close_file_def split: prod.splits)

theorem send_file_missing_witness:
  "send_file True 9 (one_file [97] [1, 2, 3]) [98] good_sock = Inl NullDeref"
  using send_file_missing [of "one_file [97] [1, 2, 3]" "[98]" 9 good_sock] by (simp add: one_file_def)

end
