(* ===== verification/Fifo.thy ===== *)
theory Fifo
  imports C_Prelude
begin

text \<open>
  The contract of a first-in first-out queue. \<open>items q\<close> lists the stored elements, the oldest first.
  \<open>push\<close> gets what the environment provides for the new element (here the address that \<open>malloc\<close>
  returns) and needs \<open>room\<close>; \<open>pop\<close> on an empty queue does not return. The lemmas hold for all
  sequences of operations.
\<close>

datatype ('e, 'm) qop = Push 'e 'm | Pop

fun pushed :: "('e, 'm) qop list \<Rightarrow> 'm list" where
  "pushed [] = []"
| "pushed (Push e m # ops) = m # pushed ops"
| "pushed (Pop # ops) = pushed ops"

text \<open>\<open>run_ops push pop ops q\<close>: the elements that the calls of \<open>pop\<close> return, and the queue at the end.\<close>

fun run_ops :: "('e \<Rightarrow> 'm \<Rightarrow> 'q \<Rightarrow> fault + 'q) \<Rightarrow> ('q \<Rightarrow> fault + 'm \<times> 'q) \<Rightarrow> ('e, 'm) qop list \<Rightarrow> 'q \<Rightarrow>
    fault + 'm list \<times> 'q" where
  "run_ops push pop [] q = Inr ([], q)"
| "run_ops push pop (Push e m # ops) q = bindc (push e m q) (\<lambda>q. run_ops push pop ops q)"
| "run_ops push pop (Pop # ops) q =
     bindc (pop q) (\<lambda>(m, q). bindc (run_ops push pop ops q) (\<lambda>(out, q). Inr (m # out, q)))"

locale fifo =
  fixes inv :: "'q \<Rightarrow> bool"
    and items :: "'q \<Rightarrow> 'm list"
    and room :: "'e \<Rightarrow> 'q \<Rightarrow> bool"
    and push :: "'e \<Rightarrow> 'm \<Rightarrow> 'q \<Rightarrow> fault + 'q"
    and pop :: "'q \<Rightarrow> fault + 'm \<times> 'q"
  assumes push_law: "inv q \<Longrightarrow> room e q \<Longrightarrow> \<exists>q'. push e m q = Inr q' \<and> inv q' \<and> items q' = items q @ [m]"
    and pop_law: "inv q \<Longrightarrow> items q = m # ms \<Longrightarrow> \<exists>q'. pop q = Inr (m, q') \<and> inv q' \<and> items q' = ms"
    and pop_empty: "inv q \<Longrightarrow> items q = [] \<Longrightarrow> pop q = Inl Blocked"
begin

text \<open>Every push of the sequence finds room.\<close>

fun roomy :: "('e, 'm) qop list \<Rightarrow> 'q \<Rightarrow> bool" where
  "roomy [] q = True"
| "roomy (Push e m # ops) q = (room e q \<and> (case push e m q of Inl _ \<Rightarrow> True | Inr q' \<Rightarrow> roomy ops q'))"
| "roomy (Pop # ops) q = (case pop q of Inl _ \<Rightarrow> True | Inr (_, q') \<Rightarrow> roomy ops q')"

lemma run_in_order:
  assumes "inv q" and "roomy ops q" and "run_ops push pop ops q = Inr (out, q')"
  shows "inv q' \<and> items q @ pushed ops = out @ items q'"
  using assms
proof (induction ops arbitrary: q out)
  case (Cons a ops)
  show ?case
  proof (cases a)
    case (Push e m)
    then have "room e q"
      using Cons.prems(2) by simp
    then obtain q1 where q1: "push e m q = Inr q1" "inv q1" "items q1 = items q @ [m]"
      using push_law [OF Cons.prems(1)] by blast
    then show ?thesis
      using Cons.IH [OF q1(2)] Cons.prems(2,3) Push by simp
  next
    case Pop
    then obtain m q1 where q1: "pop q = Inr (m, q1)"
      using Cons.prems(3) by (cases "pop q") auto
    then obtain ms where ms: "items q = m # ms" "inv q1" "items q1 = ms"
      using pop_law [OF Cons.prems(1)] pop_empty [OF Cons.prems(1)]
      by (cases "items q") fastforce+
    then show ?thesis
      using Cons.IH [OF ms(2)] Cons.prems(2,3) Pop q1 by (auto simp: bindc_eq_Inr_iff)
  qed
qed simp

text \<open>A sequence runs to its end when no \<open>pop\<close> comes before the push that it needs.\<close>

fun enough :: "nat \<Rightarrow> ('e, 'm) qop list \<Rightarrow> bool" where
  "enough n [] = True"
| "enough n (Push e m # ops) = enough (Suc n) ops"
| "enough n (Pop # ops) = (case n of 0 \<Rightarrow> False | Suc k \<Rightarrow> enough k ops)"

lemma run_ends:
  assumes "inv q" and "roomy ops q" and "enough (length (items q)) ops"
  shows "\<exists>out q'. run_ops push pop ops q = Inr (out, q')"
  using assms
proof (induction ops arbitrary: q)
  case (Cons a ops)
  show ?case
  proof (cases a)
    case (Push e m)
    then have "room e q"
      using Cons.prems(2) by simp
    then obtain q1 where "push e m q = Inr q1" "inv q1" "items q1 = items q @ [m]"
      using push_law [OF Cons.prems(1)] by blast
    then show ?thesis
      using Cons.IH [of q1] Cons.prems(2,3) Push by simp
  next
    case Pop
    then obtain m ms where ms: "items q = m # ms"
      using Cons.prems(3) by (cases "items q") auto
    then obtain q1 where "pop q = Inr (m, q1)" "inv q1" "items q1 = ms"
      using pop_law [OF Cons.prems(1)] by blast
    then show ?thesis
      using Cons.IH [of q1] Cons.prems(2,3) Pop ms by fastforce
  qed
qed simp

end

end
