(* ===== verification/Log_Queue.thy ===== *)
theory Log_Queue
  imports Fifo
begin

text \<open>
  The message queue of the log of the file server (\<open>fileserver/log_msg_queue.c\<close>).

  The nodes live in a heap of structures. New messages enter at the tail, which is the start of the
  chain of \<open>next\<close> pointers, and leave at the head. The mutex is the flag \<open>mtx\<close>. The address that
  \<open>malloc\<close> returns for a node is an argument, \<open>None\<close> when it fails. A thread that waits for a message
  on an empty queue is \<open>Blocked\<close>: nothing in the call itself can end the wait.
\<close>

subsection \<open>log_msg_queue.h\<close>

record message_desc =
  message :: bytes
  error_code :: "32 word"
  level :: "32 word"
  message_time :: "64 word"
  tid :: "64 word"

record queue_node =
  n_next :: ptr
  n_prev :: ptr
  msg_desc :: message_desc

record log_message_queue =
  nodes :: "nat \<rightharpoonup> queue_node"
  q_head :: ptr
  q_tail :: ptr
  q_size :: size_t
  q_capacity :: size_t
  mtx :: bool
  critical_size :: bool

subsection \<open>log_msg_queue.c\<close>

definition lock_mtx :: "log_message_queue \<Rightarrow> fault + log_message_queue" where
  "lock_mtx q = (if mtx q then Inl Blocked else Inr (q\<lparr>mtx := True\<rparr>))"

definition unlock_mtx :: "log_message_queue \<Rightarrow> fault + log_message_queue" where
  "unlock_mtx q = (if mtx q then Inr (q\<lparr>mtx := False\<rparr>) else Inl LockMisuse)"

definition upd_node :: "ptr \<Rightarrow> (queue_node \<Rightarrow> queue_node) \<Rightarrow> log_message_queue \<Rightarrow> fault + log_message_queue" where
  "upd_node p f q = bindc (upd_at (nodes q) p f) (\<lambda>h. Inr (q\<lparr>nodes := h\<rparr>))"

definition new_node :: "ptr \<Rightarrow> message_desc \<Rightarrow> log_message_queue \<Rightarrow> ptr \<times> log_message_queue" where
  "new_node mem md q = (case mem of None \<Rightarrow> (None, q)
     | Some a \<Rightarrow> (Some a, q\<lparr>nodes := (nodes q)(a \<mapsto> \<lparr>n_next = None, n_prev = None, msg_desc = md\<rparr>)\<rparr>))"

definition free_node :: "ptr \<Rightarrow> log_message_queue \<Rightarrow> fault + log_message_queue" where
  "free_node p q = bindc (free_at (nodes q) p) (\<lambda>h. Inr (q\<lparr>nodes := h\<rparr>))"

text \<open>\<open>mem_ok\<close>: \<open>malloc\<close> succeeds for the queue; its result is not tested.\<close>

definition create_log_queue :: "bool \<Rightarrow> bool \<Rightarrow> bool \<Rightarrow> size_t \<Rightarrow> fault + log_message_queue option" where
  "create_log_queue mem_ok mutex_ok cond_ok max_size =
     bindc (guardc NullDeref mem_ok) (\<lambda>_.
     if \<not> mutex_ok then Inr None
     else if \<not> cond_ok then Inr None
     else Inr (Some \<lparr>nodes = Map.empty, q_head = None, q_tail = None, q_size = 0, q_capacity = max_size,
       mtx = False, critical_size = True\<rparr>))"

fun destroy_loop :: "nat \<Rightarrow> ptr \<Rightarrow> log_message_queue \<Rightarrow> fault + log_message_queue" where
  "destroy_loop f None q = Inr q"
| "destroy_loop 0 (Some a) q = Inl Blocked"
| "destroy_loop (Suc f) (Some a) q =
     bindc (deref (nodes q) (Some a)) (\<lambda>n.
     bindc (free_node (Some a) q) (\<lambda>q.
     destroy_loop f (n_next n) q))"

text \<open>What is left of the heap of nodes when the queue itself has been freed.\<close>

definition destroy_log_queue :: "nat \<Rightarrow> log_message_queue option \<Rightarrow> fault + (nat \<rightharpoonup> queue_node)" where
  "destroy_log_queue f lq = (case lq of None \<Rightarrow> Inr Map.empty
     | Some q \<Rightarrow>
         let current = q_tail q in
         bindc (lock_mtx q) (\<lambda>q.
         bindc (destroy_loop f current q) (\<lambda>q.
         bindc (unlock_mtx q) (\<lambda>q. Inr (nodes q)))))"

definition add_tail :: "ptr \<Rightarrow> log_message_queue \<Rightarrow> fault + log_message_queue" where
  "add_tail node q =
     (if node = None then Inr q
      else
        bindc (if q_size q = 0 then Inr (q\<lparr>q_head := node, q_tail := node\<rparr>)
          else
            bindc (upd_node node (\<lambda>n. n\<lparr>n_next := q_tail q\<rparr>) q) (\<lambda>q.
            bindc (upd_node (q_tail q) (\<lambda>n. n\<lparr>n_prev := node\<rparr>) q) (\<lambda>q.
            Inr (q\<lparr>q_tail := node\<rparr>)))) (\<lambda>q.
        Inr (q\<lparr>q_size := q_size q + 1\<rparr>)))"

definition delete_head :: "log_message_queue \<Rightarrow> fault + log_message_queue" where
  "delete_head q =
     (if q_size q = 0 then Inr q
      else
        let temp = q_head q in
        bindc (if q_head q = q_tail q then Inr (q\<lparr>q_head := None, q_tail := None\<rparr>)
          else
            bindc (deref (nodes q) (q_head q)) (\<lambda>n.
            let q = q\<lparr>q_head := n_prev n\<rparr> in
            upd_node (q_head q) (\<lambda>n. n\<lparr>n_next := None\<rparr>) q)) (\<lambda>q.
        free_node temp (q\<lparr>q_size := q_size q - 1\<rparr>)))"

definition push_message ::
    "ptr \<Rightarrow> message_desc option \<Rightarrow> log_message_queue option \<Rightarrow> fault + log_message_queue option" where
  "push_message mem md lq = (case lq of None \<Rightarrow> Inr None
     | Some q \<Rightarrow> (case md of None \<Rightarrow> Inr (Some q)
       | Some m \<Rightarrow>
           let (node, q) = new_node mem m q in
           bindc (lock_mtx q) (\<lambda>q.
           bindc (add_tail node q) (\<lambda>q.
           bindc (unlock_mtx q) (\<lambda>q. Inr (Some q))))))"

definition pop_message :: "log_message_queue option \<Rightarrow> fault + message_desc \<times> log_message_queue" where
  "pop_message lq = (case lq of None \<Rightarrow> Inl NullDeref
     | Some q \<Rightarrow>
         bindc (lock_mtx q) (\<lambda>q.
         if q_size q = 0 then Inl Blocked
         else
           bindc (deref (nodes q) (q_head q)) (\<lambda>n.
           bindc (delete_head q) (\<lambda>q.
           bindc (unlock_mtx q) (\<lambda>q. Inr (msg_desc n, q))))))"

text \<open>The messages that \<open>print_queue\<close> prints.\<close>

fun print_queue_loop :: "nat \<Rightarrow> ptr \<Rightarrow> log_message_queue \<Rightarrow> fault + bytes list" where
  "print_queue_loop f None q = Inr []"
| "print_queue_loop 0 (Some a) q = Inl Blocked"
| "print_queue_loop (Suc f) (Some a) q =
     bindc (deref (nodes q) (Some a)) (\<lambda>n.
     bindc (print_queue_loop f (n_next n) q) (\<lambda>out. Inr (message (msg_desc n) # out)))"

definition print_queue :: "nat \<Rightarrow> log_message_queue \<Rightarrow> fault + bytes list" where
  "print_queue f q = print_queue_loop f (q_tail q) q"

subsection \<open>The queue as a list of messages\<close>

fun collect :: "(nat \<rightharpoonup> queue_node) \<Rightarrow> ptr \<Rightarrow> nat \<Rightarrow> message_desc list" where
  "collect h None n = []"
| "collect h (Some a) 0 = []"
| "collect h (Some a) (Suc n) = (case h a of None \<Rightarrow> [] | Some nd \<Rightarrow> msg_desc nd # collect h (n_next nd) n)"

definition items :: "log_message_queue \<Rightarrow> message_desc list" where
  "items q = rev (collect (nodes q) (q_tail q) (unat (q_size q)))"

abbreviation chained :: "(nat \<rightharpoonup> queue_node) \<Rightarrow> ptr \<Rightarrow> nat list \<Rightarrow> bool" where
  "chained h \<equiv> dll n_next n_prev h None"

definition queue_ok :: "log_message_queue \<Rightarrow> nat list \<Rightarrow> bool" where
  "queue_ok q xs \<longleftrightarrow> chained (nodes q) (q_tail q) xs \<and> distinct xs \<and> q_head q = dlast None xs \<and>
     length xs = unat (q_size q) \<and> \<not> mtx q"

definition queue_inv :: "log_message_queue \<Rightarrow> bool" where
  "queue_inv q \<longleftrightarrow> (\<exists>xs. queue_ok q xs)"

definition queue_room :: "ptr \<Rightarrow> log_message_queue \<Rightarrow> bool" where
  "queue_room mem q \<longleftrightarrow> (\<exists>a. mem = Some a \<and> a \<notin> dom (nodes q)) \<and> unat (q_size q) < 2 ^ 64 - 1"

lemma collect_dll:
  "dll n_next n_prev h bk p xs \<Longrightarrow> collect h p (length xs) = map (\<lambda>a. msg_desc (the (h a))) xs"
  by (induction xs arbitrary: bk p) (auto split: option.splits)

lemma items_eq: "queue_ok q xs \<Longrightarrow> items q = rev (map (\<lambda>a. msg_desc (the (nodes q a))) xs)"
  unfolding queue_ok_def items_def using collect_dll by metis

lemma push_message_spec:
  assumes "queue_ok q xs" and "a \<notin> dom (nodes q)" and "unat (q_size q) < 2 ^ 64 - 1"
  shows "\<exists>q'. push_message (Some a) (Some m) (Some q) = Inr (Some q') \<and> queue_ok q' (a # xs) \<and>
    items q' = items q @ [m]"
proof -
  have ok: "chained (nodes q) (q_tail q) xs" "distinct xs" "q_head q = dlast None xs"
      "length xs = unat (q_size q)" "\<not> mtx q"
    using assms(1) by (auto simp: queue_ok_def)
  have a: "a \<notin> set xs"
    using dll_set_dom [OF ok(1)] assms(2) by blast
  have size: "unat (q_size q + 1) = Suc (length xs)"
    using ok(4) assms(3) by (simp add: unat_word_ariths)
  let ?n = "\<lparr>n_next = q_tail q, n_prev = None, msg_desc = m\<rparr>"
  show ?thesis
  proof (cases xs)
    case Nil
    let ?q = "q\<lparr>nodes := (nodes q)(a \<mapsto> ?n), q_head := Some a, q_tail := Some a, q_size := 1\<rparr>"
    have tl: "q_tail q = None" "q_size q = 0"
      using ok(1,4) Nil by (simp_all add: unat_eq_zero)
    have run: "push_message (Some a) (Some m) (Some q) = Inr (Some ?q)"
      using ok(5) tl by (simp add: push_message_def new_node_def lock_mtx_def unlock_mtx_def add_tail_def)
    have ok': "queue_ok ?q [a]"
      using ok(5) tl by (simp add: queue_ok_def)
    show ?thesis
      using run ok' items_eq [OF ok'] items_eq [OF assms(1)] Nil by simp
  next
    case (Cons b ys)
    obtain nb where nb: "q_tail q = Some b" "nodes q b = Some nb" "n_prev nb = None"
        "dll n_next n_prev (nodes q) (Some b) (n_next nb) ys"
      using ok(1) Cons by (auto split: option.splits)
    have "b \<noteq> a" "a \<notin> set ys" "b \<notin> set ys" "q_size q \<noteq> 0"
      using a Cons ok(2,4) by auto
    let ?h = "(nodes q)(a \<mapsto> ?n, b \<mapsto> nb\<lparr>n_prev := Some a\<rparr>)"
    let ?q = "q\<lparr>nodes := ?h, q_tail := Some a, q_size := q_size q + 1\<rparr>"
    have run: "push_message (Some a) (Some m) (Some q) = Inr (Some ?q)"
      using ok(5) nb \<open>b \<noteq> a\<close> \<open>q_size q \<noteq> 0\<close>
      by (simp add: push_message_def new_node_def lock_mtx_def unlock_mtx_def add_tail_def upd_node_def)
    have ok': "queue_ok ?q (a # xs)"
      using ok(2,3,5) nb \<open>b \<noteq> a\<close> \<open>a \<notin> set ys\<close> \<open>b \<notin> set ys\<close> size Cons
      by (simp add: queue_ok_def dlast_eq)
    have "msg_desc (the (?h x)) = msg_desc (the (nodes q x))" if "x \<in> set xs" for x
      using that a nb(2) by auto
    then have "items ?q = items q @ [m]"
      using \<open>b \<noteq> a\<close> unfolding items_eq [OF ok'] items_eq [OF assms(1)] by (simp cong: map_cong)
    then show ?thesis
      using run ok' by blast
  qed
qed

lemma pop_message_spec:
  assumes "queue_ok q (xs @ [a])"
  shows "\<exists>q' n. nodes q a = Some n \<and> pop_message (Some q) = Inr (msg_desc n, q') \<and> queue_ok q' xs \<and>
    items q = msg_desc n # items q' \<and> dom (nodes q') = dom (nodes q) - {a}"
proof -
  have ok: "chained (nodes q) (q_tail q) (xs @ [a])" "distinct (xs @ [a])" "q_head q = Some a"
      "Suc (length xs) = unat (q_size q)" "\<not> mtx q"
    using assms by (auto simp: queue_ok_def)
  obtain n where n: "nodes q a = Some n" "n_prev n = dlast None xs" "n_next n = None"
      "dseg n_next n_prev (nodes q) None (q_tail q) xs (Some a)"
    using ok(1) by (auto simp: dll_append split: option.splits)
  have "q_size q \<noteq> 0"
    using ok(4) by auto
  have "1 \<le> q_size q"
    using ok(4) by (simp add: word_le_nat_alt)
  then have size: "unat (q_size q - 1) = length xs"
    using ok(4) by (simp add: unat_sub)
  show ?thesis
  proof (cases xs rule: rev_cases)
    case Nil
    let ?q = "q\<lparr>nodes := (nodes q)(a := None), q_head := None, q_tail := None, q_size := q_size q - 1\<rparr>"
    have run: "pop_message (Some q) = Inr (msg_desc n, ?q)"
      using ok(3,5) n(1,4) Nil \<open>q_size q \<noteq> 0\<close>
      by (simp add: pop_message_def lock_mtx_def unlock_mtx_def delete_head_def free_node_def)
    have ok': "queue_ok ?q xs"
      using ok(5) size Nil by (simp add: queue_ok_def)
    show ?thesis
      using n(1) run ok' items_eq [OF ok'] items_eq [OF assms] Nil by auto
  next
    case (snoc ys b)
    obtain nb where nb: "nodes q b = Some nb" "n_prev nb = dlast None ys" "n_next nb = Some a"
        "dseg n_next n_prev (nodes q) None (q_tail q) ys (Some b)"
      using n(4) snoc by (auto simp: dseg_append split: option.splits)
    have "b \<noteq> a" "a \<notin> set ys" "b \<notin> set ys" "distinct ys" "a \<notin> set xs"
      using ok(2) snoc by auto
    have "q_tail q \<noteq> Some a"
      using nb(4) \<open>b \<noteq> a\<close> \<open>a \<notin> set ys\<close> by (cases ys) auto
    let ?h = "(nodes q)(b \<mapsto> nb\<lparr>n_next := None\<rparr>, a := None)"
    let ?q = "q\<lparr>nodes := ?h, q_head := Some b, q_size := q_size q - 1\<rparr>"
    have run: "pop_message (Some q) = Inr (msg_desc n, ?q)"
      using ok(3,5) n(1,2) nb(1) snoc \<open>q_size q \<noteq> 0\<close> \<open>q_tail q \<noteq> Some a\<close> \<open>b \<noteq> a\<close>
      by (simp add: pop_message_def lock_mtx_def unlock_mtx_def delete_head_def free_node_def upd_node_def)
    have "chained ?h (q_tail q) xs"
      using nb snoc \<open>b \<noteq> a\<close> \<open>a \<notin> set ys\<close> \<open>b \<notin> set ys\<close> by (simp add: dll_append)
    then have ok': "queue_ok ?q xs"
      using ok(2,5) size snoc by (simp add: queue_ok_def)
    have "msg_desc (the (?h x)) = msg_desc (the (nodes q x))" if "x \<in> set xs" for x
      using that \<open>a \<notin> set xs\<close> nb(1) by auto
    then have "items q = msg_desc n # items ?q"
      using n(1) unfolding items_eq [OF ok'] items_eq [OF assms] by (simp cong: map_cong)
    then show ?thesis
      using n(1) run ok' nb(1) by auto
  qed
qed

interpretation log_q: fifo queue_inv items queue_room
  "\<lambda>mem m q. bindc (push_message mem (Some m) (Some q)) (\<lambda>lq. case lq of None \<Rightarrow> Inl NullDeref | Some q \<Rightarrow> Inr q)"
  "\<lambda>q. pop_message (Some q)"
proof
  fix q e m
  assume "queue_inv q" "queue_room e q"
  then obtain xs a where "queue_ok q xs" "e = Some a" "a \<notin> dom (nodes q)" "unat (q_size q) < 2 ^ 64 - 1"
    by (auto simp: queue_inv_def queue_room_def)
  then show "\<exists>q'. bindc (push_message e (Some m) (Some q)) (\<lambda>lq. case lq of None \<Rightarrow> Inl NullDeref | Some q \<Rightarrow> Inr q) = Inr q' \<and>
      queue_inv q' \<and> items q' = items q @ [m]"
    using push_message_spec [of q xs a m] by (auto simp: queue_inv_def)
next
  fix q m ms
  assume "queue_inv q" and m: "items q = m # ms"
  then obtain xs where xs: "queue_ok q xs"
    by (auto simp: queue_inv_def)
  then obtain ys a where "xs = ys @ [a]"
    using m by (cases xs rule: rev_cases) (auto simp: items_eq)
  then show "\<exists>q'. pop_message (Some q) = Inr (m, q') \<and> queue_inv q' \<and> items q' = ms"
    using pop_message_spec [of q ys a] xs m by (auto simp: queue_inv_def)
next
  fix q
  assume "queue_inv q" and m: "items q = []"
  then obtain xs where xs: "queue_ok q xs"
    by (auto simp: queue_inv_def)
  then have "xs = []"
    using m by (simp add: items_eq)
  then show "pop_message (Some q) = Inl Blocked"
    using xs by (simp add: queue_ok_def pop_message_def lock_mtx_def unat_eq_zero)
qed

subsection \<open>Destruction\<close>

lemma destroy_loop_spec:
  "dll n_next n_prev (nodes q) bk p xs \<Longrightarrow> distinct xs \<Longrightarrow> length xs \<le> f \<Longrightarrow>
   \<exists>q'. destroy_loop f p q = Inr q' \<and> nodes q' = nodes q |` (- set xs) \<and> mtx q' = mtx q"
proof (induction xs arbitrary: q bk p f)
  case (Cons a xs)
  then obtain n f' where n: "p = Some a" "nodes q a = Some n" "f = Suc f'" "length xs \<le> f'"
      "dll n_next n_prev (nodes q) (Some a) (n_next n) xs" "a \<notin> set xs" "distinct xs"
    by (cases f) (auto split: option.splits)
  let ?q = "q\<lparr>nodes := (nodes q)(a := None)\<rparr>"
  have "dll n_next n_prev (nodes ?q) (Some a) (n_next n) xs"
    using n(5,6) by simp
  then obtain q' where "destroy_loop f' (n_next n) ?q = Inr q'" "nodes q' = nodes ?q |` (- set xs)" "mtx q' = mtx ?q"
    using Cons.IH [of ?q] n(4,7) by blast
  then show ?case
    using n(1-3) by (auto simp: free_node_def restrict_map_def fun_eq_iff)
qed (auto simp: restrict_map_def)

end
