(* ===== verification/Log.thy ===== *)
theory Log
  imports Log_Queue File_System
begin

text \<open>
  The log of the file server (\<open>fileserver/log.c\<close>): the log file and its archive, the calls that put a
  message in the queue, and the thread that writes the messages to the file.

  The time, the names in the directory and the outcome of \<open>malloc\<close> are arguments. The format \<open>%ld\<close> is
  used for arguments of type \<open>int\<close>: what the 64 bits of such an argument are is the argument \<open>reg\<close>.
  The writer thread, the threads that log and the main thread that shuts the log down are the rules
  of the relation \<open>log_step\<close>.
\<close>

subsection \<open>log.h and log.c\<close>

abbreviation DEFAULT_MESSAGE_SIZE :: nat where "DEFAULT_MESSAGE_SIZE \<equiv> 4096"
abbreviation DEFAULT_MESSAGE_METAINFO_SIZE :: nat where "DEFAULT_MESSAGE_METAINFO_SIZE \<equiv> 1024"

record LogDesc =
  log_queue :: log_message_queue
  file_desc :: "bytes option"
  shutdown_flag :: bool

record tm =
  tm_mon :: nat
  tm_mday :: nat
  tm_year :: nat
  tm_hour :: nat
  tm_min :: nat

abbreviation ascii :: "string \<Rightarrow> bytes" where
  "ascii s \<equiv> map of_char s"

definition arch_logs :: "nat \<Rightarrow> bytes list \<Rightarrow> bytes \<Rightarrow> file_system \<Rightarrow> fault + file_system" where
  "arch_logs fuel entries log_dir fs =
     (let arch_dir = join_path log_dir (ascii ''arch''); pattern = ascii ''fileserver.log'';
          fs = (if \<not> check_dir fs arch_dir then create_dir (Some arch_dir) fs else fs) in
      move_files_to_dir fuel entries log_dir arch_dir pattern (length pattern) fs)"

text \<open>
  The name of the log file is cut off at the end of its buffer. The result of \<open>fopen\<close> is not tested.
\<close>

definition create_log ::
    "bool \<Rightarrow> bool \<Rightarrow> bool \<Rightarrow> bool \<Rightarrow> nat \<Rightarrow> bytes list \<Rightarrow> 64 word \<Rightarrow> bytes \<Rightarrow> size_t \<Rightarrow> file_system \<Rightarrow>
      fault + (LogDesc option \<times> file_system)" where
  "create_log desc_ok mem_ok mutex_ok cond_ok fuel entries time log_dir log_queue_size fs =
     (if \<not> desc_ok then Inr (None, fs)
      else
        bindc (create_log_queue mem_ok mutex_ok cond_ok log_queue_size) (\<lambda>lq.
        case lq of None \<Rightarrow> Inr (None, fs)
        | Some q \<Rightarrow>
            bindc (arch_logs fuel entries log_dir fs) (\<lambda>fs.
            let log_name = join_path log_dir (ascii ''fileserver.log.'' @ dec_long time) in
            case fopen_w fs log_name of
              None \<Rightarrow> Inr (Some \<lparr>log_queue = q, file_desc = None, shutdown_flag = False\<rparr>, fs)
            | Some fs \<Rightarrow> Inr (Some \<lparr>log_queue = q, file_desc = Some log_name, shutdown_flag = False\<rparr>, fs))))"

definition destroy_log :: "nat \<Rightarrow> LogDesc option \<Rightarrow> fault + (nat \<rightharpoonup> queue_node)" where
  "destroy_log fuel log_desc = (case log_desc of None \<Rightarrow> Inl NullDeref
     | Some ld \<Rightarrow>
         bindc (guardc NullDeref (file_desc ld \<noteq> None)) (\<lambda>_.
         destroy_log_queue fuel (Some (log_queue ld))))"

definition pad :: "nat \<Rightarrow> byte \<Rightarrow> bytes \<Rightarrow> bytes" where
  "pad n c s = replicate (n - length s) c @ s"

abbreviation digits2 :: "nat \<Rightarrow> bytes" where
  "digits2 n \<equiv> pad 2 (of_char CHR ''0'') (dec n)"

text \<open>The two calls of \<open>sprintf\<close>, into 17 and into 5120 bytes.\<close>

definition time_text :: "tm \<Rightarrow> fault + bytes" where
  "time_text info =
     bindc (memcpy_to (replicate 17 0) 0 (digits2 (tm_mon info + 1) @ ascii ''/'' @ digits2 (tm_mday info) @ ascii ''/'' @
       pad 4 (of_char CHR '' '') (dec (1900 + tm_year info)) @ ascii '' '' @ digits2 (tm_hour info) @ ascii '':'' @
       digits2 (tm_min info) @ [0])) (\<lambda>buf. Inr (c_str buf))"

definition log_line :: "(32 word \<Rightarrow> 64 word) \<Rightarrow> bytes \<Rightarrow> message_desc \<Rightarrow> fault + bytes" where
  "log_line reg time_buf md =
     bindc (guardc OutOfBounds (0 \<in> set (message md))) (\<lambda>_.
     bindc (memcpy_to (replicate (DEFAULT_MESSAGE_SIZE + DEFAULT_MESSAGE_METAINFO_SIZE) 0) 0
       (ascii ''thread id: '' @ dec_long (tid md) @ ascii '' date: '' @ time_buf @ ascii '' message: '' @ c_str (message md) @
        ascii '' error code: '' @ dec_long (reg (error_code md)) @ ascii '' '' @ dec_long (reg (level md)) @ [10, 0])) (\<lambda>buf.
     Inr (c_str buf)))"

definition write_to_logfile ::
    "(32 word \<Rightarrow> 64 word) \<Rightarrow> (64 word \<Rightarrow> tm) \<Rightarrow> bytes option \<Rightarrow> message_desc \<Rightarrow> file_system \<Rightarrow> fault + file_system" where
  "write_to_logfile reg localtime file md fs =
     bindc (time_text (localtime (message_time md))) (\<lambda>time_buf.
     bindc (log_line reg time_buf md) (\<lambda>file_buf.
     case file of None \<Rightarrow> Inl NullDeref
     | Some path \<Rightarrow> Inr (fwrite path file_buf fs)))"

text \<open>
  \<open>log_write\<close> and \<open>log_write_thread\<close>. \<open>msg\<close> is the object that the argument points at; all of the 4096
  bytes from its address on are copied.
\<close>

definition log_write_thread ::
    "ptr \<Rightarrow> 64 word \<Rightarrow> LogDesc option \<Rightarrow> 64 word \<Rightarrow> bytes \<Rightarrow> 32 word \<Rightarrow> 32 word \<Rightarrow> fault + LogDesc option" where
  "log_write_thread mem current_timestamp log_desc thread msg error lvl =
     bindc (memcpy_from msg 0 DEFAULT_MESSAGE_SIZE) (\<lambda>m.
     let md = \<lparr>message = m, error_code = error, level = lvl, message_time = current_timestamp, tid = thread\<rparr> in
     case log_desc of None \<Rightarrow> Inl NullDeref
     | Some ld \<Rightarrow>
         bindc (push_message mem (Some md) (Some (log_queue ld))) (\<lambda>lq.
         Inr (Some (case lq of None \<Rightarrow> ld | Some q \<Rightarrow> ld\<lparr>log_queue := q\<rparr>))))"

definition log_write ::
    "ptr \<Rightarrow> 64 word \<Rightarrow> LogDesc option \<Rightarrow> bytes \<Rightarrow> 32 word \<Rightarrow> 32 word \<Rightarrow> fault + LogDesc option" where
  "log_write mem current_timestamp log_desc msg error lvl =
     bindc (memcpy_from msg 0 DEFAULT_MESSAGE_SIZE) (\<lambda>m.
     let md = \<lparr>message = m, error_code = error, level = lvl, message_time = current_timestamp, tid = 0\<rparr> in
     case log_desc of None \<Rightarrow> Inl NullDeref
     | Some ld \<Rightarrow>
         bindc (push_message mem (Some md) (Some (log_queue ld))) (\<lambda>lq.
         Inr (Some (case lq of None \<Rightarrow> ld | Some q \<Rightarrow> ld\<lparr>log_queue := q\<rparr>))))"

subsection \<open>The writer thread\<close>

text \<open>
  \<open>log_writer_routine\<close> is at the test of \<open>shutdown_flag\<close>, in \<open>pop_message\<close>, in \<open>write_to_logfile\<close>, or has
  ended. \<open>sent\<close> and \<open>written\<close> record the messages that were put in the queue and those that were
  written to the file.
\<close>

datatype writer_pc = At_test | In_pop | In_write message_desc | Ended

record log_state =
  ld :: LogDesc
  pc :: writer_pc
  sent :: "message_desc list"
  written :: "message_desc list"

inductive log_step :: "log_state \<Rightarrow> log_state \<Rightarrow> bool" where
  send: "\<not> shutdown_flag (ld s) \<Longrightarrow> queue_room (Some a) (log_queue (ld s)) \<Longrightarrow>
    push_message (Some a) (Some m) (Some (log_queue (ld s))) = Inr (Some q) \<Longrightarrow>
    log_step s (s\<lparr>ld := (ld s)\<lparr>log_queue := q\<rparr>, sent := sent s @ [m]\<rparr>)"
| test: "pc s = At_test \<Longrightarrow> log_step s (s\<lparr>pc := (if shutdown_flag (ld s) then Ended else In_pop)\<rparr>)"
| take_msg: "pc s = In_pop \<Longrightarrow> pop_message (Some (log_queue (ld s))) = Inr (m, q) \<Longrightarrow>
    log_step s (s\<lparr>ld := (ld s)\<lparr>log_queue := q\<rparr>, pc := In_write m\<rparr>)"
| write_msg: "pc s = In_write m \<Longrightarrow> log_step s (s\<lparr>pc := At_test, written := written s @ [m]\<rparr>)"
| shutdown: "\<not> shutdown_flag (ld s) \<Longrightarrow> log_step s (s\<lparr>ld := (ld s)\<lparr>shutdown_flag := True\<rparr>\<rparr>)"

inductive_cases log_stepE: "log_step s s'"

definition log_start :: "LogDesc \<Rightarrow> log_state" where
  "log_start d = \<lparr>ld = d, pc = At_test, sent = [], written = []\<rparr>"

definition in_hand :: "log_state \<Rightarrow> message_desc list" where
  "in_hand s = (case pc s of In_write m \<Rightarrow> [m] | _ \<Rightarrow> [])"

definition log_inv :: "log_state \<Rightarrow> bool" where
  "log_inv s \<longleftrightarrow> queue_inv (log_queue (ld s)) \<and> sent s = written s @ in_hand s @ items (log_queue (ld s))"

lemma push_items:
  assumes "queue_inv q" and "queue_room e q" and "push_message e (Some m) (Some q) = Inr (Some q')"
  shows "queue_inv q' \<and> items q' = items q @ [m]"
  using log_q.push_law [OF assms(1,2), of m] assms(3) by auto

lemma pop_items:
  assumes "queue_inv q" and "pop_message (Some q) = Inr (m, q')"
  shows "queue_inv q' \<and> items q = m # items q'"
proof (cases "items q")
  case Nil
  then show ?thesis
    using log_q.pop_empty [OF assms(1)] assms(2) by simp
next
  case (Cons x xs)
  then show ?thesis
    using log_q.pop_law [OF assms(1) Cons] assms(2) by auto
qed

lemma log_inv_step: "log_step s s' \<Longrightarrow> log_inv s \<Longrightarrow> log_inv s'"
proof (induction rule: log_step.induct)
  case (send s a m q)
  then show ?case
    using push_items [of "log_queue (ld s)" "Some a" m q] by (simp add: log_inv_def in_hand_def)
next
  case (take_msg s m q)
  then show ?case
    using pop_items [of "log_queue (ld s)" m q] by (simp add: log_inv_def in_hand_def)
qed (auto simp: log_inv_def in_hand_def)

lemma log_inv_reachable: "log_step\<^sup>*\<^sup>* s s' \<Longrightarrow> log_inv s \<Longrightarrow> log_inv s'"
  by (induction rule: rtranclp_induct) (auto intro: log_inv_step)

lemma empty_queue:
  assumes "create_log_queue True True True n = Inr (Some q)"
  shows "queue_ok q []" and "items q = []" and "nodes q = Map.empty" and "q_size q = 0"
  using assms by (auto simp: create_log_queue_def queue_ok_def items_def)

subsection \<open>Properties\<close>


definition empty_log :: LogDesc where
  "empty_log = \<lparr>log_queue = \<lparr>nodes = Map.empty, q_head = None, q_tail = None, q_size = 0, q_capacity = 1024, mtx = False,
     critical_size = True\<rparr>, file_desc = Some [], shutdown_flag = False\<rparr>"

lemma empty_log_queue: "create_log_queue True True True 1024 = Inr (Some (log_queue empty_log))"
  by (simp add: create_log_queue_def empty_log_def)


text \<open>C37: after \<open>shutdown_flag\<close> has been set, the writer puts at most one more message into the file. What is still in
  the queue then is lost.\<close>

theorem log_shutdown_loses:
  assumes "shutdown_flag (ld s)" and "log_step\<^sup>*\<^sup>* s s'"
  shows "sent s' = sent s \<and> length (written s') \<le> length (written s) + 1"
proof -
  have "sent s' = sent s \<and> shutdown_flag (ld s') \<and>
    length (written s') + (case pc s' of In_pop \<Rightarrow> 1 | In_write m \<Rightarrow> 1 | _ \<Rightarrow> 0) \<le>
    length (written s) + (case pc s of In_pop \<Rightarrow> 1 | In_write m \<Rightarrow> 1 | _ \<Rightarrow> 0)"
    using assms(2,1)
  proof (induction rule: rtranclp_induct)
    case (step y z)
    from step(2) step.IH [OF step.prems] show ?case
      by (cases rule: log_step.cases) auto
  qed simp
  then show ?thesis
    by (auto split: writer_pc.splits)
qed

theorem log_shutdown_loses_witness:
  "\<exists>s'. log_step\<^sup>*\<^sup>* (log_start (empty_log\<lparr>shutdown_flag := True\<rparr>)) s' \<and> pc s' = Ended \<and> length (written s') \<le> 1"
proof -
  let ?s = "log_start (empty_log\<lparr>shutdown_flag := True\<rparr>)"
  have "log_step ?s (?s\<lparr>pc := Ended\<rparr>)"
    using test [of ?s] by (simp add: log_start_def)
  then have "log_step\<^sup>*\<^sup>* ?s (?s\<lparr>pc := Ended\<rparr>)"
    by blast
  then show ?thesis
    using log_shutdown_loses [of ?s "?s\<lparr>pc := Ended\<rparr>"]
    by (intro exI [of _ "?s\<lparr>pc := Ended\<rparr>"]) (auto simp: log_start_def)
qed

text \<open>C19: the end of the server can hang. When \<open>shutdown_flag\<close> is set while the writer waits for a message on an empty
  queue, no thread can make a step any more: nothing wakes the writer up, and the \<open>pthread_join\<close> of the main
  thread waits for ever.\<close>

theorem log_shutdown_hangs:
  assumes "shutdown_flag (ld s)" and "pc s = In_pop" and "queue_inv (log_queue (ld s))" and "items (log_queue (ld s)) = []"
  shows "\<nexists>s'. log_step s s'"
proof
  assume "\<exists>s'. log_step s s'"
  then obtain s' where "log_step s s'"
    by blast
  then show False
    using assms log_q.pop_empty [OF assms(3,4)] by (cases rule: log_step.cases) auto
qed

theorem log_shutdown_hangs_witness:
  "\<exists>s. log_step\<^sup>*\<^sup>* (log_start empty_log) s \<and> shutdown_flag (ld s) \<and> pc s \<noteq> Ended \<and> (\<nexists>s'. log_step s s')"
proof -
  let ?s0 = "log_start empty_log"
  let ?s1 = "?s0\<lparr>pc := In_pop\<rparr>"
  let ?s2 = "?s1\<lparr>ld := empty_log\<lparr>shutdown_flag := True\<rparr>\<rparr>"
  have "log_step ?s0 ?s1" "log_step ?s1 ?s2"
    using test [of ?s0] shutdown [of ?s1] by (simp_all add: log_start_def empty_log_def)
  then have r: "log_step\<^sup>*\<^sup>* ?s0 ?s2"
    by (meson converse_rtranclp_into_rtranclp r_into_rtranclp)
  have "queue_inv (log_queue (ld ?s2))" and "items (log_queue (ld ?s2)) = []"
    using empty_queue [OF empty_log_queue] by (auto simp: queue_inv_def)
  then have "\<nexists>s'. log_step ?s2 s'"
    using log_shutdown_hangs [of ?s2] by simp
  then show ?thesis
    using r by (intro exI [of _ ?s2]) simp
qed

text \<open>The text of the log.\<close>

definition time_string :: "tm \<Rightarrow> bytes" where
  "time_string t = digits2 (tm_mon t + 1) @ ascii ''/'' @ digits2 (tm_mday t) @ ascii ''/'' @
     pad 4 (of_char CHR '' '') (dec (1900 + tm_year t)) @ ascii '' '' @ digits2 (tm_hour t) @ ascii '':'' @ digits2 (tm_min t)"

definition log_string :: "(32 word \<Rightarrow> 64 word) \<Rightarrow> tm \<Rightarrow> message_desc \<Rightarrow> bytes" where
  "log_string reg t md = ascii ''thread id: '' @ dec_long (tid md) @ ascii '' date: '' @ time_string t @ ascii '' message: '' @
     c_str (message md) @ ascii '' error code: '' @ dec_long (reg (error_code md)) @ ascii '' '' @ dec_long (reg (level md)) @ [10]"

lemma pad_no_0: "0 \<notin> set s \<Longrightarrow> c \<noteq> 0 \<Longrightarrow> 0 \<notin> set (pad n c s)"
  by (simp add: pad_def)

lemma time_text_eq:
  assumes "tm_mon t < 12" "tm_mday t < 32" "tm_year t < 8100" "tm_hour t < 24" "tm_min t < 60"
  shows "time_text t = Inr (time_string t)" and "length (time_string t) = 16" and "0 \<notin> set (time_string t)"
proof -
  have d2: "length (digits2 n) = 2" if "n < 100" for n
    using that dec_length [of n 2] by (simp add: pad_def)
  have y: "length (pad 4 c (dec (1900 + tm_year t))) = 4" for c
    using assms(3) dec_length [of "1900 + tm_year t" 4] by (simp add: pad_def)
  show len: "length (time_string t) = 16"
    using assms d2 y by (simp add: time_string_def)
  show nz: "0 \<notin> set (time_string t)"
    by (simp add: time_string_def pad_no_0 dec_no_0)
  have "time_text t = bindc (memcpy_to (replicate 17 0) 0 (time_string t @ [0])) (\<lambda>buf. Inr (c_str buf))"
    by (simp only: time_text_def time_string_def append_assoc)
  then show "time_text t = Inr (time_string t)"
    using sprintf_text [OF nz, of "replicate 17 0"] len by (simp only: length_replicate)
qed

lemma log_line_eq:
  assumes "length (message md) = 4096" and "0 \<in> set (message md)" and "length (time_string t) = 16" and "0 \<notin> set (time_string t)"
  shows "log_line reg (time_string t) md = Inr (log_string reg t md)" and "length (log_string reg t md) < 5120"
proof -
  have "length (c_str (message md)) < 4096"
    using length_c_str [OF assms(2)] assms(1) by simp
  then show len: "length (log_string reg t md) < 5120"
    using assms(3) dec_long_length [of "tid md"] dec_long_length [of "reg (error_code md)"] dec_long_length [of "reg (level md)"]
    by (simp add: log_string_def)
  have nz: "0 \<notin> set (log_string reg t md)"
    using assms(4) by (simp add: log_string_def dec_long_no_0)
  have "log_line reg (time_string t) md =
      bindc (memcpy_to (replicate (4096 + 1024) 0) 0 (log_string reg t md @ [0])) (\<lambda>buf. Inr (c_str buf))"
    using assms(2) by (simp only: log_line_def log_string_def guardc_simps bindc_Inr append_assoc append.simps)
  moreover have "length (log_string reg t md) < length (replicate (4096 + 1024) (0 :: byte))"
    unfolding length_replicate using len by simp
  ultimately show "log_line reg (time_string t) md = Inr (log_string reg t md)"
    using sprintf_text [OF nz] by (simp only:)
qed

text \<open>C30: the text of the log. For a message with a terminating zero in its 4096 bytes and a date before the year 10000,
  both buffers of \<open>write_to_logfile\<close> are large enough, and the line appended to the file is the one that the
  formats describe.\<close>

theorem write_to_logfile_line:
  assumes "length (message md) = 4096" and "0 \<in> set (message md)" and "localtime (message_time md) = t"
    and "tm_mon t < 12" "tm_mday t < 32" "tm_year t < 8100" "tm_hour t < 24" "tm_min t < 60"
  shows "write_to_logfile reg localtime (Some path) md fs = Inr (fwrite path (log_string reg t md) fs) \<and>
    length (log_string reg t md) < 5120"
  using time_text_eq [OF assms(4-8)] log_line_eq [OF assms(1,2)] assms(3) by (simp add: write_to_logfile_def)

definition short_message :: message_desc where
  "short_message = \<lparr>message = replicate 4096 0, error_code = 0, level = 0, message_time = 0, tid = 7\<rparr>"

definition some_day :: tm where
  "some_day = \<lparr>tm_mon = 0, tm_mday = 1, tm_year = 70, tm_hour = 0, tm_min = 0\<rparr>"

lemma short_message_facts:
  "length (message short_message) = 4096" "0 \<in> set (message short_message)" "c_str (message short_message) = []"
proof -
  have m: "message short_message = replicate 4096 0"
    by (simp only: short_message_def message_desc.simps)
  show "length (message short_message) = 4096" "0 \<in> set (message short_message)"
    unfolding m by (simp_all only: length_replicate set_replicate_conv_if) simp
  show "c_str (message short_message) = []"
    unfolding m c_str_def by (subst takeWhile_eq_Nil_iff) (simp only: hd_replicate, simp)
qed

theorem write_to_logfile_line_witness:
  "write_to_logfile ucast (\<lambda>_. some_day) (Some [97]) short_message (one_file [97] []) =
     Inr (put_file [97] (ascii ''thread id: 7 date: 01/01/1970 00:00 message:  error code: 0 0\<newline>'') (one_file [97] []))"
proof -
  have "log_string ucast some_day short_message = ascii ''thread id: 7 date: 01/01/1970 00:00 message:  error code: 0 0\<newline>''"
    unfolding log_string_def short_message_facts(3)
    by (simp add: time_string_def some_day_def short_message_def pad_def dec_long_def dec.simps)
  then show ?thesis
    using write_to_logfile_line [OF short_message_facts(1,2), of "\<lambda>_. some_day" some_day ucast "[97]" "one_file [97] []"]
    by (simp add: some_day_def fwrite_def one_file_def)
qed

text \<open>Every call of the server passes a literal that is shorter than 4096 bytes. \<open>log_write\<close> and \<open>log_write_thread\<close> copy 4096 bytes
  from its address, and so read beyond the end of the literal.\<close>

theorem log_write_overreads:
  assumes "length msg < 4096"
  shows "log_write mem now d msg error lvl = Inl OutOfBounds \<and> log_write_thread mem now d thread msg error lvl = Inl OutOfBounds"
  using assms by (simp add: log_write_def log_write_thread_def memcpy_from_def)

theorem log_write_overreads_witness:
  "log_write (Some 8) 0 (Some empty_log) (lit ''Start main loop!'') 0 0 = Inl OutOfBounds"
  using log_write_overreads [of "lit ''Start main loop!''"] by (simp add: lit_def)

end
