(* ===== verification/File_Server.thy ===== *)
theory File_Server
  imports Conn_Pool Request Net Log
begin

text \<open>
  The file server (\<open>fileserver/server.c\<close> and \<open>os_layer.c\<close>) on top of the pool of connections, the parser
  of requests, the transfer of files and the log.

  The main thread accepts connections and starts a worker thread for each; the workers release their slot
  of the pool at the end. This interplay is the relation \<open>srv_step\<close>: what happens under the lock
  of the pool is one step. \<open>get_file\<close>, whose source is not complete, is an argument.
\<close>

subsection \<open>os_layer.c\<close>

datatype daemon_result = Exit_failure | Exit_success | Running int "int list"

text \<open>The results of the two calls of \<open>fork\<close>, of \<open>setsid\<close> and of \<open>getpid\<close> are arguments; the last component lists the closed descriptors.\<close>

definition start_daemon :: "int \<Rightarrow> int \<Rightarrow> int \<Rightarrow> int \<Rightarrow> daemon_result" where
  "start_daemon fork1 setsid fork2 getpid =
     (if fork1 < 0 then Exit_failure
      else if 0 < fork1 then Exit_success
      else if setsid < 0 then Exit_failure
      else if fork2 < 0 then Exit_failure
      else if 0 < fork2 then Exit_success
      else Running getpid [0, 1, 2])"

subsection \<open>server.c: the pipe and the signal handler\<close>

record Pipe =
  pfd0 :: int32
  pfd1 :: int32
  readfds :: "int32 set"
  nfds :: int32

record process =
  exit_signal :: bool
  in_pipe :: bytes
  exited :: "int option"

text \<open>\<open>eagain\<close> is \<open>None\<close> when \<open>write\<close> succeeds, else it tells whether \<open>errno\<close> is \<open>EAGAIN\<close>.\<close>

definition signal_handler :: "bool option \<Rightarrow> process \<Rightarrow> process" where
  "signal_handler eagain s =
     (let s = s\<lparr>exit_signal := True\<rparr> in
      case eagain of None \<Rightarrow> s\<lparr>in_pipe := in_pipe s @ [of_char CHR ''x'']\<rparr>
      | Some True \<Rightarrow> s
      | Some False \<Rightarrow> s\<lparr>exited := Some 1\<rparr>)"

text \<open>\<open>fcntl\<close> is called four times.\<close>

definition init_pipe :: "bool \<Rightarrow> (int32 \<times> int32) option \<Rightarrow> bool list \<Rightarrow> fault + (int64_t \<times> Pipe option)" where
  "init_pipe mem_ok pipe fcntl_ok =
     bindc (guardc NullDeref mem_ok) (\<lambda>_.
     case pipe of None \<Rightarrow> Inr (NOT_OK, None)
     | Some (r, w) \<Rightarrow>
         let p = \<lparr>pfd0 = r, pfd1 = w, readfds = {r}, nfds = r + 1\<rparr> in
         if \<not> fcntl_ok ! 0 then Inr (NOT_OK, Some p)
         else if \<not> fcntl_ok ! 1 then Inr (NOT_OK, Some p)
         else if \<not> fcntl_ok ! 2 then Inr (NOT_OK, Some p)
         else if \<not> fcntl_ok ! 3 then Inr (NOT_OK, Some p)
         else Inr (OK, Some p))"

subsection \<open>server.c: the workers\<close>

text \<open>\<open>serve_connection\<close> reads a request of at most 8192 bytes into a buffer of that size.\<close>

definition serve_connection ::
    "block_alloc \<Rightarrow> (bytes option \<Rightarrow> bytes option \<Rightarrow> sock \<Rightarrow> fault + sock) \<Rightarrow> nat \<Rightarrow> file_system \<Rightarrow> sock \<Rightarrow> fault + sock" where
  "serve_connection malloc get_file fuel fs sk =
     (let (request, sk) = recv (4096 * 2) sk in
      bindc (parse_request malloc True request) (\<lambda>(args, args_cnt).
      bindc (load_at args 0) (\<lambda>a0.
      bindc (get_op_type a0) (\<lambda>op.
      bindc (case op of
          GET \<Rightarrow>
            bindc (load_at args 1) (\<lambda>a1.
            case a1 of None \<Rightarrow> Inl NullDeref | Some path \<Rightarrow> send_file True fuel fs (c_str path) sk)
        | POST \<Rightarrow> bindc (load_at args 1) (\<lambda>a1. bindc (load_at args 2) (\<lambda>a2. get_file a1 a2 sk))
        | UNDEFINED \<Rightarrow> Inr sk) (\<lambda>sk.
      bindc (free_args_list args args_cnt) (\<lambda>_. Inr sk))))))"

text \<open>
  \<open>client_serving\<close>: \<open>img s\<close> are the bytes in memory from the address of the literal \<open>s\<close> on, \<open>mem\<close> the
  results of \<open>malloc\<close> for the four messages, \<open>pid_of\<close> the number that is found 720 bytes behind the
  address that the thread id is.
\<close>

record server =
  srv_pool :: ConnectionsPool
  srv_log :: LogDesc
  srv_socks :: "int32 \<Rightarrow> sock"

definition log_msg :: "(string \<Rightarrow> bytes) \<Rightarrow> ptr \<Rightarrow> 64 word \<Rightarrow> 64 word \<Rightarrow> string \<Rightarrow> server \<Rightarrow> fault + server" where
  "log_msg img mem now thread s sv =
     bindc (log_write_thread mem now (Some (srv_log sv)) thread (img s) 0 0) (\<lambda>d.
     Inr (sv\<lparr>srv_log := (case d of None \<Rightarrow> srv_log sv | Some d \<Rightarrow> d)\<rparr>))"

definition client_serving ::
    "(string \<Rightarrow> bytes) \<Rightarrow> (nat \<Rightarrow> ptr) \<Rightarrow> 64 word \<Rightarrow> (64 word \<Rightarrow> 64 word) \<Rightarrow> block_alloc \<Rightarrow>
      (bytes option \<Rightarrow> bytes option \<Rightarrow> sock \<Rightarrow> fault + sock) \<Rightarrow> nat \<Rightarrow> file_system \<Rightarrow> int64_t option \<Rightarrow> server \<Rightarrow>
      fault + (server \<times> pool_event list)" where
  "client_serving img mem now pid_of malloc get_file fuel fs data sv = (case data of None \<Rightarrow> Inl Uninit
     | Some ofs \<Rightarrow>
         bindc (load_at (connections (srv_pool sv)) (unat ofs)) (\<lambda>conn_desc.
         let thread = pid_of (thread_id conn_desc) in
         bindc (log_msg img (mem 0) now thread ''client serving'' sv) (\<lambda>sv.
         bindc (log_msg img (mem 1) now thread ''start service'' sv) (\<lambda>sv.
         bindc (serve_connection malloc get_file fuel fs (srv_socks sv (connection_sock conn_desc))) (\<lambda>sk.
         let sv = sv\<lparr>srv_socks := (srv_socks sv)(connection_sock conn_desc := sk)\<rparr> in
         bindc (log_msg img (mem 2) now thread ''release connection'' sv) (\<lambda>sv.
         bindc (release_connection (Some (srv_pool sv)) (offset conn_desc)) (\<lambda>(release_res, pool, out).
         let sv = sv\<lparr>srv_pool := (case pool of None \<Rightarrow> srv_pool sv | Some p \<Rightarrow> p)\<rparr> in
         bindc (log_msg img (mem 3) now thread ''pthread_mutex_unlock'' sv) (\<lambda>sv.
         Inr (sv, out)))))))))"

subsection \<open>server.c: the main thread\<close>

text \<open>The condition of the loop of \<open>wait_routines\<close>; while it does not hold the thread waits.\<close>

definition wait_routines :: "ConnectionsPool \<Rightarrow> fault + (int64_t \<times> int64_t)" where
  "wait_routines pool =
     (if pool_is_free pool then Inr (free_space_bitmap pool, free_space_bitmap pool - INT64_MAX) else Inl Blocked)"

text \<open>
  \<open>created\<close> is the id of the new thread, \<open>None\<close> when \<open>pthread_create\<close> fails. The last component of the
  result is the slot for which a thread was started.
\<close>

definition start_client_serving_routine ::
    "64 word \<Rightarrow> 64 word option \<Rightarrow> ConnectionsPool option \<Rightarrow> int32 \<Rightarrow>
      fault + (int64_t \<times> ConnectionsPool option \<times> pool_event list \<times> nat option)" where
  "start_client_serving_routine junk created pool sock =
     (if pool = None then Inr (NOT_OK, None, [], None)
      else
        bindc (store_connection junk pool sock) (\<lambda>(ofs, pool).
        if ofs = NOT_OK then Inr (NOT_OK, pool, [], None)
        else
          case get_tid_pos pool ofs of None \<Rightarrow> Inr (NOT_OK, pool, [], None)
          | Some pos \<Rightarrow> (case created of
              None \<Rightarrow> bindc (release_connection pool ofs) (\<lambda>(r, pool, out). Inr (NOT_OK, pool, out, None))
            | Some t \<Rightarrow> (case pool of None \<Rightarrow> Inl NullDeref
                | Some p \<Rightarrow>
                    bindc (load_at (connections p) (unat pos)) (\<lambda>c.
                    bindc (store_at (connections p) (unat pos) (c\<lparr>thread_id := t\<rparr>)) (\<lambda>cs.
                    Inr (OK, Some (p\<lparr>connections := cs\<rparr>), [], Some (unat pos))))))))"

definition init_worker_args :: "nat \<Rightarrow> int64_t list" where
  "init_worker_args thread_limit = map of_nat [0..<thread_limit]"

definition start_log_routine :: "64 word option \<Rightarrow> 64 word" where
  "start_log_routine created = (case created of None \<Rightarrow> NOT_OK | Some t \<Rightarrow> t)"

text \<open>
  One round of the loop of \<open>main_loop\<close>. \<open>pipe_ready\<close>: the pipe of the signal handler is readable, and
  then whether reading it fails with \<open>EAGAIN\<close>. \<open>conn\<close>: the listening socket is readable, and what \<open>accept\<close>
  returns. The flag of the result says that the loop is left.
\<close>

definition accept_connection ::
    "int64_t \<Rightarrow> 64 word \<Rightarrow> 64 word option \<Rightarrow> ConnectionsPool \<Rightarrow> int32 \<Rightarrow>
      fault + (int64_t \<times> ConnectionsPool option \<times> pool_event list \<times> nat option)" where
  "accept_connection z junk created pool sock =
     bindc (pool_is_full z pool) (\<lambda>full.
     if full then Inl Blocked else start_client_serving_routine junk created (Some pool) sock)"

definition main_loop_round ::
    "int64_t \<Rightarrow> 64 word \<Rightarrow> 64 word option \<Rightarrow> bool option \<Rightarrow> int32 option \<Rightarrow> ConnectionsPool \<Rightarrow>
      fault + (bool \<times> ConnectionsPool \<times> pool_event list \<times> nat option)" where
  "main_loop_round z junk created pipe_ready conn pool =
     (if pipe_ready = Some False then Inr (True, pool, [], None)
      else case conn of None \<Rightarrow> Inr (False, pool, [], None)
      | Some sock \<Rightarrow>
          if sock = - 1 then Inr (False, pool, [], None)
          else
            bindc (accept_connection z junk created pool sock) (\<lambda>(res, p, out, started).
            Inr (False, (case p of None \<Rightarrow> pool | Some p \<Rightarrow> p), out, started)))"

subsection \<open>The threads together\<close>

datatype phase = Serving | Draining | Stopped

record srv =
  s_pool :: ConnectionsPool
  s_workers :: "nat set"
  s_unserved :: "int32 list"
  s_phase :: phase

text \<open>\<open>Z\<close> are the values that may lie in the uninitialised variable of \<open>pool_is_full\<close>.\<close>

inductive srv_step :: "int64_t set \<Rightarrow> srv \<Rightarrow> srv \<Rightarrow> bool" for Z where
  accept: "s_phase s = Serving \<Longrightarrow> z \<in> Z \<Longrightarrow> sock \<noteq> - 1 \<Longrightarrow>
    main_loop_round z junk created None (Some sock) (s_pool s) = Inr (False, p, out, started) \<Longrightarrow>
    srv_step Z s (s\<lparr>s_pool := p, s_workers := s_workers s \<union> set_option started,
      s_unserved := s_unserved s @ (if started = None then [sock] else [])\<rparr>)"
| finish: "k \<in> s_workers s \<Longrightarrow>
    release_connection (Some (s_pool s)) (offset (connections (s_pool s) ! k)) = Inr (r, Some p, out) \<Longrightarrow>
    srv_step Z s (s\<lparr>s_pool := p, s_workers := s_workers s - {k}\<rparr>)"
| signal: "s_phase s = Serving \<Longrightarrow> srv_step Z s (s\<lparr>s_phase := Draining\<rparr>)"
| stop: "s_phase s = Draining \<Longrightarrow> wait_routines (s_pool s) = Inr x \<Longrightarrow> srv_step Z s (s\<lparr>s_phase := Stopped\<rparr>)"

definition srv_inv :: "srv \<Rightarrow> bool" where
  "srv_inv s \<longleftrightarrow> pool_inv (s_pool s) \<and> dom (conns (s_pool s)) = s_workers s \<and>
     (s_phase s = Stopped \<longrightarrow> s_workers s = {})"

text \<open>The values for which \<open>pool_is_full\<close> works.\<close>

definition lucky :: "nat \<Rightarrow> int64_t \<Rightarrow> bool" where
  "lucky n z \<longleftrightarrow> (\<forall>i. n \<le> i \<and> i < 64 \<longrightarrow> bit z i = (i < 63))"

lemma set_thread_id:
  assumes "pool_inv p" and "k < unat (p_size p)"
  shows "pool_inv (p\<lparr>connections := (connections p)[k := (connections p ! k)\<lparr>thread_id := t\<rparr>]\<rparr>)"
    and "conns (p\<lparr>connections := (connections p)[k := (connections p ! k)\<lparr>thread_id := t\<rparr>]\<rparr>) = conns p"
  using assms by (auto simp: pool_inv_def conns_def nth_list_update fun_eq_iff)

lemma of_nat_not_NOT_OK: "k < 64 \<Longrightarrow> (of_nat k :: int64_t) \<noteq> NOT_OK"
proof
  assume "k < 64" and "(of_nat k :: int64_t) = NOT_OK"
  then have "k = 2 ^ 64 - 1"
    using unat_of_nat_less [of k] by (simp add: unsigned_minus_1_eq_mask mask_eq_exp_minus_1)
  then show False
    using \<open>k < 64\<close> by simp
qed

lemma release_some: "release_connection (Some p) ofs = Inr (r, p', out) \<Longrightarrow> p' \<noteq> None"
  by (auto simp: release_connection_def bindc_eq_Inr_iff Let_def)

lemma store_some: "store_connection junk (Some p) sock = Inr (r, p') \<Longrightarrow> p' \<noteq> None"
  by (auto simp: store_connection_def bindc_eq_Inr_iff Let_def split: if_splits)

lemma start_some:
  "start_client_serving_routine junk created (Some p) sock = Inr (r, p', out, started) \<Longrightarrow> p' \<noteq> None"
  by (auto simp: start_client_serving_routine_def bindc_eq_Inr_iff get_tid_pos_def dest!: store_some release_some
      split: if_splits option.splits)

text \<open>Starting a worker on a pool with a free slot.\<close>

lemma start_spec:
  assumes "pool_inv p" and "i < unat (p_size p)" and "i \<notin> dom (conns p)"
    and "start_client_serving_routine junk created (Some p) sock = Inr (r, Some p', out, started)"
  shows "pool_inv p' \<and> p_size p' = p_size p \<and>
    (case started of None \<Rightarrow> conns p' = conns p | Some k \<Rightarrow> k \<notin> dom (conns p) \<and> conns p' = (conns p)(k \<mapsto> sock))"
proof -
  obtain k p1 where k: "store_connection junk (Some p) sock = Inr (of_nat k, Some p1)" "pool_inv p1"
      "k < unat (p_size p)" "k \<notin> dom (conns p)" "conns p1 = (conns p)(k \<mapsto> sock)" "p_size p1 = p_size p"
    by (rule store_spec [OF assms(1-3)])
  have lt: "k < 31"
    using k(3) pool_invD(1) [OF assms(1)] by simp
  then have kk: "(of_nat k :: int64_t) \<noteq> NOT_OK" "unat (of_nat k :: int64_t) = k"
    using of_nat_not_NOT_OK [of k] unat_of_nat_less [of k] by simp_all
  show ?thesis
  proof (cases created)
    case None
    have "conns p1 k = Some sock"
      using k(5) by simp
    then obtain p2 where p2: "release_connection (Some p1) (of_nat k) = Inr (OK, Some p2,
        [Close sock] @ (if conns p2 = Map.empty then [Broadcast_cond] else []) @ [Broadcast_is_free_cond])"
        "pool_inv p2" "conns p2 = (conns p1)(k := None)" "p_size p2 = p_size p1"
      by (rule release_spec [OF k(2)])
    have "conns p2 = conns p"
      using k(4,5) p2(3) by (simp add: domIff fun_upd_idem)
    moreover have "p' = p2 \<and> started = None"
      using assms(4) k(1) kk(1) p2(1) None by (simp add: start_client_serving_routine_def get_tid_pos_def)
    ultimately show ?thesis
      using p2(2,4) k(6) by simp
  next
    case (Some t)
    have "k < length (connections p1)"
      using k(3,6) pool_invD(2) [OF k(2)] by simp
    then have "p' = p1\<lparr>connections := (connections p1)[k := (connections p1 ! k)\<lparr>thread_id := t\<rparr>]\<rparr> \<and> started = Some k"
      using assms(4) k(1) kk Some
      by (simp add: start_client_serving_routine_def get_tid_pos_def load_at_def store_at_def)
    then show ?thesis
      using set_thread_id [OF k(2), of k t] k(3-6) by simp
  qed
qed

lemma srv_inv_accept:
  assumes "srv_inv s" and "lucky (unat (p_size (s_pool s))) z" and "s_phase s = Serving" and "sock \<noteq> - 1"
    and "main_loop_round z junk created None (Some sock) (s_pool s) = Inr (False, p, out, started)"
  shows "srv_inv (s\<lparr>s_pool := p, s_workers := s_workers s \<union> set_option started,
      s_unserved := s_unserved s @ u\<rparr>) \<and> p_size p = p_size (s_pool s)"
proof -
  let ?p = "s_pool s"
  have inv: "pool_inv ?p" "dom (conns ?p) = s_workers s"
    using assms(1) by (auto simp: srv_inv_def)
  obtain r p' where acc: "accept_connection z junk created ?p sock = Inr (r, p', out, started)" "p = (case p' of None \<Rightarrow> ?p | Some p \<Rightarrow> p)"
    using assms(4,5) by (auto simp: main_loop_round_def bindc_eq_Inr_iff)
  have "pool_is_full z ?p = Inr (dom (conns ?p) = {..<unat (p_size ?p)})"
    using is_full_iff [OF inv(1), of z] assms(2) by (simp add: lucky_def)
  then have ne: "dom (conns ?p) \<noteq> {..<unat (p_size ?p)}"
    and st: "start_client_serving_routine junk created (Some ?p) sock = Inr (r, p', out, started)"
    using acc(1) by (auto simp: accept_connection_def split: if_splits)
  have "dom (conns ?p) \<subseteq> {..<unat (p_size ?p)}"
    by (auto simp: dom_conns)
  then obtain i where i: "i < unat (p_size ?p)" "i \<notin> dom (conns ?p)"
    using ne by blast
  obtain q where "p' = Some q" "p = q"
    using start_some [OF st] acc(2) by auto
  then show ?thesis
    using start_spec [OF inv(1) i, of junk created sock r q out started] st inv(2) assms(3)
    by (cases started) (auto simp: srv_inv_def)
qed


lemma worker_offset:
  assumes "srv_inv s" and "k \<in> s_workers s"
  shows "offset (connections (s_pool s) ! k) = of_nat k" and "\<exists>c. conns (s_pool s) k = Some c"
proof -
  have k: "k \<in> dom (conns (s_pool s))" and inv: "pool_inv (s_pool s)"
    using assms by (auto simp: srv_inv_def)
  then show "\<exists>c. conns (s_pool s) k = Some c"
    by auto
  show "offset (connections (s_pool s) ! k) = of_nat k"
    using pool_invD(5) [OF inv] k by (auto simp: dom_conns)
qed

lemma srv_finish:
  assumes "srv_inv s" and "k \<in> s_workers s"
  obtains r p out where "release_connection (Some (s_pool s)) (offset (connections (s_pool s) ! k)) = Inr (r, Some p, out)"
    and "srv_inv (s\<lparr>s_pool := p, s_workers := s_workers s - {k}\<rparr>)" and "p_size p = p_size (s_pool s)"
proof -
  have inv: "pool_inv (s_pool s)" "dom (conns (s_pool s)) = s_workers s" "s_phase s \<noteq> Stopped"
    using assms by (auto simp: srv_inv_def)
  obtain c where "conns (s_pool s) k = Some c"
    using worker_offset(2) [OF assms] by blast
  then obtain p where p: "release_connection (Some (s_pool s)) (of_nat k) = Inr (OK, Some p,
      [Close c] @ (if conns p = Map.empty then [Broadcast_cond] else []) @ [Broadcast_is_free_cond])"
      "pool_inv p" "conns p = (conns (s_pool s))(k := None)" "p_size p = p_size (s_pool s)"
    by (rule release_spec [OF inv(1)])
  show thesis
  proof (rule that)
    show "release_connection (Some (s_pool s)) (offset (connections (s_pool s) ! k)) = Inr (OK, Some p,
        [Close c] @ (if conns p = Map.empty then [Broadcast_cond] else []) @ [Broadcast_is_free_cond])"
      using p(1) worker_offset(1) [OF assms] by simp
    show "srv_inv (s\<lparr>s_pool := p, s_workers := s_workers s - {k}\<rparr>)"
      using p(2,3) inv by (simp add: srv_inv_def)
  qed (rule p(4))
qed

lemma srv_inv_step:
  assumes "srv_step Z s s'" and "srv_inv s" and "\<And>z. z \<in> Z \<Longrightarrow> lucky (unat (p_size (s_pool s))) z"
  shows "srv_inv s' \<and> p_size (s_pool s') = p_size (s_pool s)"
  using assms(1)
proof cases
  case (accept z sock junk created p out started)
  show ?thesis
    unfolding accept(1) using srv_inv_accept [OF assms(2) assms(3) [OF accept(3)] accept(2,4,5)] by simp
next
  case (finish k r p out)
  obtain r' p' out' where "release_connection (Some (s_pool s)) (offset (connections (s_pool s) ! k)) = Inr (r', Some p', out')"
      "srv_inv (s\<lparr>s_pool := p', s_workers := s_workers s - {k}\<rparr>)" "p_size p' = p_size (s_pool s)"
    by (rule srv_finish [OF assms(2) finish(2)])
  then show ?thesis
    using finish by simp
next
  case signal
  then show ?thesis
    using assms(2) by (simp add: srv_inv_def)
next
  case (stop x)
  have "pool_inv (s_pool s)"
    using assms(2) by (simp add: srv_inv_def)
  then have "conns (s_pool s) = Map.empty"
    using stop(3) free_iff by (auto simp: wait_routines_def split: if_splits)
  then show ?thesis
    using stop(1) assms(2) by (auto simp: srv_inv_def)
qed

lemma srv_inv_reachable:
  assumes "(srv_step Z)\<^sup>*\<^sup>* s s'" and "srv_inv s" and "\<And>z. z \<in> Z \<Longrightarrow> lucky (unat (p_size (s_pool s))) z"
  shows "srv_inv s' \<and> p_size (s_pool s') = p_size (s_pool s)"
  using assms(1)
proof (induction rule: rtranclp_induct)
  case (step y z)
  then show ?case
    using srv_inv_step [OF step(2)] assms(3) by simp
qed (simp add: assms(2))

definition srv_start :: "ConnectionsPool \<Rightarrow> srv" where
  "srv_start p = \<lparr>s_pool = p, s_workers = {}, s_unserved = [], s_phase = Serving\<rparr>"

lemma srv_start_inv:
  assumes "unat sz \<le> 31" and "create_conn_pool True True True True True sz = (Some p, held)"
  shows "srv_inv (srv_start p)" and "p_size p = sz"
  using create_ok [OF assms] by (auto simp: srv_inv_def srv_start_def)

subsection \<open>A slot that is never given back\<close>

text \<open>
  \<open>leaky p W\<close>: the bit above the last slot of the pool is taken, although no connection has it. The slots
  \<open>W\<close> have workers.
\<close>

definition leaky :: "ConnectionsPool \<Rightarrow> nat set \<Rightarrow> bool" where
  "leaky p W \<longleftrightarrow> unat (p_size p) \<le> 31 \<and> \<not> bit (free_space_bitmap p) (unat (p_size p)) \<and>
     length (connections p) = unat (p_size p) \<and>
     (\<forall>k \<in> W. k < unat (p_size p) \<and> \<not> bit (free_space_bitmap p) k \<and> offset (connections p ! k) = of_nat k)"

lemma leaky_not_free: "leaky p W \<Longrightarrow> \<not> pool_is_free p"
  by (auto simp: leaky_def pool_is_free_def bit_INT64_MAX)

lemma book_sub:
  assumes "book_pos (Some b) = Inr (ofs, b')"
  obtains k b1 where "k < 32" and "ofs = of_nat k" and "b' = Some b1" and "bit b k" and "\<not> bit b1 k" and "\<forall>i. bit b1 i \<longrightarrow> bit b i"
proof -
  have "(ucast b :: 32 word) \<noteq> 0"
    using assms by (auto simp: book_pos_def builtin_ctz_def split: if_splits)
  then obtain i where "bit (ucast b :: 32 word) i"
    by (auto simp: bit_eq_iff)
  then have "i < 32 \<and> bit b i"
    by (auto simp: bit_unsigned_iff)
  then obtain k where k: "k \<le> i" "k < 32 \<and> bit b k" "\<And>j. j < k \<Longrightarrow> \<not> (j < 32 \<and> bit b j)"
    using least_free [of "\<lambda>i. i < 32 \<and> bit b i" i] by blast
  then have "\<And>j. j < k \<Longrightarrow> \<not> bit b j"
    by auto
  then obtain b1 where "book_pos (Some b) = Inr (of_nat k, Some b1)"
      "\<And>n. bit b1 n \<longleftrightarrow> bit b n \<and> (if k = 31 then n < 31 else n \<noteq> k)"
    using book_pos_spec [of k b] k(2) by blast
  then show thesis
    using that [of k b1] assms k(2) by (auto split: if_splits)
qed

lemma leaky_store:
  assumes "leaky p W" and "store_connection junk (Some p) sock = Inr (ofs, p')"
  obtains "ofs = NOT_OK" and "\<exists>q. p' = Some q \<and> leaky q W"
  | k q where "ofs = of_nat k" and "p' = Some q" and "k < unat (p_size q)" and "leaky q (insert k W)" and "k \<notin> W"
proof (cases "free_space_bitmap p = 0")
  case True
  then show thesis
    using assms that(1) by (auto simp: store_connection_def)
next
  case False
  then obtain ofs1 b' where b': "book_pos (Some (free_space_bitmap p)) = Inr (ofs1, b')"
    using assms(2) by (auto simp: store_connection_def bindc_eq_Inr_iff)
  obtain k b1 where k: "k < 32" "ofs1 = of_nat k" "b' = Some b1" "bit (free_space_bitmap p) k" "\<not> bit b1 k"
      "\<forall>i. bit b1 i \<longrightarrow> bit (free_space_bitmap p) i"
    using book_sub [OF b'] by blast
  let ?p = "p\<lparr>free_space_bitmap := b1\<rparr>"
  have lk: "leaky ?p W"
    using assms(1) k(6) by (auto simp: leaky_def)
  have kk: "(of_nat k :: int64_t) \<noteq> - 1" "unat (of_nat k :: int64_t) = k"
    using of_nat_not_NOT_OK [of k] unat_of_nat_less [of k] k(1) by simp_all
  show thesis
  proof (cases "p_size p \<le> of_nat k")
    case True
    then show thesis
      using assms(2) b' False k(2,3) lk that(1) by (auto simp: store_connection_def)
  next
    case le: False
    then have lt: "k < unat (p_size p)"
      using kk(2) by (simp add: word_le_nat_alt)
    then have "k < length (connections p)" "k \<notin> W"
      using assms(1) k(4) by (auto simp: leaky_def)
    moreover have "leaky (?p\<lparr>connections := (connections p)[k := \<lparr>thread_id = junk, connection_sock = sock, offset = of_nat k\<rparr>]\<rparr>) (insert k W)"
      using lk lt k(5) by (auto simp: leaky_def nth_list_update)
    moreover have "ofs = of_nat k \<and> p' = Some (?p\<lparr>connections := (connections p)[k := \<lparr>thread_id = junk, connection_sock = sock, offset = of_nat k\<rparr>]\<rparr>)"
      using assms(2) b' False k(2,3) kk le calculation(1) by (auto simp: store_connection_def store_at_def)
    ultimately show thesis
      using lt by (intro that(2)) auto
  qed
qed

lemma leaky_release:
  assumes "leaky p W" and "k \<in> W" and "release_connection (Some p) (of_nat k) = Inr (r, p', out)"
  shows "\<exists>q. p' = Some q \<and> leaky q (W - {k}) \<and> p_size q = p_size p"
proof -
  have lt: "k < unat (p_size p)" "k < 31" "k < length (connections p)"
    using assms(1,2) by (auto simp: leaky_def)
  then have kk: "unat (of_nat k :: int64_t) = k"
    using unat_of_nat_less [of k] by simp
  then have "unat (of_nat k :: int64_t) < 32"
    using lt(2) by simp
  then obtain b' where b': "unbook_pos (Some (free_space_bitmap p)) (of_nat k) = Inr (Some b')"
      "\<And>n. bit b' n \<longleftrightarrow> n < 64 \<and> (bit (free_space_bitmap p) n \<or> (if unat (of_nat k :: int64_t) = 31 then 31 \<le> n else n = unat (of_nat k :: int64_t)))"
    using unbook_pos_spec [of "of_nat k" "free_space_bitmap p"] by metis
  then have bits: "\<And>n. bit b' n \<longleftrightarrow> n < 64 \<and> (bit (free_space_bitmap p) n \<or> n = k)"
    using kk lt(2) by simp
  have "leaky (p\<lparr>free_space_bitmap := b', connections := (connections p)[k := no_connection]\<rparr>) (W - {k})"
    using assms(1) lt bits by (auto simp: leaky_def nth_list_update)
  then show ?thesis
    using assms(3) b'(1) kk lt(3) by (auto simp: release_connection_def load_at_def store_at_def Let_def)
qed

lemma leaky_start:
  assumes "leaky p W" and "start_client_serving_routine junk created (Some p) sock = Inr (r, p', out, started)"
  shows "\<exists>q. p' = Some q \<and> leaky q (W \<union> set_option started)"
proof -
  obtain ofs p1 where st: "store_connection junk (Some p) sock = Inr (ofs, p1)"
    using assms(2) by (auto simp: start_client_serving_routine_def bindc_eq_Inr_iff)
  from assms(1) st show ?thesis
  proof (rule leaky_store)
    assume "ofs = NOT_OK" "\<exists>q. p1 = Some q \<and> leaky q W"
    then show ?thesis
      using assms(2) st by (auto simp: start_client_serving_routine_def)
  next
    fix k q
    assume k: "ofs = of_nat k" "p1 = Some q" "k < unat (p_size q)" "leaky q (insert k W)" "k \<notin> W"
    have "k < 64" "k < length (connections q)"
      using k(3,4) by (auto simp: leaky_def)
    then have kk: "(of_nat k :: int64_t) \<noteq> NOT_OK" "unat (of_nat k :: int64_t) = k"
      using of_nat_not_NOT_OK [of k] unat_of_nat_less [of k] by simp_all
    show ?thesis
    proof (cases created)
      case None
      then obtain r1 where "release_connection (Some q) (of_nat k) = Inr (r1, p', out)" "started = None"
        using assms(2) st k(1,2) kk by (auto simp: start_client_serving_routine_def get_tid_pos_def bindc_eq_Inr_iff)
      then show ?thesis
        using leaky_release [OF k(4), of k] k(5) by auto
    next
      case (Some t)
      have "leaky (q\<lparr>connections := (connections q)[k := (connections q ! k)\<lparr>thread_id := t\<rparr>]\<rparr>) (insert k W)"
        using k(4) \<open>k < length (connections q)\<close> by (auto simp: leaky_def nth_list_update)
      then show ?thesis
        using assms(2) st k(1,2) kk Some \<open>k < length (connections q)\<close>
        by (auto simp: start_client_serving_routine_def get_tid_pos_def load_at_def store_at_def)
    qed
  qed
qed

lemma leaky_step:
  assumes "srv_step Z s s'" and "leaky (s_pool s) (s_workers s)" and "s_phase s \<noteq> Stopped"
  shows "leaky (s_pool s') (s_workers s') \<and> s_phase s' \<noteq> Stopped"
  using assms(1)
proof cases
  case (accept z sock junk created p out started)
  then obtain r p' where "start_client_serving_routine junk created (Some (s_pool s)) sock = Inr (r, p', out, started)"
      "p = (case p' of None \<Rightarrow> s_pool s | Some p \<Rightarrow> p)"
    by (auto simp: main_loop_round_def accept_connection_def bindc_eq_Inr_iff split: if_splits)
  then show ?thesis
    using leaky_start [OF assms(2)] accept(1) assms(3) by fastforce
next
  case (finish k r p out)
  then have "offset (connections (s_pool s) ! k) = of_nat k"
    using assms(2) by (auto simp: leaky_def)
  then show ?thesis
    using leaky_release [OF assms(2) finish(2), of r "Some p" out] finish assms(3) by auto
next
  case signal
  then show ?thesis
    using assms(2) by simp
next
  case (stop x)
  then show ?thesis
    using leaky_not_free [OF assms(2)] by (simp add: wait_routines_def)
qed

lemma leaky_reachable:
  assumes "(srv_step Z)\<^sup>*\<^sup>* s s'" and "leaky (s_pool s) (s_workers s)" and "s_phase s \<noteq> Stopped"
  shows "s_phase s' \<noteq> Stopped"
proof -
  have "leaky (s_pool s') (s_workers s') \<and> s_phase s' \<noteq> Stopped"
    using assms(1)
  proof (induction rule: rtranclp_induct)
    case (step y z)
    then show ?case
      using leaky_step [OF step(2)] by blast
  qed (use assms(2,3) in simp)
  then show ?thesis
    by blast
qed


subsection \<open>Properties of the pool\<close>

text \<open>C12: a pool of at most 31 slots is a table of sockets. While a slot is free, \<open>store_connection\<close> puts the socket in the least free
  slot, returns its number and changes nothing else; \<open>release_connection\<close> of a slot in use closes its socket, empties
  just this slot, wakes up the threads that wait for a free slot, and when the table is then empty also those
  that wait for this. Both keep the invariant of the pool.\<close>

theorem pool_refines_table:
  assumes "pool_inv p"
  shows "(i < unat (p_size p) \<and> i \<notin> dom (conns p) \<longrightarrow>
      (\<exists>k p'. store_connection junk (Some p) sock = Inr (of_nat k, Some p') \<and> pool_inv p' \<and> k \<le> i \<and>
        k \<notin> dom (conns p) \<and> (\<forall>j < k. j \<in> dom (conns p)) \<and> conns p' = (conns p)(k \<mapsto> sock))) \<and>
    (conns p i = Some c \<longrightarrow>
      (\<exists>p'. release_connection (Some p) (of_nat i) = Inr (OK, Some p',
          [Close c] @ (if conns p' = Map.empty then [Broadcast_cond] else []) @ [Broadcast_is_free_cond]) \<and>
        pool_inv p' \<and> conns p' = (conns p)(i := None)))"
proof (intro conjI impI)
  assume i: "i < unat (p_size p) \<and> i \<notin> dom (conns p)"
  obtain k p' where k: "store_connection junk (Some p) sock = Inr (of_nat k, Some p')" "pool_inv p'"
      "k \<notin> dom (conns p)" "\<And>j. j < k \<Longrightarrow> j \<in> dom (conns p)" "conns p' = (conns p)(k \<mapsto> sock)"
    using store_spec [OF assms, of i junk sock] i by metis
  then have "k \<le> i"
    using i by (meson linorder_not_le)
  then show "\<exists>k p'. store_connection junk (Some p) sock = Inr (of_nat k, Some p') \<and> pool_inv p' \<and> k \<le> i \<and>
        k \<notin> dom (conns p) \<and> (\<forall>j < k. j \<in> dom (conns p)) \<and> conns p' = (conns p)(k \<mapsto> sock)"
    using k by blast
next
  assume "conns p i = Some c"
  from release_spec [OF assms this] show "\<exists>p'. release_connection (Some p) (of_nat i) = Inr (OK, Some p',
      [Close c] @ (if conns p' = Map.empty then [Broadcast_cond] else []) @ [Broadcast_is_free_cond]) \<and>
    pool_inv p' \<and> conns p' = (conns p)(i := None)"
    by metis
qed

definition new_pool :: "size_t \<Rightarrow> ConnectionsPool" where
  "new_pool sz = \<lparr>connections = replicate (unat sz) no_connection, p_size = sz, free_space_bitmap = INT64_MAX\<rparr>"

lemma new_pool_inv: "unat sz \<le> 31 \<Longrightarrow> pool_inv (new_pool sz) \<and> conns (new_pool sz) = Map.empty"
  by (auto simp: new_pool_def pool_inv_def conns_def bit_INT64_MAX fun_eq_iff)

theorem pool_refines_table_witness:
  "\<exists>p'. store_connection 0 (Some (new_pool 16)) 5 = Inr (0, Some p') \<and> conns p' = [0 \<mapsto> 5]"
proof -
  have "pool_inv (new_pool 16)" "conns (new_pool 16) = Map.empty" "unat (p_size (new_pool 16)) = 16"
    using new_pool_inv [of 16] by (simp_all add: new_pool_def)
  then show ?thesis
    using pool_refines_table [of "new_pool 16" 0 0 5 5] by auto
qed

text \<open>Slot 31 of a larger pool. As the mask has type \<open>int\<close>, booking the bit 31 clears all bits above with it: on a pool whose
  slots 0 to 30 are taken, the pool is full after one more connection, whatever its size.\<close>

theorem book_pos_31:
  assumes "bit b 31" and "\<And>i. i < 31 \<Longrightarrow> \<not> bit b i"
  shows "book_pos (Some b) = Inr (31, Some 0)"
proof -
  obtain b' where b': "book_pos (Some b) = Inr (of_nat 31, Some b')" "\<And>n. bit b' n \<longleftrightarrow> bit b n \<and> (if (31 :: nat) = 31 then n < 31 else n \<noteq> 31)"
    by (rule book_pos_spec [of 31 b]) (use assms in auto)
  then have "b' = 0"
    using assms(2) by (auto simp: bit_eq_iff)
  then show ?thesis
    using b'(1) by simp
qed

theorem book_pos_31_witness:
  "book_pos (Some (push_bit 31 0xFFFFFFFF :: int64_t)) = Inr (31, Some 0)"
  by (rule book_pos_31) (simp, simp only: bit_push_bit_iff, simp)

text \<open>\<open>create_conn_pool\<close> gives back what it has acquired when it fails at any of its five steps, and \<open>destruct_conn_pool\<close> gives back
  all that a successful call holds.\<close>

theorem create_conn_pool_no_leak:
  "create_conn_pool a b c d e sz = (pool, held) \<Longrightarrow> destruct_conn_pool pool held = [] \<and> (pool = None \<longleftrightarrow> \<not> (a \<and> b \<and> c \<and> d \<and> e))"
  by (auto simp: create_conn_pool_def destruct_conn_pool_def Let_def split: if_splits)

theorem create_conn_pool_no_leak_witness:
  "snd (create_conn_pool True True True True False 16) = []"
  using create_conn_pool_no_leak [of True True True True False 16] by (simp add: create_conn_pool_def destruct_conn_pool_def)

subsection \<open>Properties of the server\<close>



text \<open>C2: no two workers share a connection. When the uninitialised variable of \<open>pool_is_full\<close> always has the right upper bits,
  then in every state that a server with at most 31 slots can reach, the slots in use of the pool are those of
  the running workers, and the pool satisfies its invariant.\<close>

theorem server_slots:
  assumes "unat sz \<le> 31" and "create_conn_pool True True True True True sz = (Some p, held)"
    and "\<forall>z \<in> Z. lucky (unat sz) z" and "(srv_step Z)\<^sup>*\<^sup>* (srv_start p) s"
  shows "pool_inv (s_pool s) \<and> dom (conns (s_pool s)) = s_workers s \<and> card (s_workers s) \<le> unat sz"
proof -
  have inv: "srv_inv s" "p_size (s_pool s) = sz"
    using srv_inv_reachable [OF assms(4)] srv_start_inv [OF assms(1,2)] assms(3) by (auto simp: srv_start_def)
  then have "s_workers s \<subseteq> {..<unat sz}"
    by (auto simp: srv_inv_def dom_conns)
  then have "card (s_workers s) \<le> unat sz"
    using card_mono [of "{..<unat sz}"] by fastforce
  then show ?thesis
    using inv by (simp add: srv_inv_def)
qed

definition lucky_value :: int64_t where
  "lucky_value = INT64_MAX"

lemma lucky_value: "lucky n lucky_value"
  by (simp add: lucky_def lucky_value_def bit_INT64_MAX)

theorem server_slots_witness:
  "\<exists>p held s. create_conn_pool True True True True True 16 = (Some p, held) \<and>
     (srv_step {lucky_value})\<^sup>*\<^sup>* (srv_start p) s \<and> s_phase s = Draining \<and> dom (conns (s_pool s)) = s_workers s"
proof -
  obtain p held where p: "create_conn_pool True True True True True 16 = (Some p, held)"
    by (simp add: create_conn_pool_def)
  have "srv_step {lucky_value} (srv_start p) ((srv_start p)\<lparr>s_phase := Draining\<rparr>)"
    by (rule signal) (simp add: srv_start_def)
  then have r: "(srv_step {lucky_value})\<^sup>*\<^sup>* (srv_start p) ((srv_start p)\<lparr>s_phase := Draining\<rparr>)"
    by blast
  moreover have "unat (16 :: size_t) \<le> 31"
    by simp
  ultimately show ?thesis
    using server_slots [OF _ p _ r] lucky_value p by (intro exI [of _ p] exI [of _ held] exI [of _ "(srv_start p)\<lparr>s_phase := Draining\<rparr>"]) simp
qed

definition to_do :: "srv \<Rightarrow> nat" where
  "to_do s = card (s_workers s) + (if s_phase s = Stopped then 0 else 1)"



text \<open>C4: a refused connection. When all slots have workers and the uninitialised variable of \<open>pool_is_full\<close> has other upper bits, the
  check does not notice that the pool is full. The next connection is accepted, but no worker serves it, and from
  then on the server can never stop: a bit of the map is gone, for which \<open>wait_routines\<close> waits.\<close>

theorem server_never_stops:
  assumes "srv_inv s" and "s_phase s = Serving" and "s_workers s = {..<unat (p_size (s_pool s))}"
    and "z \<in> Z" and "\<not> lucky (unat (p_size (s_pool s))) z" and "sock \<noteq> - 1"
  shows "\<exists>s1. srv_step Z s s1 \<and> s_unserved s1 = s_unserved s @ [sock] \<and> s_workers s1 = s_workers s \<and>
    (\<forall>s'. (srv_step Z)\<^sup>*\<^sup>* s1 s' \<longrightarrow> s_phase s' \<noteq> Stopped)"
proof -
  let ?p = "s_pool s"
  have inv: "pool_inv ?p" "dom (conns ?p) = {..<unat (p_size ?p)}"
    using assms(1,3) by (simp_all add: srv_inv_def)
  have full: "\<And>i. i < unat (p_size ?p) \<Longrightarrow> i \<in> dom (conns ?p)"
    using inv(2) by auto
  obtain p' where p': "store_connection 0 (Some ?p) sock = Inr (NOT_OK, Some p')" "p_size p' = p_size ?p"
      "connections p' = connections ?p" "\<not> bit (free_space_bitmap p') (unat (p_size ?p))"
      "\<forall>i. bit (free_space_bitmap p') i \<longrightarrow> bit (free_space_bitmap ?p) i"
    by (rule store_full [OF inv(1) full])
  have "pool_is_full z ?p = Inr False"
    using is_full_iff [OF inv(1), of z] assms(5) by (auto simp: lucky_def)
  then have round: "main_loop_round z 0 None None (Some sock) ?p = Inr (False, p', [], None)"
    using p'(1) assms(6) by (simp add: main_loop_round_def accept_connection_def start_client_serving_routine_def)
  let ?s1 = "s\<lparr>s_pool := p', s_workers := s_workers s \<union> set_option None, s_unserved := s_unserved s @ [sock]\<rparr>"
  have step: "srv_step Z s ?s1"
    using accept [OF assms(2,4,6) round] by simp
  have "leaky p' (s_workers s)"
    using pool_invD(1,2,5) [OF inv(1)] p'(2-5) inv(2) assms(3) by (auto simp: leaky_def dom_conns)
  then have "s_phase s' \<noteq> Stopped" if "(srv_step Z)\<^sup>*\<^sup>* ?s1 s'" for s'
    using leaky_reachable [OF that] assms(2) by simp
  then show ?thesis
    using step by (intro exI [of _ ?s1]) simp
qed

text \<open>A server with one slot and one worker.\<close>

definition busy :: srv where
  "busy = \<lparr>s_pool = \<lparr>connections = [\<lparr>thread_id = 7, connection_sock = 4, offset = 0\<rparr>], p_size = 1,
     free_space_bitmap = INT64_MAX AND - 2\<rparr>, s_workers = {0}, s_unserved = [], s_phase = Serving\<rparr>"

lemma busy_inv: "srv_inv busy"
proof -
  have "(- 2 :: int64_t) = NOT 1"
    by simp
  then have b: "bit (INT64_MAX AND - 2) i \<longleftrightarrow> i < 63 \<and> i \<noteq> 0" for i
    by (auto simp only: bit_and_iff bit_not_iff bit_INT64_MAX bit_1_iff) auto
  then have "dom (conns (s_pool busy)) = {0}"
    by (auto simp: dom_conns busy_def)
  moreover have "pool_inv (s_pool busy)"
    by (simp add: pool_inv_def busy_def b)
  ultimately show ?thesis
    by (simp add: srv_inv_def busy_def)
qed

theorem server_never_stops_witness:
  "\<exists>s1. srv_step {0} busy s1 \<and> s_unserved s1 = [5] \<and> (\<forall>s'. (srv_step {0})\<^sup>*\<^sup>* s1 s' \<longrightarrow> s_phase s' \<noteq> Stopped)"
proof -
  have "\<not> lucky (unat (p_size (s_pool busy))) 0"
    unfolding lucky_def by (auto simp: busy_def intro: exI [of _ 1])
  moreover have "s_phase busy = Serving" "s_workers busy = {..<unat (p_size (s_pool busy))}" "s_unserved busy = []"
    by (auto simp: busy_def)
  ultimately show ?thesis
    using server_never_stops [OF busy_inv, of 0 "{0}" 5] by auto
qed

end
