(* ===== verification/Linked_Sort.thy ===== *)
theory Linked_Sort
  imports C_String "HOL-Library.List_Lexorder" "HOL-Library.Multiset"
begin

text \<open>
  The list of lines that one thread fills and another one sorts (\<open>pthreads-problems/problem-3\<close>).

  The nodes live in a heap of structures; a variable of type \<open>struct Node *\<close> is a pointer into it. The
  outcome of \<open>malloc\<close> is an argument: the address of a new node, and whether there is memory for a copied
  string. The program of \<open>solution.c\<close> does all its work on the list with the mutex held, so that the two
  threads are a sequence of these pieces of work, \<open>session\<close>. \<open>solution_only_mutex++.c\<close> has a mutex in
  each node instead; the flag \<open>locked\<close> is that mutex.
\<close>

subsection \<open>solution.c\<close>

record node =
  line :: "bytes option"
  nxt :: ptr
  prv :: ptr
  locked :: bool

type_synonym heap = "nat \<rightharpoonup> node"

definition cpy_str :: "bool \<Rightarrow> bytes option \<Rightarrow> fault + (bytes option \<times> nat)" where
  "cpy_str mem_ok old_str = (case old_str of None \<Rightarrow> Inr (None, 0)
     | Some s \<Rightarrow>
         bindc (strlen s) (\<lambda>len.
         let str_len = len + 1 in
         if \<not> mem_ok then Inr (None, 1)
         else bindc (memcpy_from s 0 str_len) (\<lambda>t. Inr (Some t, 0))))"

definition new_node :: "ptr \<Rightarrow> bool \<Rightarrow> bytes option \<Rightarrow> heap \<Rightarrow> fault + (nat \<times> ptr \<times> heap)" where
  "new_node mem mem_ok val h = (case mem of None \<Rightarrow> Inr (1, None, h)
     | Some a \<Rightarrow>
         bindc (cpy_str mem_ok val) (\<lambda>(str, res).
         Inr (0, Some a, h(a \<mapsto> \<lparr>line = str, nxt = None, prv = None, locked = False\<rparr>))))"

definition add_to_head :: "ptr \<Rightarrow> bool \<Rightarrow> bytes option \<Rightarrow> ptr \<Rightarrow> heap \<Rightarrow> fault + (nat \<times> ptr \<times> heap)" where
  "add_to_head mem mem_ok val list h =
     bindc (new_node mem mem_ok val h) (\<lambda>(res, node, h).
     if res \<noteq> 0 then Inr (1, list, h)
     else if list = None then Inr (0, node, h)
     else
       bindc (deref h list) (\<lambda>l.
       bindc (upd_at h node (\<lambda>n. n\<lparr>nxt := nxt l\<rparr>)) (\<lambda>h.
       bindc (upd_at h node (\<lambda>n. n\<lparr>prv := list\<rparr>)) (\<lambda>h.
       bindc (upd_at h list (\<lambda>n. n\<lparr>nxt := node\<rparr>)) (\<lambda>h.
       Inr (0, list, h))))))"

fun last_node :: "nat \<Rightarrow> ptr \<Rightarrow> heap \<Rightarrow> fault + ptr" where
  "last_node f cur h =
     bindc (deref h cur) (\<lambda>n.
     if nxt n \<noteq> None then (case f of 0 \<Rightarrow> Inl Blocked | Suc f \<Rightarrow> last_node f (nxt n) h) else Inr cur)"

declare last_node.simps [simp del]

definition add_to_tail :: "nat \<Rightarrow> ptr \<Rightarrow> bool \<Rightarrow> bytes option \<Rightarrow> ptr \<Rightarrow> heap \<Rightarrow> fault + (nat \<times> ptr \<times> heap)" where
  "add_to_tail f mem mem_ok val list h =
     bindc (new_node mem mem_ok val h) (\<lambda>(res, node, h).
     if res \<noteq> 0 then Inr (1, list, h)
     else if list = None then Inr (0, node, h)
     else
       bindc (last_node f list h) (\<lambda>cur.
       bindc (upd_at h cur (\<lambda>n. n\<lparr>nxt := node\<rparr>)) (\<lambda>h.
       bindc (upd_at h node (\<lambda>n. n\<lparr>prv := cur\<rparr>)) (\<lambda>h.
       Inr (0, list, h)))))"

definition create_list :: "ptr \<Rightarrow> bool \<Rightarrow> ptr \<Rightarrow> heap \<Rightarrow> fault + (nat \<times> ptr \<times> heap)" where
  "create_list mem mem_ok list h = add_to_head mem mem_ok (Some (lit ''start_list_ptr'')) list h"

fun list_free_loop :: "nat \<Rightarrow> ptr \<Rightarrow> heap \<Rightarrow> fault + heap" where
  "list_free_loop f None h = Inr h"
| "list_free_loop 0 (Some a) h = Inl Blocked"
| "list_free_loop (Suc f) (Some a) h =
     bindc (deref h (Some a)) (\<lambda>n.
     bindc (free_at h (Some a)) (\<lambda>h. list_free_loop f (nxt n) h))"

definition list_free :: "nat \<Rightarrow> ptr \<Rightarrow> heap \<Rightarrow> fault + (nat \<times> heap)" where
  "list_free f list h = (if list = None then Inr (1, h) else bindc (list_free_loop f list h) (\<lambda>h. Inr (0, h)))"

text \<open>The lines that are printed.\<close>

fun print_list_loop :: "nat \<Rightarrow> ptr \<Rightarrow> heap \<Rightarrow> fault + bytes list" where
  "print_list_loop f None h = Inr []"
| "print_list_loop 0 (Some a) h = Inl Blocked"
| "print_list_loop (Suc f) (Some a) h =
     bindc (deref h (Some a)) (\<lambda>n.
     case line n of None \<Rightarrow> Inl NullDeref
     | Some s \<Rightarrow> bindc (print_list_loop f (nxt n) h) (\<lambda>out. Inr (c_str s # out)))"

definition print_list :: "nat \<Rightarrow> ptr \<Rightarrow> heap \<Rightarrow> fault + (nat \<times> bytes list)" where
  "print_list f list h =
     (if list = None then Inr (1, [])
      else
        bindc (deref h list) (\<lambda>l.
        if nxt l = None then Inr (1, [])
        else bindc (print_list_loop f (nxt l) h) (\<lambda>out. Inr (0, out))))"

definition swap :: "ptr \<Rightarrow> ptr \<Rightarrow> heap \<Rightarrow> fault + heap" where
  "swap l_node r_node h =
     bindc (deref h r_node) (\<lambda>r.
     bindc (upd_at h l_node (\<lambda>n. n\<lparr>nxt := nxt r\<rparr>)) (\<lambda>h.
     bindc (if nxt r \<noteq> None then upd_at h (nxt r) (\<lambda>n. n\<lparr>prv := l_node\<rparr>) else Inr h) (\<lambda>h.
     bindc (deref h l_node) (\<lambda>l.
     bindc (if prv l \<noteq> None then upd_at h (prv l) (\<lambda>n. n\<lparr>nxt := r_node\<rparr>) else Inr h) (\<lambda>h.
     bindc (deref h l_node) (\<lambda>l.
     bindc (upd_at h r_node (\<lambda>n. n\<lparr>prv := prv l\<rparr>)) (\<lambda>h.
     bindc (upd_at h l_node (\<lambda>n. n\<lparr>prv := r_node\<rparr>)) (\<lambda>h.
     upd_at h r_node (\<lambda>n. n\<lparr>nxt := l_node\<rparr>)))))))))"

definition cmp_lines :: "bytes option \<Rightarrow> bytes option \<Rightarrow> fault + int" where
  "cmp_lines s t = (case s of None \<Rightarrow> Inl NullDeref | Some s \<Rightarrow> (case t of None \<Rightarrow> Inl NullDeref | Some t \<Rightarrow> strcmp s t))"

text \<open>
  The inner loop of \<open>bubble_sort_mt\<close>: the heap, the head of the list, whether nodes were exchanged, and
  the node \<open>current\<close> at the end.
\<close>

fun sort_pass :: "nat \<Rightarrow> ptr \<Rightarrow> ptr \<Rightarrow> bool \<Rightarrow> ptr \<Rightarrow> heap \<Rightarrow> fault + (heap \<times> ptr \<times> bool \<times> ptr)" where
  "sort_pass f end_p current is_swapped list h =
     bindc (deref h current) (\<lambda>c.
     if nxt c = end_p then Inr (h, list, is_swapped, current)
     else case f of 0 \<Rightarrow> Inl Blocked
     | Suc f \<Rightarrow>
         bindc (deref h (nxt c)) (\<lambda>n.
         bindc (cmp_lines (line c) (line n)) (\<lambda>v.
         if 0 < v then
           let next_node = nxt c; list = (if current = list then next_node else list) in
           bindc (swap current next_node h) (\<lambda>h.
           bindc (deref h next_node) (\<lambda>n.
           sort_pass f end_p (nxt n) True list h))
         else sort_pass f end_p (nxt c) is_swapped list h)))"

declare sort_pass.simps [simp del]

fun sort_loop :: "nat \<Rightarrow> nat \<Rightarrow> ptr \<Rightarrow> ptr \<Rightarrow> heap \<Rightarrow> fault + (heap \<times> ptr)" where
  "sort_loop 0 f end_p list h = Inl Blocked"
| "sort_loop (Suc k) f end_p list h =
     bindc (sort_pass f end_p list False list h) (\<lambda>(h, list, is_swapped, current).
     if is_swapped then sort_loop k f current list h else Inr (h, list))"

text \<open>One round of \<open>bubble_sort_mt\<close>; with fewer than two nodes the thread sleeps and looks again.\<close>

definition bubble_sort_mt :: "nat \<Rightarrow> ptr \<Rightarrow> heap \<Rightarrow> fault + (heap \<times> ptr)" where
  "bubble_sort_mt f list h =
     (if list = None then Inl Blocked
      else
        bindc (deref h list) (\<lambda>l.
        if nxt l = None then Inl Blocked else sort_loop f f None list h))"

text \<open>
  The body of the loop of \<open>read_lines\<close> for the line that \<open>fgets\<close> has put in \<open>cur_line\<close>. The first
  component tells that the loop is left, the last one lists what was printed.
\<close>

definition cut_newline :: "bytes \<Rightarrow> fault + bytes" where
  "cut_newline cur_line =
     bindc (guardc OutOfBounds (0 \<in> set cur_line)) (\<lambda>_.
     Inr (cur_line[length (takeWhile (\<lambda>c. c \<noteq> 0 \<and> c \<noteq> of_char CHR ''\<newline>'') cur_line) := 0]))"

definition read_line :: "nat \<Rightarrow> ptr \<Rightarrow> bool \<Rightarrow> bytes \<Rightarrow> ptr \<Rightarrow> heap \<Rightarrow> fault + (bool \<times> ptr \<times> heap \<times> bytes list)" where
  "read_line f mem mem_ok cur_line list h =
     bindc (cut_newline cur_line) (\<lambda>cur_line.
     bindc (strcmp cur_line (lit ''c_exit'')) (\<lambda>v.
     if v = 0 then Inr (True, list, h, [])
     else
       bindc (strcmp cur_line (lit ''c_print'')) (\<lambda>v.
       if v = 0 then bindc (print_list f list h) (\<lambda>(res, out). Inr (False, list, h, out))
       else bindc (add_to_tail f mem mem_ok (Some cur_line) list h) (\<lambda>(res, list, h). Inr (False, list, h, [])))))"

text \<open>
  The two threads: their pieces of work in the order in which they get the mutex, until \<open>read_lines\<close> returns.
  For a line the environment provides the address of its node, and \<open>malloc\<close> succeeds. With fewer than
  two nodes the sorting thread does not get as far as the mutex.
\<close>

definition too_short :: "ptr \<Rightarrow> heap \<Rightarrow> fault + bool" where
  "too_short list h = (if list = None then Inr True else bindc (deref h list) (\<lambda>l. Inr (nxt l = None)))"

datatype work = Read nat bytes | Sort

fun session :: "nat \<Rightarrow> work list \<Rightarrow> ptr \<Rightarrow> heap \<Rightarrow> fault + (ptr \<times> heap \<times> bytes list)" where
  "session f [] list h = Inr (list, h, [])"
| "session f (Read a s # ws) list h =
     bindc (read_line f (Some a) True s list h) (\<lambda>(ended, list, h, out).
     if ended then Inr (list, h, out)
     else bindc (session f ws list h) (\<lambda>(list, h, out'). Inr (list, h, out @ out')))"
| "session f (Sort # ws) list h =
     bindc (too_short list h) (\<lambda>b.
     if b then session f ws list h else bindc (bubble_sort_mt f list h) (\<lambda>(h, list). session f ws list h))"

subsection \<open>solution_only_mutex++.c\<close>

definition lock_node :: "ptr \<Rightarrow> heap \<Rightarrow> fault + heap" where
  "lock_node p h = bindc (deref h p) (\<lambda>n. if locked n then Inl Blocked else upd_at h p (\<lambda>n. n\<lparr>locked := True\<rparr>))"

definition unlock_node :: "ptr \<Rightarrow> heap \<Rightarrow> fault + heap" where
  "unlock_node p h = bindc (deref h p) (\<lambda>n. if locked n then upd_at h p (\<lambda>n. n\<lparr>locked := False\<rparr>) else Inl LockMisuse)"

definition lock_opt :: "ptr \<Rightarrow> heap \<Rightarrow> fault + heap" where
  "lock_opt p h = (if p = None then Inr h else lock_node p h)"

definition unlock_opt :: "ptr \<Rightarrow> heap \<Rightarrow> fault + heap" where
  "unlock_opt p h = (if p = None then Inr h else unlock_node p h)"

definition add_to_head_pp :: "ptr \<Rightarrow> bool \<Rightarrow> bytes option \<Rightarrow> ptr \<Rightarrow> heap \<Rightarrow> fault + (nat \<times> ptr \<times> heap)" where
  "add_to_head_pp mem mem_ok val list h =
     bindc (new_node mem mem_ok val h) (\<lambda>(res, node, h).
     if res \<noteq> 0 then Inr (1, list, h)
     else if list = None then Inr (0, node, h)
     else
       bindc (lock_node list h) (\<lambda>h.
       bindc (upd_at h node (\<lambda>n. n\<lparr>nxt := list\<rparr>)) (\<lambda>h.
       bindc (upd_at h list (\<lambda>n. n\<lparr>prv := node\<rparr>)) (\<lambda>h.
       let list = node in
       bindc (deref h list) (\<lambda>l.
       bindc (unlock_node (nxt l) h) (\<lambda>h.
       Inr (0, list, h)))))))"

fun list_free_pp_loop :: "nat \<Rightarrow> ptr \<Rightarrow> heap \<Rightarrow> fault + heap" where
  "list_free_pp_loop f None h = Inr h"
| "list_free_pp_loop 0 (Some a) h = Inl Blocked"
| "list_free_pp_loop (Suc f) (Some a) h =
     bindc (deref h (Some a)) (\<lambda>n.
     bindc (guardc LockMisuse (\<not> locked n)) (\<lambda>_.
     bindc (free_at h (Some a)) (\<lambda>h. list_free_pp_loop f (nxt n) h)))"

definition list_free_pp :: "nat \<Rightarrow> ptr \<Rightarrow> heap \<Rightarrow> fault + (nat \<times> heap)" where
  "list_free_pp f list h = (if list = None then Inr (1, h) else bindc (list_free_pp_loop f list h) (\<lambda>h. Inr (0, h)))"

fun print_list_pp_loop :: "nat \<Rightarrow> ptr \<Rightarrow> heap \<Rightarrow> fault + (heap \<times> bytes list)" where
  "print_list_pp_loop f None h = Inr (h, [])"
| "print_list_pp_loop 0 (Some a) h = Inl Blocked"
| "print_list_pp_loop (Suc f) (Some a) h =
     bindc (deref h (Some a)) (\<lambda>n.
     case line n of None \<Rightarrow> Inl NullDeref
     | Some s \<Rightarrow>
         bindc (lock_opt (nxt n) h) (\<lambda>h.
         bindc (unlock_node (Some a) h) (\<lambda>h.
         bindc (print_list_pp_loop f (nxt n) h) (\<lambda>(h, out). Inr (h, c_str s # out)))))"

definition print_list_pp :: "nat \<Rightarrow> ptr \<Rightarrow> heap \<Rightarrow> fault + (nat \<times> heap \<times> bytes list)" where
  "print_list_pp f list h =
     (if list = None then Inr (1, h, [])
      else bindc (lock_node list h) (\<lambda>h. bindc (print_list_pp_loop f list h) (\<lambda>(h, out). Inr (0, h, out))))"

definition swap_pp :: "ptr \<Rightarrow> ptr \<Rightarrow> ptr \<Rightarrow> heap \<Rightarrow> fault + (nat \<times> ptr \<times> heap)" where
  "swap_pp l_node r_node list_head h =
     (if l_node = None \<or> r_node = None then Inr (1, list_head, h)
      else
        bindc (deref h l_node) (\<lambda>l.
        bindc (deref h r_node) (\<lambda>r.
        let a = prv l; b = l_node; c = r_node; d = nxt r in
        if nxt l \<noteq> c then Inr (1, list_head, h)
        else
          bindc (lock_opt a h) (\<lambda>h.
          bindc (lock_node b h) (\<lambda>h.
          bindc (lock_node c h) (\<lambda>h.
          bindc (lock_opt d h) (\<lambda>h.
          bindc (upd_at h b (\<lambda>n. n\<lparr>nxt := d\<rparr>)) (\<lambda>h.
          bindc (if d \<noteq> None then upd_at h d (\<lambda>n. n\<lparr>prv := b\<rparr>) else Inr h) (\<lambda>h.
          bindc (if a \<noteq> None then upd_at h a (\<lambda>n. n\<lparr>nxt := c\<rparr>) else Inr h) (\<lambda>h.
          bindc (upd_at h c (\<lambda>n. n\<lparr>prv := a\<rparr>)) (\<lambda>h.
          bindc (upd_at h c (\<lambda>n. n\<lparr>nxt := b\<rparr>)) (\<lambda>h.
          bindc (upd_at h b (\<lambda>n. n\<lparr>prv := c\<rparr>)) (\<lambda>h.
          let list_head = (if b = list_head then c else list_head) in
          bindc (unlock_opt d h) (\<lambda>h.
          bindc (unlock_node c h) (\<lambda>h.
          bindc (unlock_node b h) (\<lambda>h.
          bindc (unlock_opt a h) (\<lambda>h.
          Inr (0, list_head, h))))))))))))))))))"

fun sort_pass_pp :: "nat \<Rightarrow> ptr \<Rightarrow> ptr \<Rightarrow> ptr \<Rightarrow> bool \<Rightarrow> ptr \<Rightarrow> heap \<Rightarrow> fault + (heap \<times> ptr \<times> bool \<times> ptr \<times> ptr)" where
  "sort_pass_pp f end_p current prev_locked is_swapped list_head h =
     bindc (deref h current) (\<lambda>c.
     if nxt c = end_p then Inr (h, list_head, is_swapped, current, prev_locked)
     else case f of 0 \<Rightarrow> Inl Blocked
     | Suc f \<Rightarrow>
         let next_node = nxt c in
         bindc (lock_node next_node h) (\<lambda>h.
         bindc (deref h next_node) (\<lambda>n.
         bindc (cmp_lines (line c) (line n)) (\<lambda>v.
         if 0 < v then
           bindc (unlock_opt prev_locked h) (\<lambda>h.
           bindc (swap_pp current next_node list_head h) (\<lambda>(r, list_head, h).
           bindc (unlock_node current h) (\<lambda>h.
           bindc (lock_node next_node h) (\<lambda>h.
           sort_pass_pp f end_p next_node prev_locked True list_head h))))
         else
           bindc (unlock_opt prev_locked h) (\<lambda>h.
           sort_pass_pp f end_p next_node current is_swapped list_head h)))))"

declare sort_pass_pp.simps [simp del]

primrec sort_loop_pp :: "nat \<Rightarrow> nat \<Rightarrow> bool \<Rightarrow> ptr \<Rightarrow> ptr \<Rightarrow> heap \<Rightarrow> fault + (heap \<times> ptr)" where
  "sort_loop_pp 0 f stop end_p list_head h = Inl Blocked"
| "sort_loop_pp (Suc k) f stop end_p list_head h =
     bindc (lock_node list_head h) (\<lambda>h.
     bindc (sort_pass_pp f end_p list_head None False list_head h) (\<lambda>(h, list_head, is_swapped, current, prev_locked).
     bindc (unlock_node current h) (\<lambda>h.
     bindc (unlock_opt prev_locked h) (\<lambda>h.
     if is_swapped \<and> \<not> stop then sort_loop_pp k f stop current list_head h else Inr (h, list_head)))))"

text \<open>
  One round of \<open>bubble_sort_mt\<close>: the loop that waits until there is something to sort is left with the mutex
  of the first node held.
\<close>

definition bubble_sort_pp :: "nat \<Rightarrow> bool \<Rightarrow> ptr \<Rightarrow> heap \<Rightarrow> fault + (heap \<times> ptr)" where
  "bubble_sort_pp f stop list_head h =
     bindc (lock_opt list_head h) (\<lambda>h.
     if list_head = None then Inl Blocked
     else
       bindc (deref h list_head) (\<lambda>l.
       if nxt l = None then bindc (unlock_node list_head h) (\<lambda>h. Inl Blocked)
       else sort_loop_pp f f stop None list_head h))"

subsection \<open>Bubble sort on lists\<close>

fun bpass :: "('a \<Rightarrow> 'k :: linorder) \<Rightarrow> 'a list \<Rightarrow> 'a list" where
  "bpass k [] = []"
| "bpass k [x] = [x]"
| "bpass k (x # y # zs) = (if k y < k x then y # bpass k (x # zs) else x # bpass k (y # zs))"

fun ordered :: "('a \<Rightarrow> 'k :: linorder) \<Rightarrow> 'a list \<Rightarrow> bool" where
  "ordered k [] = True"
| "ordered k [x] = True"
| "ordered k (x # y # zs) = (\<not> k y < k x \<and> ordered k (y # zs))"

fun bsort :: "nat \<Rightarrow> ('a \<Rightarrow> 'k :: linorder) \<Rightarrow> 'a list \<Rightarrow> 'a list" where
  "bsort 0 k xs = xs"
| "bsort (Suc n) k xs = (if ordered k xs then xs else let ys = bpass k xs in bsort n k (butlast ys) @ [last ys])"

lemma mset_bpass [simp]: "mset (bpass k xs) = mset xs"
  by (induction k xs rule: bpass.induct) auto

lemma set_bpass [simp]: "set (bpass k xs) = set xs"
  by (metis mset_bpass set_mset_mset)

lemma length_bpass [simp]: "length (bpass k xs) = length xs"
  by (metis mset_bpass size_mset)

lemma distinct_bpass [simp]: "distinct (bpass k xs) = distinct xs"
  by (metis mset_bpass mset_eq_imp_distinct_iff)

lemma bpass_Nil_iff [simp]: "bpass k xs = [] \<longleftrightarrow> xs = []"
  by (metis length_0_conv length_bpass)

lemma filter_bpass: "filter (\<lambda>x. c = k x) (bpass k xs) = filter (\<lambda>x. c = k x) xs"
  by (induction k xs rule: bpass.induct) auto

lemma bpass_last: "xs \<noteq> [] \<Longrightarrow> x \<in> set xs \<Longrightarrow> k x \<le> k (last (bpass k xs))"
proof (induction k xs arbitrary: x rule: bpass.induct)
  case (3 k a b zs)
  show ?case
  proof (cases "k b < k a")
    case True
    have "k a \<le> k (last (bpass k (a # zs)))"
      using "3.IH"(1) [OF True, of a] by simp
    then show ?thesis
      using True "3.IH"(1) [OF True, of x] "3.prems"(2) by auto
  next
    case False
    have "k b \<le> k (last (bpass k (b # zs)))"
      using "3.IH"(2) [OF False, of b] by simp
    then show ?thesis
      using False "3.IH"(2) [OF False, of x] "3.prems"(2) by auto
  qed
qed auto

lemma ordered_sorted: "ordered k xs \<longleftrightarrow> sorted (map k xs)"
  by (induction k xs rule: ordered.induct) (auto simp: not_less intro: order_trans)

lemma bpass_ordered: "ordered k xs \<Longrightarrow> bpass k xs = xs"
  by (induction k xs rule: bpass.induct) auto

lemma bsort_props:
  "length xs \<le> Suc n \<Longrightarrow> mset (bsort n k xs) = mset xs \<and> sorted (map k (bsort n k xs)) \<and>
     (\<forall>c. filter (\<lambda>x. c = k x) (bsort n k xs) = filter (\<lambda>x. c = k x) xs)"
proof (induction n arbitrary: xs)
  case 0
  then show ?case by (cases xs) auto
next
  case (Suc n)
  show ?case
  proof (cases "ordered k xs")
    case True
    then show ?thesis by (simp add: ordered_sorted)
  next
    case False
    then have ne: "xs \<noteq> []"
      by auto
    let ?ys = "bpass k xs"
    have ys: "?ys = butlast ?ys @ [last ?ys]"
      using ne by simp
    have IH: "mset (bsort n k (butlast ?ys)) = mset (butlast ?ys) \<and> sorted (map k (bsort n k (butlast ?ys))) \<and>
        (\<forall>c. filter (\<lambda>x. c = k x) (bsort n k (butlast ?ys)) = filter (\<lambda>x. c = k x) (butlast ?ys))"
      using Suc.prems by (intro Suc.IH) simp
    have "set (bsort n k (butlast ?ys)) = set (butlast ?ys)"
      using IH by (metis set_mset_mset)
    then have "k x \<le> k (last ?ys)" if "x \<in> set (bsort n k (butlast ?ys))" for x
      using that bpass_last [OF ne, of x k] in_set_butlastD by fastforce
    then have "sorted (map k (bsort n k (butlast ?ys) @ [last ?ys]))"
      using IH by (simp add: sorted_append)
    moreover have "mset (bsort n k (butlast ?ys) @ [last ?ys]) = mset xs"
      using IH arg_cong [OF ys, of mset] by simp
    moreover have "filter (\<lambda>x. c = k x) (bsort n k (butlast ?ys) @ [last ?ys]) = filter (\<lambda>x. c = k x) xs" for c
      using IH arg_cong [OF ys, of "filter (\<lambda>x. c = k x)"] filter_bpass [of c k xs] by simp
    ultimately show ?thesis
      using False by (simp add: Let_def)
  qed
qed

lemma bsort_eq: "length xs \<le> Suc n \<Longrightarrow> bsort n k xs = sort_key k xs"
  using bsort_props [of xs n k] properties_for_sort_key [of "bsort n k xs" xs k] by metis


subsection \<open>The list in the heap\<close>

abbreviation lst :: "heap \<Rightarrow> ptr \<Rightarrow> nat list \<Rightarrow> bool" where
  "lst h \<equiv> dll nxt prv h None"

definition same_lines :: "heap \<Rightarrow> heap \<Rightarrow> bool" where
  "same_lines h h' \<longleftrightarrow> (\<forall>a. map_option line (h' a) = map_option line (h a))"

lemma same_lines_refl [simp]: "same_lines h h"
  by (simp add: same_lines_def)

lemma same_lines_trans: "same_lines h h1 \<Longrightarrow> same_lines h1 h2 \<Longrightarrow> same_lines h h2"
  by (simp add: same_lines_def)

definition key :: "heap \<Rightarrow> nat \<Rightarrow> bytes" where
  "key h a = (case h a of None \<Rightarrow> [] | Some n \<Rightarrow> (case line n of None \<Rightarrow> [] | Some s \<Rightarrow> c_str s))"

definition text_at :: "heap \<Rightarrow> nat \<Rightarrow> bool" where
  "text_at h a \<longleftrightarrow> (\<exists>n s. h a = Some n \<and> line n = Some s \<and> 0 \<in> set s)"

lemma same_lines_key: "same_lines h h' \<Longrightarrow> key h' a = key h a"
  by (auto simp: same_lines_def key_def dest!: spec [of _ a] split: option.splits)

lemma text_at_alt: "text_at h a \<longleftrightarrow> (\<exists>s. map_option line (h a) = Some (Some s) \<and> 0 \<in> set s)"
  by (auto simp: text_at_def)

lemma same_lines_text: "same_lines h h' \<Longrightarrow> text_at h' a = text_at h a"
  by (simp add: same_lines_def text_at_alt)

lemma strcmp_order:
  assumes "0 \<notin> set s" and "0 \<notin> set t"
  shows "\<exists>v. strcmp (s @ 0 # r) (t @ 0 # r') = Inr v \<and> (0 < v \<longleftrightarrow> t < s)"
  using assms
proof (induction s arbitrary: t)
  case Nil
  then show ?case
    by (cases t) (auto simp: word_gt_0)
next
  case (Cons a s)
  then show ?case
    by (cases t) (auto simp: word_gt_0)
qed

lemma cmp_lines_order:
  assumes "h a = Some n" "line n = Some s" "0 \<in> set s" "h b = Some m" "line m = Some t" "0 \<in> set t"
  shows "\<exists>v. cmp_lines (line n) (line m) = Inr v \<and> (0 < v \<longleftrightarrow> key h b < key h a)"
proof -
  obtain r r' where "s = c_str s @ 0 # r" "t = c_str t @ 0 # r'"
    using c_str_split [OF assms(3)] c_str_split [OF assms(6)] by blast
  then show ?thesis
    using strcmp_order [of "c_str s" "c_str t" r r'] assms by (simp add: cmp_lines_def key_def)
qed

lemma swap_spec:
  assumes "lst h p (pre @ a # b # suf)" and "distinct (pre @ a # b # suf)"
  shows "\<exists>h'. swap (Some a) (Some b) h = Inr h' \<and> same_lines h h' \<and>
    lst h' (if pre = [] then Some b else p) (pre @ b # a # suf)"
proof -
  obtain na nb where ab: "h a = Some na" "prv na = dlast None pre" "nxt na = Some b" "h b = Some nb" "prv nb = Some a"
      "dll nxt prv h (Some b) (nxt nb) suf" "dseg nxt prv h None p pre (Some a)"
    using assms(1) by (auto simp: dll_append split: option.splits)
  have ne: "a \<noteq> b" "a \<notin> set suf" "b \<notin> set suf" "a \<notin> set pre" "b \<notin> set pre" "set pre \<inter> set suf = {}"
    using assms(2) by auto
  \<comment> \<open>the node after the pair\<close>
  define h1 where "h1 = h(a \<mapsto> na\<lparr>nxt := nxt nb\<rparr>)"
  have "\<exists>h2. (if nxt nb \<noteq> None then upd_at h1 (nxt nb) (\<lambda>n. n\<lparr>prv := Some a\<rparr>) else Inr h1) = Inr h2 \<and>
      same_lines h h2 \<and> dll nxt prv h2 (Some a) (nxt nb) suf \<and> (\<forall>x. x \<notin> set suf \<longrightarrow> h2 x = h1 x)"
  proof (cases suf)
    case Nil
    then show ?thesis
      using ab(1,6) by (simp add: h1_def same_lines_def)
  next
    case (Cons d ds)
    then obtain nd where d: "nxt nb = Some d" "h d = Some nd" "dll nxt prv h (Some d) (nxt nd) ds" "d \<notin> set ds"
      using ab(6) assms(2) by (auto split: option.splits)
    then show ?thesis
      using Cons ne ab(1) by (auto simp: h1_def same_lines_def)
  qed
  then obtain h2 where h2: "(if nxt nb \<noteq> None then upd_at h1 (nxt nb) (\<lambda>n. n\<lparr>prv := Some a\<rparr>) else Inr h1) = Inr h2"
      "same_lines h h2" "dll nxt prv h2 (Some a) (nxt nb) suf" "\<And>x. x \<notin> set suf \<Longrightarrow> h2 x = h1 x"
    by blast
  have h2ab: "h2 a = Some (na\<lparr>nxt := nxt nb\<rparr>)" "h2 b = Some nb"
    using h2(4) ne ab(1,4) by (simp_all add: h1_def)
  \<comment> \<open>the node before the pair\<close>
  have "\<exists>h3. (if prv na \<noteq> None then upd_at h2 (prv na) (\<lambda>n. n\<lparr>nxt := Some b\<rparr>) else Inr h2) = Inr h3 \<and>
      same_lines h2 h3 \<and> dseg nxt prv h3 None (if pre = [] then Some b else p) pre (Some b) \<and> (\<forall>x. x \<notin> set pre \<longrightarrow> h3 x = h2 x)"
  proof (cases pre rule: rev_cases)
    case Nil
    then show ?thesis
      using ab(2) by simp
  next
    case (snoc ys z)
    then obtain nz where z: "prv na = Some z" "h z = Some nz" "prv nz = dlast None ys" "dseg nxt prv h None p ys (Some z)"
        "z \<notin> set ys" "z \<notin> set suf" "z \<noteq> a" "a \<notin> set ys" "set ys \<inter> set suf = {}"
      using ab(2,7) assms(2) by (auto simp: dseg_append split: option.splits)
    have "h2 x = h x" if "x \<in> set ys" for x
    proof -
      have "x \<notin> set suf" "x \<noteq> a"
        using that z(8,9) by blast+
      then show ?thesis
        using h2(4) [of x] by (simp add: h1_def)
    qed
    then have "dseg nxt prv h2 None p ys (Some z) = dseg nxt prv h None p ys (Some z)"
      by (rule dseg_cong)
    moreover have "h2 z = Some nz"
      using h2(4) z(2,6,7) by (simp add: h1_def)
    ultimately show ?thesis
      using snoc z(1,3-5) by (auto simp: dseg_append same_lines_def)
  qed
  then obtain h3 where h3: "(if prv na \<noteq> None then upd_at h2 (prv na) (\<lambda>n. n\<lparr>nxt := Some b\<rparr>) else Inr h2) = Inr h3"
      "same_lines h2 h3" "dseg nxt prv h3 None (if pre = [] then Some b else p) pre (Some b)" "\<And>x. x \<notin> set pre \<Longrightarrow> h3 x = h2 x"
    by blast
  have h3ab: "h3 a = Some (na\<lparr>nxt := nxt nb\<rparr>)" "h3 b = Some nb"
    using h3(4) ne h2ab by simp_all
  let ?h = "h3(b \<mapsto> nb\<lparr>prv := prv na, nxt := Some a\<rparr>, a \<mapsto> na\<lparr>nxt := nxt nb, prv := Some b\<rparr>)"
  have d: "deref h (Some b) = Inr nb" "upd_at h (Some a) (\<lambda>n. n\<lparr>nxt := nxt nb\<rparr>) = Inr h1"
      "deref h2 (Some a) = Inr (na\<lparr>nxt := nxt nb\<rparr>)" "deref h3 (Some a) = Inr (na\<lparr>nxt := nxt nb\<rparr>)"
    using ab(1,4) h2ab h3ab by (simp_all add: h1_def)
  have s3: "(if prv (na\<lparr>nxt := nxt nb\<rparr>) \<noteq> None then upd_at h2 (prv (na\<lparr>nxt := nxt nb\<rparr>)) (\<lambda>n. n\<lparr>nxt := Some b\<rparr>) else Inr h2) = Inr h3"
    using h3(1) by (auto split: if_splits)
  have "swap (Some a) (Some b) h = Inr ?h"
    by (simp only: swap_def d bindc_Inr h2(1) s3) (simp add: h3ab ne(1) ne(1) [symmetric] fun_upd_twist)
  moreover have "same_lines h ?h"
    using same_lines_trans [OF h2(2) h3(2)] ab(1,4) by (simp add: same_lines_def)
  moreover have "dll nxt prv h3 (Some a) (nxt nb) suf = dll nxt prv h2 (Some a) (nxt nb) suf"
    using h3(4) ne(6) by (intro dll_cong) auto
  then have "lst ?h (if pre = [] then Some b else p) (pre @ b # a # suf)"
    using h3(3) h2(3) ne ab(2) by (auto simp: dll_append)
  ultimately show ?thesis
    by blast
qed


subsection \<open>Sorting\<close>

definition stop_at :: "nat list \<Rightarrow> ptr" where
  "stop_at suf = (case suf of [] \<Rightarrow> None | d # _ \<Rightarrow> Some d)"

lemma sort_pass_spec:
  assumes "lst h p (pre @ (a # rest) @ suf)" and "distinct (pre @ (a # rest) @ suf)" and "length rest \<le> f"
    and "\<And>x. x \<in> set (a # rest) \<Longrightarrow> text_at h x" and "pre = [] \<Longrightarrow> p = Some a"
  shows "\<exists>h' p'. sort_pass f (stop_at suf) (Some a) sw p h =
      Inr (h', p', sw \<or> \<not> ordered (key h) (a # rest), Some (last (bpass (key h) (a # rest)))) \<and>
    same_lines h h' \<and> lst h' p' (pre @ bpass (key h) (a # rest) @ suf)"
  using assms
proof (induction rest arbitrary: a pre h p f sw)
  case Nil
  then obtain na where "h a = Some na" "nxt na = stop_at suf"
    by (auto simp: dll_append stop_at_def split: option.splits list.splits dest: dll_hd)
  then show ?case
    using Nil.prems(1) by (subst sort_pass.simps) simp
next
  case (Cons b rest)
  obtain na where na: "h a = Some na" "nxt na = Some b"
    using Cons.prems(1) by (auto simp: dll_append split: option.splits)
  obtain nb where nb: "h b = Some nb"
    using Cons.prems(4) [of b] by (auto simp: text_at_def)
  obtain f' where f: "f = Suc f'" "length rest \<le> f'"
    using Cons.prems(3) by (cases f) auto
  have "Some b \<noteq> stop_at suf"
    using Cons.prems(2) by (auto simp: stop_at_def split: list.splits)
  obtain s t where st: "line na = Some s" "0 \<in> set s" "line nb = Some t" "0 \<in> set t"
    using Cons.prems(4) [of a] Cons.prems(4) [of b] na(1) nb by (auto simp: text_at_def)
  obtain v where v: "cmp_lines (line na) (line nb) = Inr v" "0 < v \<longleftrightarrow> key h b < key h a"
    using cmp_lines_order [OF na(1) st(1,2) nb st(3,4)] by blast
  show ?case
  proof (cases "key h b < key h a")
    case False
    have "\<exists>h' p'. sort_pass f' (stop_at suf) (Some b) sw p h =
        Inr (h', p', sw \<or> \<not> ordered (key h) (b # rest), Some (last (bpass (key h) (b # rest)))) \<and>
      same_lines h h' \<and> lst h' p' ((pre @ [a]) @ bpass (key h) (b # rest) @ suf)"
      using Cons.prems f(2) by (intro Cons.IH) simp_all
    moreover have "sort_pass f (stop_at suf) (Some a) sw p h = sort_pass f' (stop_at suf) (Some b) sw p h"
      using na nb f(1) v False \<open>Some b \<noteq> stop_at suf\<close> by (subst sort_pass.simps) simp
    ultimately show ?thesis
      using False by simp
  next
    case True
    have dl: "lst h p (pre @ a # b # (rest @ suf))" "distinct (pre @ a # b # (rest @ suf))"
      using Cons.prems(1,2) by simp_all
    let ?p = "if pre = [] then Some b else p"
    obtain h1 where h1: "swap (Some a) (Some b) h = Inr h1" "same_lines h h1" "lst h1 ?p (pre @ b # a # (rest @ suf))"
      using swap_spec [OF dl] by blast
    have k: "key h1 = key h"
      using same_lines_key [OF h1(2)] by blast
    obtain nb1 where nb1: "h1 b = Some nb1" "nxt nb1 = Some a"
      using h1(3) by (auto simp: dll_append split: option.splits)
    have "(if Some a = p then Some b else p) = ?p"
      using Cons.prems(1,2,5) by (cases pre) auto
    then have step: "sort_pass f (stop_at suf) (Some a) sw p h = sort_pass f' (stop_at suf) (Some a) True ?p h1"
      using na nb f(1) v True \<open>Some b \<noteq> stop_at suf\<close> h1(1) nb1
      by (subst sort_pass.simps) (simp add: Let_def)
    have "\<exists>h' p'. sort_pass f' (stop_at suf) (Some a) True ?p h1 =
        Inr (h', p', True \<or> \<not> ordered (key h1) (a # rest), Some (last (bpass (key h1) (a # rest)))) \<and>
      same_lines h1 h' \<and> lst h' p' ((pre @ [b]) @ bpass (key h1) (a # rest) @ suf)"
    proof (rule Cons.IH)
      show "lst h1 ?p ((pre @ [b]) @ (a # rest) @ suf)"
        using h1(3) by simp
      show "text_at h1 x" if "x \<in> set (a # rest)" for x
        using that Cons.prems(4) same_lines_text [OF h1(2)] by auto
    qed (use Cons.prems(2) f(2) in auto)
    then show ?thesis
      unfolding step k using True same_lines_trans [OF h1(2)] by auto
  qed
qed

lemma sort_loop_spec:
  assumes "lst h p (us @ suf)" and "distinct (us @ suf)" and "length us \<le> f" and "us \<noteq> []" and "length us \<le> k"
    and "\<And>x. x \<in> set us \<Longrightarrow> text_at h x"
  shows "\<exists>h' p'. sort_loop k f (stop_at suf) p h = Inr (h', p') \<and> same_lines h h' \<and> lst h' p' (bsort k (key h) us @ suf)"
  using assms
proof (induction k arbitrary: h p us suf)
  case (Suc k)
  obtain a rest where us: "us = a # rest"
    using Suc.prems(4) by (cases us) auto
  have "p = Some a"
    using Suc.prems(1) us by simp
  moreover have "length rest \<le> f"
    using Suc.prems(3) us by simp
  moreover have "lst h p ([] @ (a # rest) @ suf)" "distinct ([] @ (a # rest) @ suf)"
    using Suc.prems(1,2) us by simp_all
  ultimately obtain h1 p1 where h1: "sort_pass f (stop_at suf) p False p h =
        Inr (h1, p1, \<not> ordered (key h) us, Some (last (bpass (key h) us)))"
      "same_lines h h1" "lst h1 p1 (bpass (key h) us @ suf)"
    using sort_pass_spec [of h p "[]" a rest suf f False] Suc.prems(6) us by auto
  show ?case
  proof (cases "ordered (key h) us")
    case True
    then show ?thesis
      using h1 by (simp add: bpass_ordered)
  next
    case False
    let ?ys = "bpass (key h) us"
    have k1: "key h1 = key h"
      using same_lines_key [OF h1(2)] by blast
    have ys: "?ys = butlast ?ys @ [last ?ys]"
      using us by simp
    have "rest \<noteq> []"
      using False us by auto
    then have len: "butlast ?ys \<noteq> []"
      using us by (metis length_bpass length_butlast length_Cons diff_Suc_1 length_0_conv)
    have "\<exists>h' p'. sort_loop k f (stop_at (last ?ys # suf)) p1 h1 = Inr (h', p') \<and> same_lines h1 h' \<and>
        lst h' p' (bsort k (key h1) (butlast ?ys) @ last ?ys # suf)"
    proof (rule Suc.IH [OF _ _ _ len])
      show "lst h1 p1 (butlast ?ys @ last ?ys # suf)"
        using h1(3) ys by (metis append.assoc append_Cons append_Nil)
      have "distinct (?ys @ suf)"
        using Suc.prems(2) by simp
      then show "distinct (butlast ?ys @ last ?ys # suf)"
        using ys by (metis append.assoc append_Cons append_Nil)
      show "text_at h1 x" if "x \<in> set (butlast ?ys)" for x
        using in_set_butlastD [OF that] Suc.prems(6) same_lines_text [OF h1(2)] by simp
    qed (use Suc.prems(3,5) in simp_all)
    moreover have "stop_at (last ?ys # suf) = Some (last ?ys)"
      by (simp add: stop_at_def)
    ultimately show ?thesis
      using h1(1,2) False same_lines_trans [OF h1(2)] k1 by (auto simp: Let_def)
  qed
qed simp


lemma bubble_sort_spec:
  assumes "lst h p xs" and "distinct xs" and "2 \<le> length xs" and "length xs \<le> f" and "\<And>x. x \<in> set xs \<Longrightarrow> text_at h x"
  shows "\<exists>h' p'. bubble_sort_mt f p h = Inr (h', p') \<and> same_lines h h' \<and> lst h' p' (sort_key (key h) xs)"
proof -
  obtain a b ys where xs: "xs = a # b # ys"
    using assms(3) by (cases xs; cases "tl xs") auto
  then obtain na where "p = Some a" "h a = Some na" "nxt na = Some b"
    using assms(1) by (auto split: option.splits)
  moreover obtain h' p' where "sort_loop f f None p h = Inr (h', p')" "same_lines h h'" "lst h' p' (bsort f (key h) xs)"
    using sort_loop_spec [of h p xs "[]" f f] assms xs by (auto simp: stop_at_def)
  ultimately show ?thesis
    using bsort_eq [of xs f "key h"] assms(4) by (simp add: bubble_sort_mt_def)
qed

subsection \<open>Adding\<close>

lemma new_node_text:
  assumes "0 \<in> set s"
  shows "new_node (Some a) True (Some s) h =
    Inr (0, Some a, h(a \<mapsto> \<lparr>line = Some (c_str s @ [0]), nxt = None, prv = None, locked = False\<rparr>))"
proof -
  have "take (Suc (length (c_str s))) s = c_str s @ [0]"
    using c_str_split [OF assms]
    by (metis append_Cons append_Nil append_assoc length_append_singleton append_eq_conv_conj)
  then show ?thesis
    using assms length_c_str [OF assms] by (simp add: new_node_def cpy_str_def strlen_def memcpy_from_def)
qed

lemma c_str_again [simp]: "c_str (c_str s @ [0]) = c_str s"
  using c_str_0 [of "c_str s" "[]"] by simp

lemma last_node_spec:
  "dll nxt prv h bk p xs \<Longrightarrow> xs \<noteq> [] \<Longrightarrow> length xs \<le> Suc f \<Longrightarrow> last_node f p h = Inr (Some (last xs))"
proof (induction xs arbitrary: bk p f)
  case (Cons a xs)
  then obtain n where n: "p = Some a" "h a = Some n" "dll nxt prv h (Some a) (nxt n) xs"
    by (auto split: option.splits)
  show ?case
  proof (cases xs)
    case Nil
    then show ?thesis
      using n by (subst last_node.simps) simp
  next
    case (Cons b ys)
    then obtain g where "f = Suc g"
      using Cons.prems(3) by (cases f) auto
    then show ?thesis
      using n Cons Cons.IH [OF n(3), of g] Cons.prems(3) by (subst last_node.simps) auto
  qed
qed simp

lemma add_to_tail_spec:
  assumes "lst h p xs" and "distinct xs" and "a \<notin> dom h" and "0 \<in> set s" and "length xs \<le> Suc f"
  shows "\<exists>h' p'. add_to_tail f (Some a) True (Some s) p h = Inr (0, p', h') \<and> lst h' p' (xs @ [a]) \<and>
    key h' a = c_str s \<and> text_at h' a \<and> (\<forall>x \<in> set xs. key h' x = key h x \<and> text_at h' x = text_at h x)"
proof -
  let ?n = "\<lparr>line = Some (c_str s @ [0]), nxt = None, prv = None, locked = False\<rparr>"
  have new: "new_node (Some a) True (Some s) h = Inr (0, Some a, h(a \<mapsto> ?n))"
    using assms(4) by (rule new_node_text)
  have a: "a \<notin> set xs"
    using dll_set_dom [OF assms(1)] assms(3) by blast
  show ?thesis
  proof (cases xs rule: rev_cases)
    case Nil
    then show ?thesis
      using assms(1) new by (simp add: add_to_tail_def key_def text_at_def)
  next
    case (snoc ys z)
    have l1: "lst (h(a \<mapsto> ?n)) p xs"
      using assms(1) a by simp
    have "p \<noteq> None"
      using assms(1) snoc by (cases ys) auto
    have ln: "last_node f p (h(a \<mapsto> ?n)) = Inr (Some z)"
      using last_node_spec [OF l1, of f] snoc assms(5) by simp
    obtain nz where nz: "h z = Some nz" "prv nz = dlast None ys" "dseg nxt prv h None p ys (Some z)"
      using assms(1) snoc by (auto simp: dll_append split: option.splits)
    have ne: "z \<noteq> a" "z \<notin> set ys" "a \<notin> set ys"
      using a snoc assms(2) by auto
    let ?h = "h(a \<mapsto> ?n\<lparr>prv := Some z\<rparr>, z \<mapsto> nz\<lparr>nxt := Some a\<rparr>)"
    have "add_to_tail f (Some a) True (Some s) p h = Inr (0, p, ?h)"
      using new ln nz(1) ne(1) \<open>p \<noteq> None\<close> by (simp add: add_to_tail_def fun_upd_twist)
    moreover have "lst ?h p (xs @ [a])"
      using nz ne snoc by (simp add: dll_append)
    moreover have "key ?h x = key h x \<and> text_at ?h x = text_at h x" if "x \<in> set xs" for x
      using that a nz(1) by (auto simp: key_def text_at_def)
    ultimately show ?thesis
      using ne(1) by (auto simp: key_def text_at_def)
  qed
qed

lemma print_list_loop_spec:
  "dll nxt prv h bk p xs \<Longrightarrow> length xs \<le> f \<Longrightarrow> (\<And>x. x \<in> set xs \<Longrightarrow> text_at h x) \<Longrightarrow>
   print_list_loop f p h = Inr (map (key h) xs)"
proof (induction xs arbitrary: bk p f)
  case (Cons a xs)
  obtain m s where m: "h a = Some m" "line m = Some s"
    using Cons.prems(3) [of a] by (auto simp: text_at_def)
  then obtain n g where n: "p = Some a" "h a = Some n" "dll nxt prv h (Some a) (nxt n) xs" "line n = Some s" "f = Suc g"
    using Cons.prems(1,2) by (cases f) auto
  then show ?case
    using Cons.IH [OF n(3), of g] Cons.prems(2,3) by (simp add: key_def)
qed simp


subsection \<open>Properties\<close>

text \<open>C13: \<open>bubble_sort_mt\<close> sorts. On a well-formed list of at least two lines, one round of the sorting thread ends; the
  list afterwards is well-formed again, made of the same nodes with the same lines, in the order of a stable sort by
  the order of \<open>strcmp\<close>.\<close>

theorem bubble_sort_sorts:
  assumes "lst h p xs" and "distinct xs" and "2 \<le> length xs" and "length xs \<le> f" and "\<And>x. x \<in> set xs \<Longrightarrow> text_at h x"
  shows "\<exists>h' p'. bubble_sort_mt f p h = Inr (h', p') \<and> same_lines h h' \<and> lst h' p' (sort_key (key h) xs)"
  using assms by (rule bubble_sort_spec)

definition two_lines :: heap where
  "two_lines = [10 \<mapsto> \<lparr>line = Some (lit ''b''), nxt = Some 20, prv = None, locked = False\<rparr>,
     20 \<mapsto> \<lparr>line = Some (lit ''a''), nxt = None, prv = Some 10, locked = False\<rparr>]"

lemma two_lines_facts: "lst two_lines (Some 10) [10, 20]" "text_at two_lines 10" "text_at two_lines 20"
  by (simp_all add: two_lines_def text_at_def lit_def)

theorem bubble_sort_sorts_witness:
  "\<exists>h' p'. bubble_sort_mt 2 (Some 10) two_lines = Inr (h', p') \<and> lst h' p' [20, 10]"
proof -
  have "key two_lines 10 = [98]" "key two_lines 20 = [97]"
    by (simp_all add: key_def two_lines_def lit_def c_str_def)
  then have "sort_key (key two_lines) [10, 20] = [20, 10]"
    by simp
  then show ?thesis
    using bubble_sort_sorts [OF two_lines_facts(1), of 2] two_lines_facts(2,3) by auto
qed

text \<open>\<open>print_list\<close> leaves out the first line. It expects a list that starts with a node of its own, which \<open>create_list\<close> would
  make, but nothing calls \<open>create_list\<close>.\<close>

theorem print_list_skips_first:
  assumes "lst h p (a # b # xs)" and "length xs < f" and "\<And>x. x \<in> set (a # b # xs) \<Longrightarrow> text_at h x"
  shows "print_list f p h = Inr (0, map (key h) (b # xs))"
proof -
  obtain n where n: "p = Some a" "h a = Some n" "nxt n = Some b" "dll nxt prv h (Some a) (nxt n) (b # xs)"
    using assms(1) by (auto split: option.splits)
  then show ?thesis
    using print_list_loop_spec [OF n(4), of f] assms(2,3) by (simp add: print_list_def)
qed

theorem print_list_skips_first_witness:
  "print_list 5 (Some 10) two_lines = Inr (0, [[97]])"
proof -
  have "key two_lines 20 = [97]"
    by (simp add: key_def two_lines_def lit_def c_str_def)
  then show ?thesis
    using print_list_skips_first [OF two_lines_facts(1), of 5] two_lines_facts(2,3) by auto
qed

text \<open>C34: the sorting thread of \<open>solution_only_mutex++.c\<close> blocks itself. As soon as the list has two nodes, and no other thread
  holds the mutex of the first one, the thread locks this mutex a second time and waits for ever.\<close>

theorem bubble_sort_pp_blocks:
  assumes "lst h p (a # b # xs)" and "h a = Some n" and "\<not> locked n" and "0 < f"
  shows "bubble_sort_pp f stop p h = Inl Blocked"
proof -
  have p: "p = Some a" "nxt n = Some b"
    using assms(1,2) by auto
  obtain g where "f = Suc g"
    using assms(4) by (cases f) auto
  then show ?thesis
    using p assms(2,3) by (simp add: bubble_sort_pp_def lock_opt_def lock_node_def)
qed

theorem bubble_sort_pp_blocks_witness: "bubble_sort_pp 9 False (Some 10) two_lines = Inl Blocked"
  using bubble_sort_pp_blocks [OF two_lines_facts(1)] by (simp add: two_lines_def)

end
