(* ===== verification/Shared_List.thy ===== *)
theory Shared_List
  imports Linked_Sort
begin

text \<open>
  Two further versions of the sorted list of lines (\<open>pthreads-problems/problem-3\<close>).

  In \<open>solution_only_mutex.c\<close> one mutex protects all the work on the list, a line is added at the head, an
  empty line prints the list and \<open>swap\<close> first checks that its nodes are neighbours. The two threads are a
  sequence of pieces of work, \<open>session_om\<close>; it implements the list of lines \<open>a_session\<close>.

  In \<open>solution_rw.c\<close> the sorting thread holds the lock only for \<open>swap\<close>. Its statements are single steps,
  between which the other thread may add a line.
\<close>

subsection \<open>solution_only_mutex.c\<close>

definition add_to_head_om :: "ptr \<Rightarrow> bool \<Rightarrow> bytes option \<Rightarrow> ptr \<Rightarrow> heap \<Rightarrow> fault + (nat \<times> ptr \<times> heap)" where
  "add_to_head_om mem mem_ok val list h =
     bindc (new_node mem mem_ok val h) (\<lambda>(res, node, h).
     if res \<noteq> 0 then Inr (1, list, h)
     else if list = None then Inr (0, node, h)
     else
       bindc (upd_at h node (\<lambda>n. n\<lparr>nxt := list\<rparr>)) (\<lambda>h.
       bindc (upd_at h list (\<lambda>n. n\<lparr>prv := node\<rparr>)) (\<lambda>h.
       Inr (0, node, h))))"

text \<open>The memory of a line goes with its node; the first \<open>free\<close> leaves the node without a line.\<close>

fun list_free_om_loop :: "nat \<Rightarrow> ptr \<Rightarrow> heap \<Rightarrow> fault + heap" where
  "list_free_om_loop f None h = Inr h"
| "list_free_om_loop 0 (Some a) h = Inl Blocked"
| "list_free_om_loop (Suc f) (Some a) h =
     bindc (deref h (Some a)) (\<lambda>n.
     bindc (upd_at h (Some a) (\<lambda>n. n\<lparr>line := None\<rparr>)) (\<lambda>h.
     bindc (free_at h (Some a)) (\<lambda>h. list_free_om_loop f (nxt n) h)))"

definition list_free_om :: "nat \<Rightarrow> ptr \<Rightarrow> heap \<Rightarrow> fault + (nat \<times> heap)" where
  "list_free_om f list h =
     (if list = None then Inr (1, h) else bindc (list_free_om_loop f list h) (\<lambda>h. Inr (0, h)))"

definition print_list_om :: "nat \<Rightarrow> ptr \<Rightarrow> heap \<Rightarrow> fault + (nat \<times> bytes list)" where
  "print_list_om f list h =
     (if list = None then Inr (1, []) else bindc (print_list_loop f list h) (\<lambda>out. Inr (0, out)))"

text \<open>
  The body of the loop of \<open>read_lines\<close>; \<open>input\<close> is what \<open>fgets\<close> has read, \<open>None\<close> at the end of the
  input.
\<close>

definition read_line_om :: "nat \<Rightarrow> ptr \<Rightarrow> bool \<Rightarrow> bytes option \<Rightarrow> ptr \<Rightarrow> heap \<Rightarrow> fault + (bool \<times> ptr \<times> heap \<times> bytes list)" where
  "read_line_om f mem mem_ok input list h = (case input of None \<Rightarrow> Inr (True, list, h, [])
     | Some cur_line \<Rightarrow>
         bindc (cut_newline cur_line) (\<lambda>cur_line.
         bindc (strcmp cur_line (lit ''c_exit'')) (\<lambda>v.
         if v = 0 then Inr (True, list, h, [])
         else
           bindc (strcmp cur_line (lit [])) (\<lambda>v.
           if v = 0 then bindc (print_list_om f list h) (\<lambda>(res, out). Inr (False, list, h, out))
           else bindc (add_to_head_om mem mem_ok (Some cur_line) list h) (\<lambda>(res, list, h). Inr (False, list, h, []))))))"

definition swap_om :: "ptr \<Rightarrow> ptr \<Rightarrow> heap \<Rightarrow> fault + (nat \<times> heap)" where
  "swap_om l_node r_node h =
     bindc (deref h l_node) (\<lambda>l.
     if nxt l \<noteq> r_node then Inr (1, h)
     else bindc (swap l_node r_node h) (\<lambda>h. Inr (0, h)))"

fun sort_pass_om :: "nat \<Rightarrow> ptr \<Rightarrow> ptr \<Rightarrow> bool \<Rightarrow> ptr \<Rightarrow> heap \<Rightarrow> fault + (heap \<times> ptr \<times> bool \<times> ptr)" where
  "sort_pass_om f end_p current is_swapped list h =
     bindc (deref h current) (\<lambda>c.
     if nxt c = end_p then Inr (h, list, is_swapped, current)
     else case f of 0 \<Rightarrow> Inl Blocked
     | Suc f \<Rightarrow>
         bindc (deref h (nxt c)) (\<lambda>n.
         bindc (cmp_lines (line c) (line n)) (\<lambda>v.
         if 0 < v then
           let next_node = nxt c; list = (if current = list then next_node else list) in
           bindc (swap_om current next_node h) (\<lambda>(res, h).
           bindc (deref h next_node) (\<lambda>n.
           sort_pass_om f end_p (nxt n) True list h))
         else sort_pass_om f end_p (nxt c) is_swapped list h)))"

declare sort_pass_om.simps [simp del]

primrec sort_loop_om :: "nat \<Rightarrow> nat \<Rightarrow> ptr \<Rightarrow> ptr \<Rightarrow> heap \<Rightarrow> fault + (heap \<times> ptr)" where
  "sort_loop_om 0 f end_p list h = Inl Blocked"
| "sort_loop_om (Suc k) f end_p list h =
     bindc (sort_pass_om f end_p list False list h) (\<lambda>(h, list, is_swapped, current).
     if is_swapped then sort_loop_om k f current list h else Inr (h, list))"

text \<open>One round of \<open>bubble_sort_mt\<close>: with fewer than two nodes the thread only looks at the list and sleeps.\<close>

definition bubble_sort_om :: "nat \<Rightarrow> ptr \<Rightarrow> heap \<Rightarrow> fault + (heap \<times> ptr)" where
  "bubble_sort_om f list h =
     (if list = None then Inr (h, list)
      else
        bindc (deref h list) (\<lambda>l.
        if nxt l = None then Inr (h, list) else sort_loop_om f f None list h))"

text \<open>
  The program: the pieces of work of the two threads, in the order in which they get the mutex, until the
  reading thread leaves its loop; the end of the sequence is the end of the input. For a line the
  environment provides the address of its node, and \<open>malloc\<close> succeeds.
\<close>

datatype piece = Line nat "bytes option" | Round

fun session_om :: "nat \<Rightarrow> piece list \<Rightarrow> ptr \<Rightarrow> heap \<Rightarrow> fault + (ptr \<times> heap \<times> bytes list)" where
  "session_om f [] list h = Inr (list, h, [])"
| "session_om f (Line a s # ws) list h =
     bindc (read_line_om f (Some a) True s list h) (\<lambda>(ended, list, h, out).
     if ended then Inr (list, h, out)
     else bindc (session_om f ws list h) (\<lambda>(list, h, out'). Inr (list, h, out @ out')))"
| "session_om f (Round # ws) list h =
     bindc (bubble_sort_om f list h) (\<lambda>(h, list). session_om f ws list h)"

text \<open>
  What \<open>main\<close> waits for in \<open>pthread_join\<close>, after \<open>read_lines\<close> has set \<open>stop_sort_thread\<close>. When the sorting
  thread has tested the flag before (\<open>in_round\<close>), it finishes its round; the loop in which it looks for two
  nodes does not test the flag, and nobody adds a line any more. Otherwise it leaves its loop.
\<close>

definition join_sort_thread :: "nat \<Rightarrow> bool \<Rightarrow> ptr \<Rightarrow> heap \<Rightarrow> fault + (heap \<times> ptr)" where
  "join_sort_thread f in_round list h =
     (if \<not> in_round then Inr (h, list)
      else if list = None then Inl Blocked
      else
        bindc (deref h list) (\<lambda>l.
        if nxt l = None then Inl Blocked else sort_loop_om f f None list h))"

definition main_om :: "nat \<Rightarrow> bool \<Rightarrow> piece list \<Rightarrow> fault + (heap \<times> bytes list)" where
  "main_om f in_round ws =
     bindc (session_om f ws None Map.empty) (\<lambda>(list, h, out).
     bindc (join_sort_thread f in_round list h) (\<lambda>(h, list).
     bindc (list_free_om f list h) (\<lambda>(res, h). Inr (h, out))))"

subsection \<open>solution_rw.c\<close>

text \<open>
  The places of \<open>bubble_sort_mt\<close>: looking for two nodes, the start of the \<open>do\<close> loop, the condition of the
  inner loop and the comparison of the lines, the test for the head, the assignment to \<open>*list\<close>, and
  \<open>swap\<close> with what follows it.
\<close>

datatype rw_pc = Looking | Starting | Comparing | Testing | Moving | Swapping

record rw =
  rw_heap :: heap
  rw_list :: ptr
  rw_pc :: rw_pc
  rw_current :: ptr
  rw_next_node :: ptr
  rw_end :: ptr
  rw_swapped :: bool

definition rw_sort :: "rw \<Rightarrow> fault + rw" where
  "rw_sort s = (case rw_pc s of
     Looking \<Rightarrow>
       if rw_list s = None then Inr s
       else
         bindc (deref (rw_heap s) (rw_list s)) (\<lambda>l.
         Inr (if nxt l = None then s else s\<lparr>rw_end := None, rw_pc := Starting\<rparr>))
   | Starting \<Rightarrow> Inr (s\<lparr>rw_swapped := False, rw_current := rw_list s, rw_pc := Comparing\<rparr>)
   | Comparing \<Rightarrow>
       bindc (deref (rw_heap s) (rw_current s)) (\<lambda>c.
       if nxt c = rw_end s then
         Inr (s\<lparr>rw_end := rw_current s, rw_pc := if rw_swapped s then Starting else Looking\<rparr>)
       else
         bindc (deref (rw_heap s) (nxt c)) (\<lambda>n.
         bindc (cmp_lines (line c) (line n)) (\<lambda>v.
         Inr (if 0 < v then s\<lparr>rw_next_node := nxt c, rw_pc := Testing\<rparr> else s\<lparr>rw_current := nxt c\<rparr>))))
   | Testing \<Rightarrow> Inr (s\<lparr>rw_pc := if rw_current s = rw_list s then Moving else Swapping\<rparr>)
   | Moving \<Rightarrow> Inr (s\<lparr>rw_list := rw_next_node s, rw_pc := Swapping\<rparr>)
   | Swapping \<Rightarrow>
       bindc (swap_om (rw_current s) (rw_next_node s) (rw_heap s)) (\<lambda>(res, h).
       bindc (deref h (rw_next_node s)) (\<lambda>n.
       Inr (s\<lparr>rw_heap := h, rw_swapped := True, rw_current := nxt n, rw_pc := Comparing\<rparr>))))"

definition rw_read :: "nat \<Rightarrow> nat \<Rightarrow> bytes option \<Rightarrow> rw \<Rightarrow> fault + (bool \<times> rw \<times> bytes list)" where
  "rw_read f a input s =
     bindc (read_line_om f (Some a) True input (rw_list s) (rw_heap s)) (\<lambda>(ended, list, h, out).
     Inr (ended, s\<lparr>rw_list := list, rw_heap := h\<rparr>, out))"

inductive rw_step :: "rw \<Rightarrow> rw \<Rightarrow> bool" where
  rw_sorts: "rw_sort s = Inr s' \<Longrightarrow> rw_step s s'"
| rw_reads: "a \<notin> dom (rw_heap s) \<Longrightarrow> rw_read f a (Some t) s = Inr (False, s', out) \<Longrightarrow> rw_step s s'"

subsection \<open>The list of lines\<close>

text \<open>What the program promises: a list of lines, to which a line is added at the front, and which a round of sorting sorts.\<close>

definition text_of :: "bytes \<Rightarrow> bytes" where
  "text_of s = takeWhile (\<lambda>c. c \<noteq> 0 \<and> c \<noteq> of_char CHR ''\<newline>'') s"

definition exit_text :: bytes where
  "exit_text = map of_char ''c_exit''"

fun a_session :: "piece list \<Rightarrow> bytes list \<Rightarrow> bytes list \<times> bytes list" where
  "a_session [] ls = (ls, [])"
| "a_session (Line a None # ws) ls = (ls, [])"
| "a_session (Line a (Some s) # ws) ls =
     (if text_of s = exit_text then (ls, [])
      else if text_of s = [] then (fst (a_session ws ls), ls @ snd (a_session ws ls))
      else a_session ws (text_of s # ls))"
| "a_session (Round # ws) ls = a_session ws (sort ls)"

fun addrs :: "piece list \<Rightarrow> nat list" where
  "addrs [] = []"
| "addrs (Line a s # ws) = a # addrs ws"
| "addrs (Round # ws) = addrs ws"

definition proper_input :: "piece list \<Rightarrow> bool" where
  "proper_input ws \<longleftrightarrow> (\<forall>a t. Line a (Some t) \<in> set ws \<longrightarrow> 0 \<in> set t)"

definition holds_lines :: "heap \<Rightarrow> ptr \<Rightarrow> bytes list \<Rightarrow> bool" where
  "holds_lines h p ls \<longleftrightarrow>
     (\<exists>xs. lst h p xs \<and> distinct xs \<and> (\<forall>x \<in> set xs. text_at h x) \<and> map (key h) xs = ls \<and> dom h = set xs)"

lemma length_a_session: "length (fst (a_session ws ls)) \<le> length ls + length ws"
proof (induction ws ls rule: a_session.induct)
  case (3 a s ws ls)
  then show ?case
    by (cases "text_of s = exit_text"; cases "text_of s = []") auto
qed auto

subsection \<open>solution_only_mutex.c implements it\<close>

lemma swap_om_eq: "deref h l = Inr n \<Longrightarrow> swap_om l (nxt n) h = bindc (swap l (nxt n) h) (\<lambda>h. Inr (0, h))"
  by (simp add: swap_om_def)

lemma sort_pass_om_eq: "sort_pass_om f e c s l h = sort_pass f e c s l h"
proof (induction f arbitrary: c s l h)
  case 0
  show ?case
    by (cases "deref h c"; subst sort_pass_om.simps; subst sort_pass.simps) simp_all
next
  case (Suc f)
  show ?case
  proof (cases "deref h c")
    case (Inl e)
    then show ?thesis
      by (subst sort_pass_om.simps, subst sort_pass.simps) simp
  next
    case (Inr n)
    then show ?thesis
      using swap_om_eq [OF Inr]
      by (subst sort_pass_om.simps, subst sort_pass.simps) (simp add: Suc Let_def bindc_assoc cong: if_cong)
  qed
qed

lemma sort_loop_om_eq: "sort_loop_om k f e l h = sort_loop k f e l h"
  by (induction k arbitrary: e l h) (simp_all add: sort_pass_om_eq cong: if_cong)

lemma bubble_sort_om_spec:
  assumes "holds_lines h p ls" and "length ls \<le> f"
  shows "\<exists>h' p'. bubble_sort_om f p h = Inr (h', p') \<and> holds_lines h' p' (sort ls) \<and> dom h' = dom h"
proof -
  obtain xs where xs: "lst h p xs" "distinct xs" "\<forall>x \<in> set xs. text_at h x" "map (key h) xs = ls" "dom h = set xs"
    using assms(1) by (auto simp: holds_lines_def)
  show ?thesis
  proof (cases "2 \<le> length xs")
    case True
    then obtain a b ys where ab: "xs = a # b # ys"
      by (cases xs; cases "tl xs") auto
    then obtain na where na: "p = Some a" "h a = Some na" "nxt na = Some b"
      using xs(1) by (auto split: option.splits)
    obtain h' p' where s: "bubble_sort_mt f p h = Inr (h', p')" "same_lines h h'" "lst h' p' (sort_key (key h) xs)"
      using bubble_sort_spec [OF xs(1,2) True, of f] xs(3,4) assms(2) by auto
    have "bubble_sort_om f p h = Inr (h', p')"
      using s(1) na by (simp add: bubble_sort_om_def bubble_sort_mt_def sort_loop_om_eq)
    moreover have k: "key h' = key h" "text_at h' = text_at h"
      using same_lines_key [OF s(2)] same_lines_text [OF s(2)] by auto
    moreover have d: "dom h' = dom h"
      using s(2) by (auto simp: same_lines_def dom_def dest: spec) (metis option.map_disc_iff option.exhaust)+
    moreover have "map (key h) (sort_key (key h) xs) = sort ls"
      using xs(4) by (intro properties_for_sort [symmetric]) auto
    ultimately show ?thesis
      using s(3) xs by (intro exI [of _ h'] exI [of _ p']) (auto simp: holds_lines_def)
  next
    case False
    then have "bubble_sort_om f p h = Inr (h, p)"
      using xs(1) by (cases xs; cases "tl xs") (auto simp: bubble_sort_om_def split: option.splits)
    moreover have "sort ls = ls"
      using False xs(4) by (cases xs; cases "tl xs") auto
    ultimately show ?thesis
      using assms(1) by simp
  qed
qed

lemma add_to_head_om_spec:
  assumes "lst h p xs" and "distinct xs" and "a \<notin> dom h" and "0 \<in> set s"
  shows "\<exists>h'. add_to_head_om (Some a) True (Some s) p h = Inr (0, Some a, h') \<and> lst h' (Some a) (a # xs) \<and>
    key h' a = c_str s \<and> text_at h' a \<and> (\<forall>x \<in> set xs. key h' x = key h x \<and> text_at h' x = text_at h x) \<and>
    dom h' = insert a (dom h)"
proof -
  let ?n = "\<lparr>line = Some (c_str s @ [0]), nxt = None, prv = None, locked = False\<rparr>"
  have a: "a \<notin> set xs"
    using dll_set_dom [OF assms(1)] assms(3) by blast
  show ?thesis
  proof (cases xs)
    case Nil
    then show ?thesis
      using assms(1) new_node_text [OF assms(4), of a h] by (simp add: add_to_head_om_def key_def text_at_def)
  next
    case (Cons b ys)
    obtain nb where nb: "p = Some b" "h b = Some nb" "prv nb = None" "dll nxt prv h (Some b) (nxt nb) ys"
      using assms(1) Cons by (auto split: option.splits)
    have ne: "a \<noteq> b" "a \<notin> set ys" "b \<notin> set ys"
      using a Cons assms(2) by auto
    let ?h = "h(a \<mapsto> ?n\<lparr>nxt := Some b\<rparr>, b \<mapsto> nb\<lparr>prv := Some a\<rparr>)"
    have "add_to_head_om (Some a) True (Some s) p h = Inr (0, Some a, ?h)"
      using new_node_text [OF assms(4), of a h] nb ne by (simp add: add_to_head_om_def)
    moreover have "key ?h x = key h x \<and> text_at ?h x = text_at h x" if "x \<in> set xs" for x
      using that a nb(2) by (auto simp: key_def text_at_def)
    ultimately show ?thesis
      using nb ne Cons by (auto simp: key_def text_at_def)
  qed
qed

lemma cut_newline_spec:
  assumes "0 \<in> set s"
  shows "\<exists>t. cut_newline s = Inr t \<and> 0 \<in> set t \<and> c_str t = text_of s"
proof -
  let ?n = "length (text_of s)"
  have "?n < length s"
    using assms unfolding text_of_def by (induction s) auto
  then have "s[?n := 0] = take ?n s @ 0 # drop (Suc ?n) s"
    by (rule upd_conv_take_nth_drop)
  moreover have "take ?n s = text_of s"
    unfolding text_of_def by (rule takeWhile_eq_take [symmetric])
  moreover have "0 \<notin> set (text_of s)"
    by (auto simp: text_of_def dest: set_takeWhileD)
  ultimately show ?thesis
    using assms by (simp add: cut_newline_def text_of_def)
qed

lemma strcmp_lit:
  assumes "0 \<in> set t" and "0 \<notin> set (map of_char l :: bytes)"
  shows "\<exists>v. strcmp t (lit l) = Inr v \<and> (v = 0 \<longleftrightarrow> c_str t = map of_char l)"
proof -
  obtain r where t: "t = c_str t @ 0 # r"
    using c_str_split [OF assms(1)] by blast
  have u: "0 \<notin> set (c_str t)"
    by simp
  obtain v where "strcmp (c_str t @ 0 # r) (map of_char l @ 0 # []) = Inr v"
    using strcmp_order [OF u assms(2), of r "[]"] by blast
  moreover from this have "v = 0 \<longleftrightarrow> c_str t = map of_char l"
    using strcmp_0_iff [OF u assms(2), of r "[]"] by simp
  ultimately show ?thesis
    unfolding lit_def t [symmetric] by blast
qed

lemma read_line_om_cases:
  assumes "0 \<in> set s"
  obtains (exit) "text_of s = exit_text" "read_line_om f (Some a) True (Some s) p h = Inr (True, p, h, [])"
  | (print) "text_of s \<noteq> exit_text" "text_of s = []"
      "read_line_om f (Some a) True (Some s) p h = bindc (print_list_om f p h) (\<lambda>(res, out). Inr (False, p, h, out))"
  | (add) t where "text_of s \<noteq> exit_text" "text_of s \<noteq> []" "0 \<in> set t" "c_str t = text_of s"
      "read_line_om f (Some a) True (Some s) p h =
         bindc (add_to_head_om (Some a) True (Some t) p h) (\<lambda>(res, list, h). Inr (False, list, h, []))"
proof -
  obtain t where t: "cut_newline s = Inr t" "0 \<in> set t" "c_str t = text_of s"
    using cut_newline_spec [OF assms] by blast
  obtain v w where "strcmp t (lit ''c_exit'') = Inr v" "v = 0 \<longleftrightarrow> text_of s = exit_text"
      "strcmp t (lit []) = Inr w" "w = 0 \<longleftrightarrow> text_of s = []"
    using strcmp_lit [OF t(2), of "''c_exit''"] strcmp_lit [OF t(2), of "[]"] t(3) by (auto simp: exit_text_def)
  then show ?thesis
    using t that by (cases "v = 0"; cases "w = 0") (simp_all add: read_line_om_def)
qed

lemma print_list_om_spec:
  assumes "holds_lines h p ls" and "length ls \<le> f"
  shows "\<exists>res. print_list_om f p h = Inr (res, ls)"
proof -
  obtain xs where xs: "lst h p xs" "\<forall>x \<in> set xs. text_at h x" "map (key h) xs = ls"
    using assms(1) by (auto simp: holds_lines_def)
  then show ?thesis
    using print_list_loop_spec [OF xs(1), of f] assms(2) by (auto simp: print_list_om_def dll_None_iff)
qed

lemma list_free_om_loop_spec:
  "dll nxt prv h bk p xs \<Longrightarrow> distinct xs \<Longrightarrow> length xs \<le> f \<Longrightarrow>
   \<exists>h'. list_free_om_loop f p h = Inr h' \<and> dom h' = dom h - set xs"
proof (induction xs arbitrary: h bk p f)
  case (Cons a xs)
  then obtain n g where n: "p = Some a" "h a = Some n" "dll nxt prv h (Some a) (nxt n) xs" "f = Suc g"
    by (cases f) (auto split: option.splits)
  have "dll nxt prv (h(a := None)) (Some a) (nxt n) xs" "distinct xs" "length xs \<le> g"
    using n(3,4) Cons.prems(2,3) by simp_all
  from Cons.IH [OF this]
  obtain h' where "list_free_om_loop g (nxt n) (h(a := None)) = Inr h'" "dom h' = dom (h(a := None)) - set xs"
    by blast
  then show ?case
    using n by auto
qed simp

lemma holds_lines_add:
  assumes "holds_lines h p ls" and "a \<notin> dom h" and "0 \<in> set s"
  shows "\<exists>h'. add_to_head_om (Some a) True (Some s) p h = Inr (0, Some a, h') \<and> holds_lines h' (Some a) (c_str s # ls) \<and>
    dom h' = insert a (dom h)"
proof -
  obtain xs where xs: "lst h p xs" "distinct xs" "\<forall>x \<in> set xs. text_at h x" "map (key h) xs = ls" "dom h = set xs"
    using assms(1) by (auto simp: holds_lines_def)
  obtain h' where h': "add_to_head_om (Some a) True (Some s) p h = Inr (0, Some a, h')" "lst h' (Some a) (a # xs)"
      "key h' a = c_str s" "text_at h' a" "\<forall>x \<in> set xs. key h' x = key h x \<and> text_at h' x = text_at h x"
      "dom h' = insert a (dom h)"
    using add_to_head_om_spec [OF xs(1,2) assms(2,3)] by blast
  have "map (key h') (a # xs) = c_str s # ls"
    using h'(3,5) xs(4) by auto
  moreover have "distinct (a # xs)"
    using assms(2) xs(2,5) by simp
  moreover have "\<forall>x \<in> set (a # xs). text_at h' x"
    using h'(4,5) xs(3) by simp
  ultimately have "holds_lines h' (Some a) (c_str s # ls)"
    unfolding holds_lines_def using h'(2,6) xs(5) by (intro exI [of _ "a # xs"]) simp
  then show ?thesis
    using h'(1,6) by blast
qed

lemma proper_input_Cons:
  "proper_input (w # ws) \<longleftrightarrow> (\<forall>a t. w = Line a (Some t) \<longrightarrow> 0 \<in> set t) \<and> proper_input ws"
  by (auto simp: proper_input_def)

lemma session_om_spec:
  "holds_lines h p ls \<Longrightarrow> distinct (addrs ws) \<Longrightarrow> set (addrs ws) \<inter> dom h = {} \<Longrightarrow> proper_input ws \<Longrightarrow>
   length ls + length ws \<le> f \<Longrightarrow>
   \<exists>p' h'. session_om f ws p h = Inr (p', h', snd (a_session ws ls)) \<and> holds_lines h' p' (fst (a_session ws ls))"
proof (induction ws ls arbitrary: p h rule: a_session.induct)
  case (2 a ws ls)
  then show ?case
    by (simp add: read_line_om_def)
next
  case (3 a s ws ls)
  have s: "0 \<in> set s"
    using "3.prems"(4) by (simp add: proper_input_Cons)
  from s show ?case
  proof (cases rule: read_line_om_cases [of s f a p h, consumes 1, case_names exit print add])
    case exit
    then show ?thesis
      using "3.prems"(1) by simp
  next
    case print
    obtain res where "print_list_om f p h = Inr (res, ls)"
      using print_list_om_spec [OF "3.prems"(1), of f] "3.prems"(5) by auto
    then show ?thesis
      using print "3.IH"(1) [OF print(1,2) "3.prems"(1)] "3.prems" by (auto simp: proper_input_Cons)
  next
    case (add t)
    obtain h1 where h1: "add_to_head_om (Some a) True (Some t) p h = Inr (0, Some a, h1)"
        "holds_lines h1 (Some a) (text_of s # ls)" "dom h1 = insert a (dom h)"
      using holds_lines_add [OF "3.prems"(1), of a t] add "3.prems"(3) by auto
    then show ?thesis
      using add "3.IH"(3) [OF add(1,2) h1(2)] "3.prems" by (auto simp: proper_input_Cons)
  qed
next
  case (4 ws ls)
  obtain h1 p1 where "bubble_sort_om f p h = Inr (h1, p1)" "holds_lines h1 p1 (sort ls)" "dom h1 = dom h"
    using bubble_sort_om_spec [OF "4.prems"(1), of f] "4.prems"(5) by auto
  then show ?case
    using "4.IH" [of h1 p1] "4.prems" by (auto simp: proper_input_Cons)
qed auto

lemma join_sort_thread_spec:
  assumes "holds_lines h p ls" and "length ls \<le> f"
  shows "if in_round \<and> length ls < 2 then join_sort_thread f in_round p h = Inl Blocked
    else \<exists>h' p' ls'. join_sort_thread f in_round p h = Inr (h', p') \<and> holds_lines h' p' ls' \<and> length ls' = length ls"
proof -
  obtain xs where xs: "lst h p xs" "map (key h) xs = ls"
    using assms(1) by (auto simp: holds_lines_def)
  have len: "length xs = length ls"
    using xs(2) by auto
  show ?thesis
  proof (cases "in_round \<and> 2 \<le> length ls")
    case True
    then obtain a b ys where ab: "xs = a # b # ys"
      using len by (cases xs; cases "tl xs") auto
    then obtain na where na: "p = Some a" "h a = Some na" "nxt na = Some b"
      using xs(1) by (auto split: option.splits)
    have "join_sort_thread f in_round p h = bubble_sort_om f p h"
      using True na by (simp add: join_sort_thread_def bubble_sort_om_def)
    moreover obtain h' p' where "bubble_sort_om f p h = Inr (h', p')" "holds_lines h' p' (sort ls)"
      using bubble_sort_om_spec [OF assms] by blast
    ultimately show ?thesis
      using True by (auto intro!: exI [of _ "sort ls"])
  next
    case False
    show ?thesis
    proof (cases in_round)
      case True
      then have "length xs < 2"
        using False len by simp
      then have "join_sort_thread f in_round p h = Inl Blocked"
        using True xs(1) by (cases xs; cases "tl xs") (auto simp: join_sort_thread_def split: option.splits)
      then show ?thesis
        using True False by simp
    next
      case False
      then show ?thesis
        using assms(1) by (auto simp: join_sort_thread_def)
    qed
  qed
qed

lemma list_free_om_spec:
  assumes "holds_lines h p ls" and "length ls \<le> f"
  shows "\<exists>res. list_free_om f p h = Inr (res, Map.empty)"
proof -
  obtain xs where xs: "lst h p xs" "distinct xs" "dom h = set xs" "length xs \<le> f"
    using assms by (auto simp: holds_lines_def)
  show ?thesis
  proof (cases p)
    case None
    then show ?thesis
      using xs by (simp add: list_free_om_def dll_None_iff)
  next
    case (Some a)
    obtain h' where "list_free_om_loop f p h = Inr h'" "dom h' = {}"
      using list_free_om_loop_spec [OF xs(1,2,4)] xs(3) by auto
    then show ?thesis
      using Some by (simp add: list_free_om_def)
  qed
qed

subsection \<open>Properties\<close>

text \<open>C14: \<open>solution_only_mutex.c\<close> keeps a list of lines. For every order in which the two threads get the mutex, the program
  prints what the list of lines prints that is sorted by every round of the sorting thread, ends without a fault and
  has freed all nodes; except when the sorting thread is in a round while the list has fewer than two lines at the
  end: then \<open>main\<close> waits for the thread for ever.\<close>

theorem only_mutex_implements_lines:
  assumes "distinct (addrs ws)" and "proper_input ws" and "length ws \<le> f"
  shows "main_om f in_round ws =
    (if in_round \<and> length (fst (a_session ws [])) < 2 then Inl Blocked else Inr (Map.empty, snd (a_session ws [])))"
proof -
  let ?ls = "fst (a_session ws [])"
  obtain p h where s: "session_om f ws None Map.empty = Inr (p, h, snd (a_session ws []))" "holds_lines h p ?ls"
    using session_om_spec [of Map.empty None "[]" ws f] assms by (auto simp: holds_lines_def)
  have len: "length ?ls \<le> f"
    using length_a_session [of ws "[]"] assms(3) by simp
  show ?thesis
  proof (cases "in_round \<and> length ?ls < 2")
    case True
    then show ?thesis
      using join_sort_thread_spec [OF s(2) len, of in_round] s(1) by (simp add: main_om_def)
  next
    case False
    then obtain h' p' ls' where j: "join_sort_thread f in_round p h = Inr (h', p')" "holds_lines h' p' ls'" "length ls' = length ?ls"
      using join_sort_thread_spec [OF s(2) len, of in_round] by (auto split: if_splits)
    then show ?thesis
      using list_free_om_spec [OF j(2), of f] len s(1) False by (auto simp: main_om_def)
  qed
qed

definition demo_pieces :: "piece list" where
  "demo_pieces = [Line 1 (Some [97, 10, 0]), Line 2 (Some [98, 10, 0]), Round, Line 3 (Some [10, 0]), Line 4 None]"

theorem only_mutex_implements_lines_witness:
  "main_om 5 True demo_pieces = Inr (Map.empty, [[97], [98]]) \<and> main_om 5 True [Line 1 None] = Inl Blocked"
proof -
  have "a_session demo_pieces [] = ([[97], [98]], [[97], [98]])"
    by (simp add: demo_pieces_def text_of_def exit_text_def)
  then show ?thesis
    using only_mutex_implements_lines [of demo_pieces 5 True] only_mutex_implements_lines [of "[Line 1 None]" 5 True]
    by (simp add: demo_pieces_def proper_input_def)
qed

text \<open>C22: \<open>solution_rw.c\<close> can lose a line. When the first two lines are out of order, there is a run in which the other thread adds
  a line between the test for the head of the list and the assignment to it; afterwards the list starts behind the
  new node, which is in the heap but never printed, sorted or freed.\<close>

theorem rw_loses_line:
  assumes "lst (rw_heap s) (rw_list s) (a # b # xs)" and "distinct (a # b # xs)" and "text_at (rw_heap s) a"
    and "text_at (rw_heap s) b" and "key (rw_heap s) b < key (rw_heap s) a" and "rw_pc s = Looking"
    and "c \<notin> dom (rw_heap s)" and "0 \<in> set t" and "text_of t \<noteq> []" and "text_of t \<noteq> exit_text"
  shows "\<exists>s'. rw_step\<^sup>*\<^sup>* s s' \<and> rw_list s' = Some b \<and> dll nxt prv (rw_heap s') (Some c) (Some b) (b # a # xs) \<and>
    c \<notin> set (b # a # xs) \<and> key (rw_heap s') c = text_of t"
proof -
  let ?h = "rw_heap s"
  obtain na nb la lb where n: "rw_list s = Some a" "?h a = Some na" "nxt na = Some b" "?h b = Some nb"
      "line na = Some la" "0 \<in> set la" "line nb = Some lb" "0 \<in> set lb"
    using assms(1,3,4) by (auto simp: text_at_def)
  obtain v where v: "cmp_lines (line na) (line nb) = Inr v" "0 < v"
    using cmp_lines_order [OF n(2,5,6,4,7,8)] assms(5) by auto
  let ?s1 = "s\<lparr>rw_end := None, rw_pc := Starting\<rparr>"
  let ?s2 = "?s1\<lparr>rw_swapped := False, rw_current := Some a, rw_pc := Comparing\<rparr>"
  let ?s3 = "?s2\<lparr>rw_next_node := Some b, rw_pc := Testing\<rparr>"
  let ?s4 = "?s3\<lparr>rw_pc := Moving\<rparr>"
  have "rw_step s ?s1" "rw_step ?s1 ?s2" "rw_step ?s2 ?s3" "rw_step ?s3 ?s4"
    using n v assms(6) by (auto intro!: rw_sorts simp: rw_sort_def)
  then have steps: "rw_step\<^sup>*\<^sup>* s ?s4"
    by (meson converse_rtranclp_into_rtranclp rtranclp.rtrancl_refl)
  obtain t' where t': "0 \<in> set t'" "c_str t' = text_of t" "read_line_om 0 (Some c) True (Some t) (Some a) ?h =
      bindc (add_to_head_om (Some c) True (Some t') (Some a) ?h) (\<lambda>(res, list, h). Inr (False, list, h, []))"
    using read_line_om_cases [OF assms(8), of 0 c "Some a" ?h] assms(9,10) by metis
  obtain h1 where h1: "add_to_head_om (Some c) True (Some t') (Some a) ?h = Inr (0, Some c, h1)"
      "lst h1 (Some c) (c # a # b # xs)" "key h1 c = text_of t"
    using add_to_head_om_spec [OF _ assms(2) assms(7) t'(1), of "Some a"] assms(1) n(1) t'(2) by auto
  let ?s5 = "?s4\<lparr>rw_list := Some c, rw_heap := h1\<rparr>"
  let ?s6 = "?s5\<lparr>rw_list := Some b, rw_pc := Swapping\<rparr>"
  have "rw_step ?s4 ?s5"
    using assms(7) t'(3) h1(1) n(1) by (intro rw_reads [of c _ 0 t _ "[]"]) (simp_all add: rw_read_def)
  moreover have "rw_step ?s5 ?s6"
    by (auto intro!: rw_sorts simp: rw_sort_def)
  moreover have c: "c \<notin> set (a # b # xs)"
    using dll_set_dom [OF assms(1)] assms(7) by blast
  obtain h2 where h2: "swap (Some a) (Some b) h1 = Inr h2" "same_lines h1 h2" "lst h2 (Some c) (c # b # a # xs)"
    using swap_spec [of h1 "Some c" "[c]" a b xs] h1(2) c assms(2) by auto
  obtain ma mb where m: "h1 a = Some ma" "nxt ma = Some b" "h2 b = Some mb"
    using h1(2) h2(3) by (auto split: option.splits)
  let ?s7 = "?s6\<lparr>rw_heap := h2, rw_swapped := True, rw_current := nxt mb, rw_pc := Comparing\<rparr>"
  have "rw_step ?s6 ?s7"
    using m h2(1) by (auto intro!: rw_sorts simp: rw_sort_def swap_om_def)
  ultimately have "rw_step\<^sup>*\<^sup>* s ?s7"
    using steps by (meson rtranclp.rtrancl_into_rtrancl)
  moreover have "dll nxt prv h2 (Some c) (Some b) (b # a # xs)"
    using h2(3) by (auto split: option.splits)
  moreover have "key h2 c = text_of t"
    using same_lines_key [OF h2(2)] h1(3) by simp
  ultimately show ?thesis
    using c by (intro exI [of _ ?s7]) simp
qed

definition rw_demo :: rw where
  "rw_demo = \<lparr>rw_heap = two_lines, rw_list = Some 10, rw_pc = Looking, rw_current = None, rw_next_node = None,
     rw_end = None, rw_swapped = False\<rparr>"

theorem rw_loses_line_witness:
  "\<exists>s'. rw_step\<^sup>*\<^sup>* rw_demo s' \<and> rw_list s' = Some 20 \<and> key (rw_heap s') 30 = [99]"
proof -
  have "key two_lines 10 = [98]" "key two_lines 20 = [97]"
    by (simp_all add: key_def two_lines_def lit_def c_str_def)
  moreover have "(30 :: nat) \<notin> dom two_lines"
    by (simp add: two_lines_def)
  moreover have "text_of [99, 10, 0] = [99]"
    by (simp add: text_of_def)
  ultimately show ?thesis
    using rw_loses_line [of rw_demo 10 20 "[]" 30 "[99, 10, 0]"] two_lines_facts
    by (auto simp: rw_demo_def exit_text_def)
qed

end
