(* ===== verification/Base64_Decoders.thy ===== *)
theory Base64_Decoders
  imports Base64
begin

text \<open>
  The decoder of \<open>base64_to_bytes.cpp\<close> against the one of \<open>base64.hpp\<close>: both are described by the value of a
  character and the three bytes of a group of four characters, \<open>decoded\<close>.
\<close>

subsection \<open>The two decoders agree\<close>

text \<open>The value of a character, where padding counts as zero, and the bytes of a text.\<close>

definition b64_value :: "8 word \<Rightarrow> nat option" where
  "b64_value c = (if c = padding_char then Some 0 else b64_index (unat c))"

definition value_word :: "8 word \<Rightarrow> 32 word" where
  "value_word c = of_nat (the (b64_value c))"

definition group_word :: "8 word \<Rightarrow> 8 word \<Rightarrow> 8 word \<Rightarrow> 8 word \<Rightarrow> 32 word" where
  "group_word c1 c2 c3 c4 =
     part0 (value_word c1) OR part1 (value_word c2) OR part2 (value_word c3) OR part3 (value_word c4)"

fun decoded :: "bytes \<Rightarrow> bytes" where
  "decoded (c1 # c2 # c3 # c4 # cs) =
     temp_byte 0 (group_word c1 c2 c3 c4) # temp_byte 1 (group_word c1 c2 c3 c4) # temp_byte 2 (group_word c1 c2 c3 c4) # decoded cs"
| "decoded _ = []"

definition all_values :: "bytes \<Rightarrow> bool" where
  "all_values cs \<longleftrightarrow> (\<forall>c \<in> set cs. b64_value c \<noteq> None)"

lemma index_table: "b64_index i = Some k \<Longrightarrow> k < 64 \<and> unat (encoding_table ! k) = i"
proof -
  have "list_all (\<lambda>i. case b64_index i of None \<Rightarrow> True | Some k \<Rightarrow> k < 64 \<and> unat (encoding_table ! k) = i) [0..<256]"
    by (simp add: upt_256 b64_index_def encoding_table_def)
  then have "case b64_index i of None \<Rightarrow> True | Some k \<Rightarrow> k < 64 \<and> unat (encoding_table ! k) = i" if "i < 256"
    using that by (simp add: list_all_iff del: upt_rec_numeral)
  moreover have "i < 256" if "b64_index i = Some k"
    using that by (auto simp: b64_index_def split: if_splits)
  ultimately show "b64_index i = Some k \<Longrightarrow> k < 64 \<and> unat (encoding_table ! k) = i"
    by simp
qed

lemma build_loop_nth:
  "distinct cs \<Longrightarrow> length tbl = 256 \<Longrightarrow>
   build_loop k cs tbl ! unat (c :: 8 word) =
     (if c \<in> set cs then Some (of_nat (k + length (takeWhile (\<lambda>d. d \<noteq> c) cs))) else tbl ! unat c)"
proof (induction cs arbitrary: k tbl)
  case (Cons d cs)
  then show ?case
    using unat_byte_less [of c] unat_byte_less [of d] by (auto simp: nth_list_update word_unat_eq_iff [symmetric])
qed simp

lemma distinct_encoding_table: "distinct encoding_table"
  by (simp add: encoding_table_def)

lemma takeWhile_nth_distinct: "distinct xs \<Longrightarrow> k < length xs \<Longrightarrow> length (takeWhile (\<lambda>d. d \<noteq> xs ! k) xs) = k"
proof (induction xs arbitrary: k)
  case (Cons x xs)
  then show ?case by (cases k) auto
qed simp

lemma decoding_table: "build_decoding_table ! unat (c :: 8 word) = map_option of_nat (b64_index (unat c))"
proof (cases "b64_index (unat c)")
  case None
  then have "c \<notin> set encoding_table"
    using b64_index_table length_encoding_table by (auto simp: in_set_conv_nth)
  then show ?thesis
    using None unat_byte_less [of c]
    by (simp add: build_decoding_table_def build_loop_nth distinct_encoding_table)
next
  case (Some k)
  then have k: "k < 64" "encoding_table ! k = c"
    using index_table [OF Some] by (auto simp: word_unat_eq_iff)
  then have "c \<in> set encoding_table"
    using length_encoding_table by (metis nth_mem)
  then show ?thesis
    using Some k takeWhile_nth_distinct [OF distinct_encoding_table, of k] length_encoding_table
    by (simp add: build_decoding_table_def build_loop_nth distinct_encoding_table)
qed

lemma scast_of_nat:
  assumes "k < 64"
  shows "(scast (of_nat k :: 8 word) :: 32 word) = of_nat k"
proof -
  have "sint (of_nat k :: 8 word) = int k"
    using assms by (simp add: signed_of_nat signed_take_bit_int_eq_self)
  then show ?thesis
    by (metis of_int_of_nat_eq scast_eq)
qed

lemma sextet_value:
  assumes "i < length data" and "b64_value (data ! i) \<noteq> None"
  shows "sextet data i = Inr (value_word (data ! i))"
proof (cases "data ! i = padding_char")
  case True
  then show ?thesis
    using assms by (simp add: sextet_def value_word_def b64_value_def padding_char_def load_at_def nth_append)
next
  case False
  then obtain k where k: "b64_index (unat (data ! i)) = Some k"
    using assms(2) by (auto simp: b64_value_def)
  then have "unat (data ! i) < 128"
    by (auto simp: b64_index_def split: if_splits)
  then have "\<not> 128 \<le> data ! i"
    by (simp add: word_le_nat_alt)
  then show ?thesis
    using assms(1) False k index_table [OF k]
    by (simp add: sextet_def value_word_def b64_value_def padding_char_def load_at_def nth_append decoding_table scast_of_nat)
qed

lemma value_word_less: "b64_value c \<noteq> None \<Longrightarrow> value_word c < 64"
  by (auto simp: value_word_def b64_value_def word_less_nat_alt unat_of_nat dest!: index_table
      intro: le_less_trans [OF mod_less_eq_dividend])

lemma bit_255: "bit (255 :: 'a :: len word) n \<longleftrightarrow> n < 8 \<and> n < LENGTH('a)"
  using bit_mask_iff [of 8 n, where 'a = "'a word"] by (simp add: mask_eq_exp_minus_1 conj_commute)

lemma take_bit_6: "(a :: 32 word) < 64 \<Longrightarrow> take_bit 6 a = a"
  by (simp add: word_unat_eq_iff unsigned_take_bit_eq word_less_nat_alt take_bit_nat_eq_self)

lemma triple_bytes_take:
  fixes a b c d :: "32 word"
  defines "t \<equiv> push_bit 18 (take_bit 6 a) + push_bit 12 (take_bit 6 b) + push_bit 6 (take_bit 6 c) + take_bit 6 d"
    and "g \<equiv> part0 (take_bit 6 a) OR part1 (take_bit 6 b) OR part2 (take_bit 6 c) OR part3 (take_bit 6 d)"
  shows "triple_byte 2 t = temp_byte 0 g \<and> triple_byte 1 t = temp_byte 1 g \<and> triple_byte 0 t = temp_byte 2 g"
proof -
  have "push_bit 18 (take_bit 6 a) + push_bit 12 (take_bit 6 b) = push_bit 18 (take_bit 6 a) OR push_bit 12 (take_bit 6 b)"
    by (rule disjunctive_add) (auto simp: bit_simps)
  moreover have "(push_bit 18 (take_bit 6 a) OR push_bit 12 (take_bit 6 b)) + push_bit 6 (take_bit 6 c) =
      (push_bit 18 (take_bit 6 a) OR push_bit 12 (take_bit 6 b)) OR push_bit 6 (take_bit 6 c)"
    by (rule disjunctive_add) (auto simp: bit_simps)
  moreover have "(push_bit 18 (take_bit 6 a) OR push_bit 12 (take_bit 6 b) OR push_bit 6 (take_bit 6 c)) + take_bit 6 d =
      (push_bit 18 (take_bit 6 a) OR push_bit 12 (take_bit 6 b) OR push_bit 6 (take_bit 6 c)) OR take_bit 6 d"
    by (rule disjunctive_add) (auto simp: bit_simps)
  ultimately have t: "t = push_bit 18 (take_bit 6 a) OR push_bit 12 (take_bit 6 b) OR push_bit 6 (take_bit 6 c) OR take_bit 6 d"
    by (simp only: t_def or.assoc)
  have n: "n = 0 \<or> n = 1 \<or> n = 2 \<or> n = 3 \<or> n = 4 \<or> n = 5 \<or> n = 6 \<or> n = 7" if "n < LENGTH(8)" for n
    using that by auto
  have "triple_byte 2 t = temp_byte 0 g"
    by (rule bit_word_eqI, drule n)
      (elim disjE; simp add: triple_byte_def temp_byte_def g_def part_defs t bit_simps bit_15 bit_3 bit_255)
  moreover have "triple_byte 1 t = temp_byte 1 g"
    by (rule bit_word_eqI, drule n)
      (elim disjE; simp add: triple_byte_def temp_byte_def g_def part_defs t bit_simps bit_15 bit_3 bit_255)
  moreover have "triple_byte 0 t = temp_byte 2 g"
    by (rule bit_word_eqI, drule n)
      (elim disjE; simp add: triple_byte_def temp_byte_def g_def part_defs t bit_simps bit_15 bit_3 bit_255)
  ultimately show ?thesis
    by simp
qed

lemma triple_bytes:
  assumes "a < 64" and "b < 64" and "c < 64" and "d < (64 :: 32 word)"
  shows "let t = push_bit 18 a + push_bit 12 b + push_bit 6 c + d; g = part0 a OR part1 b OR part2 c OR part3 d
    in triple_byte 2 t = temp_byte 0 g \<and> triple_byte 1 t = temp_byte 1 g \<and> triple_byte 0 t = temp_byte 2 g"
  using triple_bytes_take [of a b c d] assms by (simp only: take_bit_6 Let_def)

lemma triple_at_values:
  assumes "i + 4 \<le> length data" and "length data < 2 ^ 31" and "\<And>k. k < 4 \<Longrightarrow> b64_value (data ! (i + k)) \<noteq> None"
  shows "\<exists>t. triple_at data i = Inr t \<and>
    (let g = group_word (data ! i) (data ! (i + 1)) (data ! (i + 2)) (data ! (i + 3))
     in triple_byte 2 t = temp_byte 0 g \<and> triple_byte 1 t = temp_byte 1 g \<and> triple_byte 0 t = temp_byte 2 g)"
proof -
  have v: "b64_value (data ! i) \<noteq> None" "b64_value (data ! (i + 1)) \<noteq> None" "b64_value (data ! (i + 2)) \<noteq> None"
      "b64_value (data ! (i + 3)) \<noteq> None"
    using assms(3) [of 0] assms(3) [of 1] assms(3) [of 2] assms(3) [of 3] by simp_all
  then have "triple_at data i = Inr (push_bit 18 (value_word (data ! i)) + push_bit 12 (value_word (data ! (i + 1))) +
      push_bit 6 (value_word (data ! (i + 2))) + value_word (data ! (i + 3)))"
    using assms(1,2) by (simp add: triple_at_def sextet_value)
  then show ?thesis
    using triple_bytes [OF v [THEN value_word_less]] unfolding group_word_def Let_def by blast
qed

lemma all_values_simps [simp]:
  "all_values []" "all_values (c # cs) \<longleftrightarrow> b64_value c \<noteq> None \<and> all_values cs"
  "all_values (cs @ ds) \<longleftrightarrow> all_values cs \<and> all_values ds"
  by (auto simp: all_values_def)

lemma group_at:
  assumes "all_values (c1 # c2 # c3 # c4 # cs)" and "length (pre @ c1 # c2 # c3 # c4 # cs) < 2 ^ 31"
  shows "\<exists>t. triple_at (pre @ c1 # c2 # c3 # c4 # cs) (length pre) = Inr t \<and> triple_byte 2 t = temp_byte 0 (group_word c1 c2 c3 c4) \<and>
    triple_byte 1 t = temp_byte 1 (group_word c1 c2 c3 c4) \<and> triple_byte 0 t = temp_byte 2 (group_word c1 c2 c3 c4)"
proof -
  let ?data = "pre @ c1 # c2 # c3 # c4 # cs"
  have d: "?data ! length pre = c1" "?data ! (length pre + 1) = c2" "?data ! (length pre + 2) = c3" "?data ! (length pre + 3) = c4"
    by (simp_all add: nth_append)
  have "b64_value (?data ! (length pre + k)) \<noteq> None" if "k < 4" for k
  proof -
    have "k = 0 \<or> k = 1 \<or> k = 2 \<or> k = 3"
      using that by auto
    then show ?thesis
      using assms(1) d by (elim disjE) (simp_all only: all_values_simps add_0_right not_False_eq_True)
  qed
  then show ?thesis
    using triple_at_values [of "length pre" ?data] assms(2) unfolding d Let_def by auto
qed

lemma string_loop_eq:
  "all_values cs \<Longrightarrow> length cs mod 4 = 0 \<Longrightarrow> length (pre @ cs) < 2 ^ 31 \<Longrightarrow>
   string_loop (pre @ cs) (length pre) j len acc = Inr (acc @ take (len - j) (decoded cs))"
proof (induction cs arbitrary: pre j acc rule: decoded.induct)
  case (1 c1 c2 c3 c4 cs)
  let ?g = "group_word c1 c2 c3 c4"
  let ?pre = "pre @ [c1, c2, c3, c4]"
  obtain t where t: "triple_at (pre @ c1 # c2 # c3 # c4 # cs) (length pre) = Inr t" "triple_byte 2 t = temp_byte 0 ?g"
      "triple_byte 1 t = temp_byte 1 ?g" "triple_byte 0 t = temp_byte 2 ?g"
    using group_at [OF "1.prems"(1,3)] by blast
  have "string_loop (?pre @ cs) (length ?pre) (j + 3) len acc' = Inr (acc' @ take (len - (j + 3)) (decoded cs))" for acc'
    using "1.prems" by (intro "1.IH") auto
  moreover have "?pre @ cs = pre @ c1 # c2 # c3 # c4 # cs" "length ?pre = length pre + 4"
    by simp_all
  ultimately have "string_loop (pre @ c1 # c2 # c3 # c4 # cs) (length pre + 4) (j + 3) len acc' =
      Inr (acc' @ take (len - (j + 3)) (decoded cs))" for acc'
    by (simp only:)
  then show ?case
    using t by (subst string_loop.simps) (simp add: Let_def take_Cons' numeral_3_eq_3)
qed (auto simp: string_loop.simps)

lemma list_cases3:
  "xs = [] \<or> (\<exists>a. xs = [a]) \<or> (\<exists>a b. xs = [a, b]) \<or> (\<exists>a b c ys. xs = a # b # c # ys)"
  by (cases xs; cases "tl xs"; cases "tl (tl xs)") auto

lemma bytes_loop_eq:
  "all_values cs \<Longrightarrow> length cs mod 4 = 0 \<Longrightarrow> length (pre @ cs) < 2 ^ 31 \<Longrightarrow> length A = j \<Longrightarrow> len = j + length B \<Longrightarrow>
   bytes_loop (pre @ cs) (length pre) j len (A @ B) = Inr (A @ take (length B) (decoded cs) @ drop (length (decoded cs)) B)"
proof (induction cs arbitrary: pre j A B rule: decoded.induct)
  case (1 c1 c2 c3 c4 cs)
  let ?g = "group_word c1 c2 c3 c4"
  let ?pre = "pre @ [c1, c2, c3, c4]"
  obtain t where t: "triple_at (pre @ c1 # c2 # c3 # c4 # cs) (length pre) = Inr t" "triple_byte 2 t = temp_byte 0 ?g"
      "triple_byte 1 t = temp_byte 1 ?g" "triple_byte 0 t = temp_byte 2 ?g"
    using group_at [OF "1.prems"(1,3)] by blast
  have "bytes_loop (?pre @ cs) (length ?pre) j' len (A' @ B') =
      Inr (A' @ take (length B') (decoded cs) @ drop (length (decoded cs)) B')"
    if "length A' = j'" "len = j' + length B'" for j' A' B'
    using that "1.prems" by (intro "1.IH") auto
  moreover have "?pre @ cs = pre @ c1 # c2 # c3 # c4 # cs" "length ?pre = length pre + 4"
    by simp_all
  ultimately have IH: "bytes_loop (pre @ c1 # c2 # c3 # c4 # cs) (length pre + 4) j' len (A' @ B') =
      Inr (A' @ take (length B') (decoded cs) @ drop (length (decoded cs)) B')"
    if "length A' = j'" "len = j' + length B'" for j' A' B'
    using that by (simp only:)
  consider "B = []" | b1 where "B = [b1]" | b1 b2 where "B = [b1, b2]" | b1 b2 b3 B' where "B = b1 # b2 # b3 # B'"
    using list_cases3 [of B] by blast
  then show ?case
  proof cases
    case 1
    then show ?thesis
      using t "1.prems"(4,5) IH [of A j "[]"] by (subst bytes_loop.simps) simp
  next
    case 2
    then show ?thesis
      using t "1.prems"(4,5) IH [of "A @ [temp_byte 0 ?g]" "j + 1" "[]"]
      by (subst bytes_loop.simps) (simp add: list_update_append)
  next
    case 3
    then show ?thesis
      using t "1.prems"(4,5) IH [of "A @ [temp_byte 0 ?g, temp_byte 1 ?g]" "j + 2" "[]"]
      by (subst bytes_loop.simps) (simp add: list_update_append)
  next
    case 4
    then show ?thesis
      using t "1.prems"(4,5) IH [of "A @ [temp_byte 0 ?g, temp_byte 1 ?g, temp_byte 2 ?g]" "j + 3" B']
      by (subst bytes_loop.simps) (simp add: list_update_append numeral_3_eq_3 numeral_2_eq_2)
  qed
qed (auto simp: bytes_loop.simps)

lemma not_bad_or: "\<not> bad_char \<le> x OR y \<Longrightarrow> \<not> bad_char \<le> x \<and> \<not> bad_char \<le> y"
  using le_word_or1 [of y x] le_word_or2 [of x y] order_trans by blast

lemma tabulate_ok:
  assumes "\<not> bad_char \<le> tabulate f (unat c)"
  shows "b64_value c \<noteq> None \<and> tabulate f (unat c) = f (value_word c) \<and> c \<noteq> padding_char"
proof -
  obtain k where k: "b64_index (unat c) = Some k"
    using assms by (cases "b64_index (unat c)") (auto simp: tabulate_def)
  then have "c \<noteq> padding_char"
    by (auto simp: padding_char_def b64_index_def)
  then show ?thesis
    using k by (simp add: b64_value_def value_word_def tabulate_def)
qed

lemma decode_loop_decoded:
  "decode_loop i bs = Inr (out, rest) \<Longrightarrow>
   \<exists>front. bs = front @ rest \<and> length front = 4 * i \<and> all_values front \<and> padding_char \<notin> set front \<and> out = decoded front"
proof (induction i bs arbitrary: out rule: decode_loop.induct)
  case (2 i t1 t2 t3 t4 bs)
  let ?temp = "tabulate part0 (unat t1) OR tabulate part1 (unat t2) OR tabulate part2 (unat t3) OR tabulate part3 (unat t4)"
  have ok: "\<not> bad_char \<le> ?temp"
    using "2.prems" by (auto simp: Let_def split: if_splits)
  then obtain out' where out': "decode_loop i bs = Inr (out', rest)"
      "out = temp_byte 0 ?temp # temp_byte 1 ?temp # temp_byte 2 ?temp # out'"
    using "2.prems" by (auto simp: Let_def split: sum.splits)
  obtain front where front: "bs = front @ rest" "length front = 4 * i" "all_values front" "padding_char \<notin> set front"
      "out' = decoded front"
    using "2.IH" [OF refl _ out'(1)] ok by auto
  have v: "b64_value t1 \<noteq> None \<and> tabulate part0 (unat t1) = part0 (value_word t1) \<and> t1 \<noteq> padding_char"
      "b64_value t2 \<noteq> None \<and> tabulate part1 (unat t2) = part1 (value_word t2) \<and> t2 \<noteq> padding_char"
      "b64_value t3 \<noteq> None \<and> tabulate part2 (unat t3) = part2 (value_word t3) \<and> t3 \<noteq> padding_char"
      "b64_value t4 \<noteq> None \<and> tabulate part3 (unat t4) = part3 (value_word t4) \<and> t4 \<noteq> padding_char"
    using ok by (blast dest: not_bad_or intro!: tabulate_ok)+
  then have "?temp = group_word t1 t2 t3 t4"
    by (simp add: group_word_def)
  then show ?case
    using v front out'(2) by (intro exI [of _ "t1 # t2 # t3 # t4 # front"]) auto
qed auto

lemma decoded_append: "length xs mod 4 = 0 \<Longrightarrow> decoded (xs @ ys) = decoded xs @ decoded ys"
  by (induction xs rule: decoded.induct) auto

lemma length_decoded: "length xs mod 4 = 0 \<Longrightarrow> length (decoded xs) = length xs div 4 * 3"
  by (induction xs rule: decoded.induct) auto

lemma decode_rest_decoded:
  assumes "decode_rest p [t1, t2, t3, t4] = Inr out" and "p = count_list [t1, t2, t3, t4] padding_char" and "0 < p"
  shows "all_values [t1, t2, t3, t4] \<and> out = take (3 - p) (decoded [t1, t2, t3, t4]) \<and> length out = 3 - p \<and> p \<le> 2 \<and>
    (t4 = padding_char) \<and> (t3 = padding_char \<longleftrightarrow> p = 2)"
proof -
  have z: "value_word padding_char = 0" "b64_value padding_char \<noteq> None"
    by (simp_all add: value_word_def b64_value_def)
  consider "p = 1" | "p = 2"
    using assms(1,3) by (cases "p = 1"; cases "p = 2") (auto simp: decode_rest_def)
  then show ?thesis
  proof cases
    case 1
    let ?temp = "tabulate part0 (unat t1) OR tabulate part1 (unat t2) OR tabulate part2 (unat t3)"
    have ok: "\<not> bad_char \<le> ?temp" and out: "out = [temp_byte 0 ?temp, temp_byte 1 ?temp]"
      using assms(1) 1 by (auto simp: decode_rest_def Let_def split: if_splits)
    have v: "b64_value t1 \<noteq> None \<and> tabulate part0 (unat t1) = part0 (value_word t1) \<and> t1 \<noteq> padding_char"
        "b64_value t2 \<noteq> None \<and> tabulate part1 (unat t2) = part1 (value_word t2) \<and> t2 \<noteq> padding_char"
        "b64_value t3 \<noteq> None \<and> tabulate part2 (unat t3) = part2 (value_word t3) \<and> t3 \<noteq> padding_char"
      using ok by (blast dest: not_bad_or intro!: tabulate_ok)+
    moreover have t4: "t4 = padding_char"
      using v 1 assms(2) by (auto split: if_splits)
    moreover have "?temp = group_word t1 t2 t3 t4"
      using v t4 z by (simp add: group_word_def part3_def)
    ultimately show ?thesis
      using out 1 z by (simp add: numeral_2_eq_2)
  next
    case 2
    let ?temp = "tabulate part0 (unat t1) OR tabulate part1 (unat t2)"
    have ok: "\<not> bad_char \<le> ?temp" and out: "out = [temp_byte 0 ?temp]"
      using assms(1) 2 by (auto simp: decode_rest_def Let_def split: if_splits)
    have v: "b64_value t1 \<noteq> None \<and> tabulate part0 (unat t1) = part0 (value_word t1) \<and> t1 \<noteq> padding_char"
        "b64_value t2 \<noteq> None \<and> tabulate part1 (unat t2) = part1 (value_word t2) \<and> t2 \<noteq> padding_char"
      using ok by (blast dest: not_bad_or intro!: tabulate_ok)+
    moreover have t34: "t3 = padding_char" "t4 = padding_char"
      using v 2 assms(2) by (auto split: if_splits)
    moreover have "?temp = group_word t1 t2 t3 t4"
      using v t34 z by (simp add: group_word_def part2_def part3_def)
    ultimately show ?thesis
      using out 2 z by simp
  qed
qed

lemma list_of_4: "length xs = 4 \<Longrightarrow> \<exists>a b c d. xs = [a, b, c, d]"
  by (auto simp: length_Suc_conv numeral_eq_Suc)

lemma output_length_eq:
  "4 \<le> length data \<Longrightarrow> output_length data = Inr (length data div 4 * 3 -
     (if data ! (length data - 1) = padding_char then 1 else 0) - (if data ! (length data - 2) = padding_char then 1 else 0))"
  by (simp add: output_length_def padding_char_def Let_def)

lemma decode_into_decoded:
  assumes "decode_into str = Inr xs" and "str \<noteq> []"
  shows "length str mod 4 = 0 \<and> all_values str \<and> output_length str = Inr (length xs) \<and> xs = take (length xs) (decoded str)"
proof -
  let ?n = "length str" and ?p = "count_list (drop (length str - 4) str) padding_char"
  have n1: "?n mod 4 = 0"
    using assms by (auto simp: decode_into_def split: if_splits)
  moreover have "4 \<le> ?n"
    using n1 assms(2) by (cases "?n < 4") simp_all
  ultimately have n: "?n mod 4 = 0" "4 \<le> ?n" .
  obtain out bs out' where d: "\<not> 2 < ?p" "decode_loop (?n div 4 - (if ?p \<noteq> 0 then 1 else 0)) str = Inr (out, bs)"
      "decode_rest ?p bs = Inr out'" "fill_buffer (?n * 3 div 4 - ?p) 46 (out @ out') = Inr xs"
    using assms n(1) by (auto simp: decode_into_def Let_def split: if_splits sum.splits)
  obtain front where f: "str = front @ bs" "length front = 4 * (?n div 4 - (if ?p \<noteq> 0 then 1 else 0))" "all_values front"
      "padding_char \<notin> set front" "out = decoded front"
    using decode_loop_decoded [OF d(2)] by blast
  have "?n = 4 * (?n div 4)" "0 < ?n div 4"
    using n by auto
  then obtain q where q: "?n = 4 * Suc q"
    by (cases "?n div 4") simp_all
  have split: "?n = length front + length bs"
    using arg_cong [OF f(1), of length] by simp
  show ?thesis
  proof (cases "?p = 0")
    case True
    then have bs: "bs = []"
      using f(2) q split by simp
    have sf: "front = str" "out = decoded str"
      using f(1,5) bs by simp_all
    have o: "out' = []"
      using d(3) unfolding True by (simp add: decode_rest_def)
    have ld: "length (decoded str) = 3 * Suc q"
      using length_decoded [OF n(1)] unfolding q by simp
    have "?n * 3 div 4 - ?p = 3 * Suc q"
      using True by (simp add: q)
    then have xs: "xs = decoded str"
      using d(4) fill_buffer_exact [OF ld, of 46] unfolding o sf(2) by simp
    have "?n - 1 < ?n" "?n - 2 < ?n"
      using n(2) by simp_all
    from this [THEN nth_mem] have "str ! (?n - 1) \<noteq> padding_char" "str ! (?n - 2) \<noteq> padding_char"
      using f(4) unfolding sf by metis+
    then have "output_length str = Inr (length xs)"
      using n(2) ld unfolding output_length_def Let_def xs q by (simp add: padding_char_def)
    then show ?thesis
      using n(1) f(3) xs unfolding sf by simp
  next
    case False
    then have lf: "length front = 4 * q"
      using f(2) q by simp
    then have "length bs = 4"
      using split q by simp
    then obtain t1 t2 t3 t4 where bs: "bs = [t1, t2, t3, t4]"
      using list_of_4 by metis
    have "drop (?n - 4) str = bs"
      using f(1) bs by simp
    then have p: "?p = count_list [t1, t2, t3, t4] padding_char"
      using bs by simp
    define k where "k = ?p"
    have r: "all_values bs" "out' = take (3 - k) (decoded bs)" "length out' = 3 - k" "k \<le> 2" "0 < k" "t4 = padding_char"
        "t3 = padding_char \<longleftrightarrow> k = 2"
      using decode_rest_decoded [OF d(3) [unfolded bs] p] False unfolding bs k_def by auto
    have lo: "length out = 3 * q" "decoded str = out @ decoded bs"
      using lf f(5) decoded_append [of front bs] length_decoded [of front] unfolding f(1) by simp_all
    have sz: "?n * 3 div 4 - ?p = 3 * Suc q - k"
      by (simp add: q k_def)
    have "length (out @ out') = 3 * Suc q - k"
      using r(3-5) lo(1) by simp
    then have xs: "xs = out @ out'"
      using d(4) fill_buffer_exact [of "out @ out'" "3 * Suc q - k" 46] unfolding sz by simp
    have t: "xs = take (length xs) (decoded str)"
      using r(2,3) lo unfolding xs by simp
    have "?n - 1 = length front + 3" "?n - 2 = length front + 2"
      using q lf by simp_all
    then have e: "str ! (?n - 1) = t4" "str ! (?n - 2) = t3"
      unfolding f(1) bs by (simp_all add: nth_append)
    have "output_length str = Inr (?n div 4 * 3 - (if t4 = padding_char then 1 else 0) - (if t3 = padding_char then 1 else 0))"
      using output_length_eq [OF n(2)] unfolding e .
    then have "output_length str = Inr (length xs)"
      using r lo(1) unfolding xs q by (cases "k = 2") auto
    moreover have "all_values str"
      using f(3) r(1) unfolding f(1) by simp
    ultimately show ?thesis
      using n(1) t by blast
  qed
qed

lemma sextet_invalid:
  assumes "i < length data" and "b64_value (data ! i) = None"
  shows "sextet data i \<in> {Inl Uninit, Inl OutOfBounds}"
  using assms
  by (auto simp: sextet_def b64_value_def padding_char_def load_at_def nth_append decoding_table split: if_splits)

lemma bad_first: "m \<in> {Inl Uninit, Inl OutOfBounds} \<Longrightarrow> bindc m f \<in> {Inl Uninit, Inl OutOfBounds}"
  by auto

lemma triple_at_invalid:
  assumes "\<not> all_values [c1, c2, c3, c4]" and "length (pre @ c1 # c2 # c3 # c4 # cs) < 2 ^ 31"
  shows "triple_at (pre @ c1 # c2 # c3 # c4 # cs) (length pre) \<in> {Inl Uninit, Inl OutOfBounds}"
proof -
  let ?data = "pre @ c1 # c2 # c3 # c4 # cs" and ?i = "length pre"
  have d: "?data ! ?i = c1" "?data ! (?i + 1) = c2" "?data ! (?i + 2) = c3" "?data ! (?i + 3) = c4"
      "?i < length ?data" "?i + 1 < length ?data" "?i + 2 < length ?data" "?i + 3 < length ?data"
    by (simp_all add: nth_append)
  note ok = sextet_value [OF d(5), unfolded d(1)] sextet_value [OF d(6), unfolded d(2)]
    sextet_value [OF d(7), unfolded d(3)] sextet_value [OF d(8), unfolded d(4)]
  note bad = sextet_invalid [OF d(5), unfolded d(1)] sextet_invalid [OF d(6), unfolded d(2)]
    sextet_invalid [OF d(7), unfolded d(3)] sextet_invalid [OF d(8), unfolded d(4)]
  have "guardc Undefined (?i + 4 < 2 ^ 31) = Inr ()"
    using assms(2) by simp
  then have t: "triple_at ?data ?i =
     bindc (sextet ?data ?i) (\<lambda>a. bindc (sextet ?data (?i + 1)) (\<lambda>b. bindc (sextet ?data (?i + 2)) (\<lambda>c.
     bindc (sextet ?data (?i + 3)) (\<lambda>d. Inr (push_bit 18 a + push_bit 12 b + push_bit 6 c + d)))))"
    by (simp only: triple_at_def bindc_Inr)
  consider "b64_value c1 = None" | "b64_value c1 \<noteq> None" "b64_value c2 = None"
    | "b64_value c1 \<noteq> None" "b64_value c2 \<noteq> None" "b64_value c3 = None"
    | "b64_value c1 \<noteq> None" "b64_value c2 \<noteq> None" "b64_value c3 \<noteq> None" "b64_value c4 = None"
    using assms(1) by auto
  then show ?thesis
    by cases (simp_all only: t ok bindc_Inr not_False_eq_True, (rule bad_first, rule bad, assumption)+)
qed

lemma bytes_loop_invalid:
  "\<not> all_values cs \<Longrightarrow> length cs mod 4 = 0 \<Longrightarrow> length (pre @ cs) < 2 ^ 31 \<Longrightarrow>
   bytes_loop (pre @ cs) (length pre) j len dd \<in> {Inl Uninit, Inl OutOfBounds}"
proof (induction cs arbitrary: pre j dd rule: decoded.induct)
  case (1 c1 c2 c3 c4 cs)
  let ?pre = "pre @ [c1, c2, c3, c4]" and ?data = "pre @ c1 # c2 # c3 # c4 # cs"
  have e: "?pre @ cs = ?data" "length ?pre = length pre + 4"
    by simp_all
  show ?case
  proof (cases "all_values [c1, c2, c3, c4]")
    case True
    have v: "b64_value (?data ! (length pre + k)) \<noteq> None" if "k < 4" for k
    proof -
      have "k = 0 \<or> k = 1 \<or> k = 2 \<or> k = 3"
        using that by auto
      then show ?thesis
        using True by (elim disjE) (simp_all add: nth_append)
    qed
    have "length pre + 4 \<le> length ?data"
      by simp
    then obtain t where "triple_at ?data (length pre) = Inr t"
      using triple_at_values [OF _ "1.prems"(3) v] by blast
    moreover have "bytes_loop ?data (length pre + 4) j' len dd' \<in> {Inl Uninit, Inl OutOfBounds}" for j' dd'
    proof -
      have "\<not> all_values cs" "length cs mod 4 = 0"
        using True "1.prems"(1,2) by simp_all
      then show ?thesis
        by (rule "1.IH" [of ?pre j' dd', unfolded e, OF _ _ "1.prems"(3)])
    qed
    ultimately show ?thesis
      by (subst bytes_loop.simps) (simp only: Let_def bindc_Inr split: if_split prod.split, simp)
  next
    case False
    then show ?thesis
      using triple_at_invalid [OF False "1.prems"(3)] by (subst bytes_loop.simps) auto
  qed
qed auto

subsection \<open>Properties\<close>

text \<open>C8: \<open>from_base64\<close> inverts \<open>to_base64\<close>. Every string can be encoded, and decoding the result gives it back; so neither of the
  two writes behind its buffer or leaves a part of it unwritten.\<close>

theorem base64_roundtrip: "\<exists>text. to_base64 data = Inr text \<and> from_base64 text = Inr data"
  unfolding to_base64_def from_base64_def by (rule base64_inverse)





end
