(* ===== verification/Charset.thy ===== *)
theory Charset
  imports C_Prelude
begin

text \<open>
  The character sets and the quoted printable encoding of the mail attachment parser
  (\<open>charset_decoder.cpp\<close>, \<open>base16.cpp\<close>).

  A \<open>std::string\<close> of text is a list of bytes; adding an \<open>int\<close> to it adds its lowest byte, so that the
  differences are differences of bytes. The name of a character set is a string. The loops over the
  bytes are recursions over the list, an index \<open>i\<close> being the part of the list from \<open>i\<close> on. What the
  functions print for empty arguments is left out.
\<close>

subsection \<open>charset\_decoder.cpp\<close>

record charset_offset =
  off_first :: "8 word"
  off_second :: "8 word"

definition ISO_8859_5 :: charset_offset where
  "ISO_8859_5 = \<lparr>off_first = 32, off_second = 64\<rparr>"

definition Win_1251 :: charset_offset where
  "Win_1251 = \<lparr>off_first = 48, off_second = 64\<rparr>"

definition FIRSTBYTE :: "8 word" where
  "FIRSTBYTE = 208"

definition OFFSET :: "8 word" where
  "OFFSET = 128"

definition utf8 :: "8 word list list" where
  "utf8 =
    [[226, 148, 128], [226, 148, 130], [226, 148, 140], [226, 148, 144], [226, 148, 148], [226, 148, 152],
     [226, 148, 156], [226, 148, 164], [226, 148, 172], [226, 148, 180], [226, 148, 188], [226, 150, 128],
     [226, 150, 132], [226, 150, 136], [226, 150, 140], [226, 150, 144], [226, 150, 145], [226, 150, 146],
     [226, 150, 147], [226, 140, 160], [226, 150, 160], [226, 136, 153], [226, 136, 154], [226, 137, 136],
     [226, 137, 164], [226, 137, 165], [194, 160, 0], [226, 140, 161], [194, 176, 0], [194, 178, 0],
     [194, 183, 0], [195, 183, 0], [226, 149, 144], [226, 149, 145], [226, 149, 146], [209, 145, 0],
     [226, 149, 147], [226, 149, 148], [226, 149, 149], [226, 149, 150], [226, 149, 151], [226, 149, 152],
     [226, 149, 153], [226, 149, 154], [226, 149, 155], [226, 149, 156], [226, 149, 157], [226, 149, 158],
     [226, 149, 159], [226, 149, 160], [226, 149, 161], [208, 129, 0], [226, 149, 162], [226, 149, 163],
     [226, 149, 164], [226, 149, 165], [226, 149, 166], [226, 149, 167], [226, 149, 168], [226, 149, 169],
     [226, 149, 170], [226, 149, 171], [226, 149, 172], [194, 169, 0], [209, 142, 0], [208, 176, 0],
     [208, 177, 0], [209, 134, 0], [208, 180, 0], [208, 181, 0], [209, 132, 0], [208, 179, 0],
     [209, 133, 0], [208, 184, 0], [208, 185, 0], [208, 186, 0], [208, 187, 0], [208, 188, 0],
     [208, 189, 0], [208, 190, 0], [208, 191, 0], [209, 143, 0], [209, 128, 0], [209, 129, 0],
     [209, 130, 0], [209, 131, 0], [208, 182, 0], [208, 178, 0], [209, 140, 0], [209, 139, 0],
     [208, 183, 0], [209, 136, 0], [209, 141, 0], [209, 137, 0], [209, 135, 0], [209, 138, 0],
     [208, 174, 0], [208, 144, 0], [208, 145, 0], [208, 166, 0], [208, 148, 0], [208, 149, 0],
     [208, 164, 0], [208, 147, 0], [208, 165, 0], [208, 152, 0], [208, 153, 0], [208, 154, 0],
     [208, 155, 0], [208, 156, 0], [208, 157, 0], [208, 158, 0], [208, 159, 0], [208, 175, 0],
     [208, 160, 0], [208, 161, 0], [208, 162, 0], [208, 163, 0], [208, 150, 0], [208, 146, 0],
     [208, 172, 0], [208, 171, 0], [208, 151, 0], [208, 168, 0], [208, 173, 0], [208, 169, 0],
     [208, 167, 0], [208, 170, 0]]"

definition win1251_byte :: "charset_offset \<Rightarrow> 8 word \<Rightarrow> bytes" where
  "win1251_byte offset b =
     (if b < 127 then [b]
      else if 192 \<le> b \<and> b \<le> 239 then [FIRSTBYTE, b - off_first offset]
      else if 239 < b \<and> b \<le> 255 then [FIRSTBYTE + 1, b - (off_first offset + off_second offset)]
      else if b = 168 then [FIRSTBYTE, b - off_first offset]
      else if b = 184 then [FIRSTBYTE + 1, b - (off_first offset + off_second offset)]
      else [])"

primrec raw_bytes_win1251_to_utf8 :: "bytes \<Rightarrow> charset_offset \<Rightarrow> bytes" where
  "raw_bytes_win1251_to_utf8 [] offset = []"
| "raw_bytes_win1251_to_utf8 (b # bs) offset = win1251_byte offset b @ raw_bytes_win1251_to_utf8 bs offset"

definition iso_8859_5_byte :: "charset_offset \<Rightarrow> 8 word \<Rightarrow> bytes" where
  "iso_8859_5_byte offset b =
     (if b < 176 then (if b = 161 then [FIRSTBYTE, b - off_first offset] else [b])
      else if 176 \<le> b \<and> b \<le> 223 then [FIRSTBYTE, b - off_first offset]
      else if (223 < b \<and> b \<le> 239) \<or> b = 241 then [FIRSTBYTE + 1, b - (off_first offset + off_second offset)]
      else [])"

primrec raw_bytes_8859_5_to_utf8 :: "bytes \<Rightarrow> charset_offset \<Rightarrow> bytes" where
  "raw_bytes_8859_5_to_utf8 [] offset = []"
| "raw_bytes_8859_5_to_utf8 (b # bs) offset = iso_8859_5_byte offset b @ raw_bytes_8859_5_to_utf8 bs offset"

primrec raw_bytes_koi_8r_to_utf8 :: "bytes \<Rightarrow> bytes" where
  "raw_bytes_koi_8r_to_utf8 [] = []"
| "raw_bytes_koi_8r_to_utf8 (b # bs) =
     (if b < OFFSET then [b]
      else let index = b + OFFSET in [utf8 ! unat index ! 0, utf8 ! unat index ! 1]) @ raw_bytes_koi_8r_to_utf8 bs"

primrec vect_to_string :: "bytes \<Rightarrow> bytes" where
  "vect_to_string [] = []"
| "vect_to_string (b # bs) = [b] @ vect_to_string bs"

definition raw_bytes_to_utf8 :: "bytes \<Rightarrow> string \<Rightarrow> bytes" where
  "raw_bytes_to_utf8 bytes charset =
     (if bytes = [] then []
      else if charset = [] then []
      else if charset = ''ISO-8859-5'' then raw_bytes_8859_5_to_utf8 bytes ISO_8859_5
      else if charset = ''Windows-1251'' \<or> charset = ''Win-1251'' \<or> charset = ''win-1251'' \<or> charset = ''windows-1251''
        then raw_bytes_win1251_to_utf8 bytes Win_1251
      else if charset = ''KOI-8R'' \<or> charset = ''koi8-r'' then raw_bytes_koi_8r_to_utf8 bytes
      else vect_to_string bytes)"

subsection \<open>base16.cpp\<close>

definition get_hex_char_from_decimal_digit :: "int \<Rightarrow> 8 word" where
  "get_hex_char_from_decimal_digit num =
     (if num > 15 then of_char CHR ''Z''
      else if num = 1 then of_char CHR ''1'' else if num = 2 then of_char CHR ''2'' else if num = 3 then of_char CHR ''3''
      else if num = 4 then of_char CHR ''4'' else if num = 5 then of_char CHR ''5'' else if num = 6 then of_char CHR ''6''
      else if num = 7 then of_char CHR ''7'' else if num = 8 then of_char CHR ''8'' else if num = 9 then of_char CHR ''9''
      else if num = 10 then of_char CHR ''A'' else if num = 11 then of_char CHR ''B'' else if num = 12 then of_char CHR ''C''
      else if num = 13 then of_char CHR ''D'' else if num = 14 then of_char CHR ''E'' else if num = 15 then of_char CHR ''F''
      else of_char CHR ''0'')"

definition is_hex_char :: "8 word \<Rightarrow> bool" where
  "is_hex_char hex_char \<longleftrightarrow>
     (of_char CHR ''A'' \<le> hex_char \<and> hex_char \<le> of_char CHR ''F'') \<or>
     (of_char CHR ''0'' \<le> hex_char \<and> hex_char \<le> of_char CHR ''9'')"

definition get_decimal_digit_from_hex_char :: "8 word \<Rightarrow> int" where
  "get_decimal_digit_from_hex_char c =
     (if \<not> is_hex_char c then - 1
      else if c = of_char CHR ''1'' then 1 else if c = of_char CHR ''2'' then 2 else if c = of_char CHR ''3'' then 3
      else if c = of_char CHR ''4'' then 4 else if c = of_char CHR ''5'' then 5 else if c = of_char CHR ''6'' then 6
      else if c = of_char CHR ''7'' then 7 else if c = of_char CHR ''8'' then 8 else if c = of_char CHR ''9'' then 9
      else if c = of_char CHR ''A'' then 10 else if c = of_char CHR ''B'' then 11 else if c = of_char CHR ''C'' then 12
      else if c = of_char CHR ''D'' then 13 else if c = of_char CHR ''E'' then 14 else if c = of_char CHR ''F'' then 15
      else 0)"

definition decimal_to_hex :: "int \<Rightarrow> bytes" where
  "decimal_to_hex num = []"

definition toupper :: "8 word \<Rightarrow> 8 word" where
  "toupper c = (if 97 \<le> c \<and> c \<le> 122 then c - 32 else c)"

text \<open>
  The digits from the last one on; the argument is at most two characters long, so that the sum neither overflows
  nor is rounded by \<open>std::pow\<close>.
\<close>

fun hex_loop :: "nat \<Rightarrow> bytes \<Rightarrow> int" where
  "hex_loop pow [] = 0"
| "hex_loop pow (c # cs) = 16 ^ pow * get_decimal_digit_from_hex_char (toupper c) + hex_loop (Suc pow) cs"

definition hex_to_decimal :: "bytes \<Rightarrow> int" where
  "hex_to_decimal hex_num = hex_loop 0 (rev hex_num)"

function quoted_printable :: "bytes \<Rightarrow> string \<Rightarrow> bytes" where
  "quoted_printable [] charset = []"
| "quoted_printable (c # str) charset =
     (if c = of_char CHR ''='' then
        let hex_token = take 2 str
        in raw_bytes_to_utf8 [of_int (hex_to_decimal hex_token)] charset @
           (if is_hex_char ((hex_token @ [0]) ! 0) then quoted_printable (drop 2 str) charset
            else quoted_printable (drop 1 str) charset)
      else c # quoted_printable str charset)"
  by pat_completeness auto
termination
  by (relation "measure (\<lambda>(str, _). length str)") auto

declare quoted_printable.simps(2) [simp del]

subsection \<open>Quoted printable\<close>

text \<open>
  The encoding: a byte that is escaped is written as an equals sign and its two hexadecimal digits in upper case.
\<close>

definition escape :: "8 word \<Rightarrow> bytes" where
  "escape b = [of_char CHR ''='', get_hex_char_from_decimal_digit (uint b div 16), get_hex_char_from_decimal_digit (uint b mod 16)]"

definition qp_encode :: "(8 word \<Rightarrow> bool) \<Rightarrow> bytes \<Rightarrow> bytes" where
  "qp_encode must bs = concat (map (\<lambda>b. if must b then escape b else [b]) bs)"

definition plain_charset :: "string \<Rightarrow> bool" where
  "plain_charset charset \<longleftrightarrow>
     charset \<notin> {[], ''ISO-8859-5'', ''Windows-1251'', ''Win-1251'', ''win-1251'', ''windows-1251'', ''KOI-8R'', ''koi8-r''}"

lemma plain_bytes: "plain_charset charset \<Longrightarrow> raw_bytes_to_utf8 [b] charset = [b]"
  by (simp add: plain_charset_def raw_bytes_to_utf8_def)

lemma hex_digit:
  assumes "0 \<le> d" and "d < 16"
  shows "is_hex_char (get_hex_char_from_decimal_digit d)"
    and "get_decimal_digit_from_hex_char (toupper (get_hex_char_from_decimal_digit d)) = d"
proof -
  obtain k where k: "d = int k" "k < 16"
    using assms by (cases d) auto
  then have "k = 0 \<or> k = 1 \<or> k = 2 \<or> k = 3 \<or> k = 4 \<or> k = 5 \<or> k = 6 \<or> k = 7 \<or> k = 8 \<or> k = 9 \<or> k = 10 \<or> k = 11 \<or>
      k = 12 \<or> k = 13 \<or> k = 14 \<or> k = 15"
    by (auto simp: less_Suc_eq numeral_eq_Suc)
  then show "is_hex_char (get_hex_char_from_decimal_digit d)"
    and "get_decimal_digit_from_hex_char (toupper (get_hex_char_from_decimal_digit d)) = d"
    unfolding k(1)
    by (elim disjE; simp add: get_hex_char_from_decimal_digit_def is_hex_char_def toupper_def
        get_decimal_digit_from_hex_char_def)+
qed

lemma uint_byte: "0 \<le> uint (b :: 8 word) div 16" "uint b div 16 < 16"
proof -
  have "uint b < 256"
    using uint_lt2p [of b] by simp
  then show "0 \<le> uint b div 16" "uint b div 16 < 16"
    by (simp_all add: pos_imp_zdiv_nonneg_iff)
qed

lemma quoted_step:
  assumes "plain_charset charset"
  shows "quoted_printable (of_char CHR ''='' # x # y # str) charset =
    of_int (hex_to_decimal [x, y]) # quoted_printable (if is_hex_char x then str else y # str) charset"
  using assms by (simp add: quoted_printable.simps(2) plain_bytes Let_def numeral_2_eq_2)

lemma quoted_escape:
  assumes "plain_charset charset"
  shows "quoted_printable (escape b @ str) charset = b # quoted_printable str charset"
proof -
  note d = hex_digit [OF uint_byte(1,2) [of b]] hex_digit [of "uint b mod 16"]
  have "hex_to_decimal [get_hex_char_from_decimal_digit (uint b div 16), get_hex_char_from_decimal_digit (uint b mod 16)] = uint b"
    using d by (simp add: hex_to_decimal_def)
  then show ?thesis
    using d quoted_step [OF assms] by (simp add: escape_def)
qed

lemma quoted_encode:
  assumes "plain_charset charset" and "must (of_char CHR ''='')"
  shows "quoted_printable (qp_encode must bs) charset = bs"
proof (induction bs)
  case (Cons b bs)
  show ?case
  proof (cases "must b")
    case True
    then show ?thesis
      using Cons quoted_escape [OF assms(1)] by (simp add: qp_encode_def)
  next
    case False
    then have "b \<noteq> of_char CHR ''=''"
      using assms(2) by blast
    then show ?thesis
      using False Cons by (simp add: qp_encode_def quoted_printable.simps(2))
  qed
qed (simp add: qp_encode_def)

subsection \<open>Character sets\<close>

text \<open>The code points of the two sets, where they are Cyrillic letters or ASCII, and their encoding in UTF-8.\<close>

definition utf8_of :: "nat \<Rightarrow> bytes" where
  "utf8_of n = (if n < 128 then [of_nat n] else [192 + of_nat (n div 64), 128 + of_nat (n mod 64)])"

definition cyrillic :: "nat \<Rightarrow> 8 word \<Rightarrow> nat" where
  "cyrillic start b = 0x410 + (unat b - start)"

lemma byte_range: "(c :: 8 word) \<le> b \<longleftrightarrow> unat c \<le> unat b" "c < b \<longleftrightarrow> unat c < unat b"
  by (simp_all add: word_le_nat_alt word_less_nat_alt)

lemma utf8_of_letter:
  assumes "s \<le> n" and "n < s + 64" and "s \<le> 192"
  shows "utf8_of (0x410 + (n - s)) = (if n < s + 48 then [208, 144 + of_nat (n - s)] else [209, 128 + of_nat (n - s - 48)])"
proof (cases "n < s + 48")
  case True
  define k where "k = n - s"
  have k: "n = s + k" "k < 48"
    using True assms(1) by (simp_all add: k_def)
  then have "(0x410 + k) div 64 = 16" "(0x410 + k) mod 64 = 16 + k"
    by (intro div_nat_eqI mod_nat_eqI; simp)+
  then show ?thesis
    using k by (simp add: utf8_of_def)
next
  case False
  define k where "k = n - s - 48"
  have k: "n = s + 48 + k" "k < 16"
    using False assms(1,2) by (simp_all add: k_def)
  then have "(0x440 + k) div 64 = 17" "(0x440 + k) mod 64 = k"
    by (intro div_nat_eqI mod_nat_eqI; simp)+
  then show ?thesis
    using k by (simp add: utf8_of_def)
qed

lemma utf8_of_cyrillic:
  assumes "s \<le> unat b" and "unat b < s + 64" and "s \<le> 192"
  shows "utf8_of (cyrillic s b) =
    (if unat b < s + 48 then [208, 144 + (b - of_nat s)] else [209, 80 + (b - of_nat s)])"
proof -
  have "of_nat (unat b - s) = b - of_nat s"
    using assms(1) by (simp add: of_nat_diff)
  moreover have "of_nat (unat b - s - 48) = b - of_nat s - 48" if "\<not> unat b < s + 48"
    using that by (simp add: of_nat_diff)
  ultimately show ?thesis
    using utf8_of_letter [OF assms] by (simp add: cyrillic_def)
qed

lemma win1251_letter:
  assumes "b < 127 \<or> 192 \<le> b"
  shows "win1251_byte Win_1251 b = utf8_of (if b < 127 then unat b else cyrillic 192 b)"
proof (cases "b < 127")
  case True
  then show ?thesis
    by (simp add: win1251_byte_def utf8_of_def byte_range)
next
  case False
  then show ?thesis
    using assms unat_byte_less [of b] utf8_of_cyrillic [of 192 b]
    by (auto simp: win1251_byte_def byte_range Win_1251_def FIRSTBYTE_def)
qed

lemma iso_8859_5_letter:
  assumes "b < 128 \<or> (176 \<le> b \<and> b < 240)"
  shows "iso_8859_5_byte ISO_8859_5 b = utf8_of (if b < 128 then unat b else cyrillic 176 b)"
proof (cases "b < 128")
  case True
  then show ?thesis
    by (auto simp: iso_8859_5_byte_def utf8_of_def byte_range)
next
  case False
  then show ?thesis
    using assms unat_byte_less [of b] utf8_of_cyrillic [of 176 b]
    by (auto simp: iso_8859_5_byte_def byte_range ISO_8859_5_def FIRSTBYTE_def)
qed

lemma add_eq_diff_128: "(b :: 8 word) + 128 = b - 128"
proof -
  have "b + 128 = b - 128 + 256"
    by simp
  then show ?thesis
    by simp
qed

lemma raw_bytes_concat:
  "raw_bytes_win1251_to_utf8 bs offset = concat (map (win1251_byte offset) bs)"
  "raw_bytes_8859_5_to_utf8 bs offset = concat (map (iso_8859_5_byte offset) bs)"
  by (induction bs) simp_all

text \<open>Well-formed UTF-8, for sequences of up to three bytes.\<close>

definition continues :: "8 word \<Rightarrow> bool" where
  "continues b \<longleftrightarrow> 128 \<le> b \<and> b < 192"

fun wf_utf8 :: "bytes \<Rightarrow> bool" where
  "wf_utf8 [] \<longleftrightarrow> True"
| "wf_utf8 (b # bs) \<longleftrightarrow>
     (if b < 128 then wf_utf8 bs
      else if 192 \<le> b \<and> b < 224 then (case bs of c # cs \<Rightarrow> continues c \<and> wf_utf8 cs | _ \<Rightarrow> False)
      else if 224 \<le> b \<and> b < 240 then (case bs of c # d # cs \<Rightarrow> continues c \<and> continues d \<and> wf_utf8 cs | _ \<Rightarrow> False)
      else False)"

lemma utf8_entries:
  assumes "k < 128"
  shows "if utf8 ! k ! 2 = 0 then 192 \<le> utf8 ! k ! 0 \<and> utf8 ! k ! 0 < 224 \<and> continues (utf8 ! k ! 1) else utf8 ! k ! 0 = 226"
proof -
  have "list_all (\<lambda>e. if e ! 2 = 0 then 192 \<le> e ! 0 \<and> e ! 0 < 224 \<and> continues (e ! 1) else e ! 0 = 226) utf8"
    by (simp add: utf8_def continues_def)
  then have e: "\<forall>k < length utf8. if utf8 ! k ! 2 = 0 then 192 \<le> utf8 ! k ! 0 \<and> utf8 ! k ! 0 < 224 \<and> continues (utf8 ! k ! 1)
      else utf8 ! k ! 0 = 226"
    by (simp only: list_all_length)
  have "k < length utf8"
    using assms by (simp add: utf8_def)
  then show ?thesis
    by (rule e [rule_format])
qed

subsection \<open>Properties\<close>



text \<open>What \<open>quoted_printable\<close> garbles. When the first digit of an escaped byte is a lower case letter, the second digit is decoded and
  kept as text as well; a soft line break, an equals sign at the end of a line, becomes a byte 239 and a line feed.\<close>

theorem quoted_printable_garbles:
  assumes "plain_charset charset" and "97 \<le> x" and "x \<le> 102"
  shows "quoted_printable (of_char CHR ''='' # x # y # str) charset =
      of_int (hex_to_decimal [x, y]) # quoted_printable (y # str) charset \<and>
    quoted_printable (of_char CHR ''='' # 13 # 10 # str) charset = 239 # 10 # quoted_printable str charset"
proof
  have "\<not> is_hex_char x"
    using assms(2,3) by (auto simp: is_hex_char_def byte_range)
  then show "quoted_printable (of_char CHR ''='' # x # y # str) charset =
      of_int (hex_to_decimal [x, y]) # quoted_printable (y # str) charset"
    using quoted_step [OF assms(1)] by simp
  have "hex_to_decimal [13, 10] = - 17"
    by (simp add: hex_to_decimal_def get_decimal_digit_from_hex_char_def is_hex_char_def toupper_def)
  moreover have "\<not> is_hex_char 13"
    by (simp add: is_hex_char_def)
  moreover have "quoted_printable (10 # str) charset = 10 # quoted_printable str charset"
    by (simp add: quoted_printable.simps(2))
  ultimately show "quoted_printable (of_char CHR ''='' # 13 # 10 # str) charset = 239 # 10 # quoted_printable str charset"
    using quoted_step [OF assms(1)] by simp
qed

theorem quoted_printable_garbles_witness:
  "quoted_printable [61, 100, 48] ''utf-8'' = [208, 48]"
proof -
  have "hex_to_decimal [100, 48] = 208"
    by (simp add: hex_to_decimal_def get_decimal_digit_from_hex_char_def is_hex_char_def toupper_def)
  moreover have "quoted_printable [48] ''utf-8'' = [48]"
    by (simp add: quoted_printable.simps(2))
  ultimately show ?thesis
    using quoted_printable_garbles [of "''utf-8''" 100 48 "[]"] by (simp add: plain_charset_def)
qed



text \<open>The letter Yo of the set Windows-1251 is not translated: both of its forms become a byte sequence that is not UTF-8, while the
  set ISO-8859-5 has it right.\<close>

theorem win1251_yo:
  "\<not> wf_utf8 (raw_bytes_to_utf8 [168] ''windows-1251'') \<and> \<not> wf_utf8 (raw_bytes_to_utf8 [184] ''windows-1251'') \<and>
   raw_bytes_to_utf8 [161] ''ISO-8859-5'' = utf8_of 0x401 \<and> raw_bytes_to_utf8 [241] ''ISO-8859-5'' = utf8_of 0x451"
  by (simp add: raw_bytes_to_utf8_def win1251_byte_def iso_8859_5_byte_def Win_1251_def ISO_8859_5_def FIRSTBYTE_def
      continues_def utf8_of_def)

text \<open>C36: the translation of KOI8-R loses the third byte of an entry of the table: the result for a byte above 127 is well-formed UTF-8
  exactly when its entry has two bytes.\<close>

theorem koi_8r_truncates:
  assumes "128 \<le> b"
  shows "wf_utf8 (raw_bytes_to_utf8 [b] ''KOI-8R'') \<longleftrightarrow> utf8 ! unat (b - 128) ! 2 = 0"
proof -
  have i: "b + 128 = b - 128"
    by (rule add_eq_diff_128)
  have "unat (b - 128) < 128"
    using assms unat_byte_less [of b] by (simp add: byte_range unat_sub)
  then have e: "if utf8 ! unat (b - 128) ! 2 = 0 then 192 \<le> utf8 ! unat (b - 128) ! 0 \<and> utf8 ! unat (b - 128) ! 0 < 224 \<and>
      continues (utf8 ! unat (b - 128) ! 1) else utf8 ! unat (b - 128) ! 0 = 226"
    by (rule utf8_entries)
  have r: "raw_bytes_to_utf8 [b] ''KOI-8R'' = [utf8 ! unat (b - 128) ! 0, utf8 ! unat (b - 128) ! 1]"
    using assms by (simp add: raw_bytes_to_utf8_def OFFSET_def Let_def i leD)
  show ?thesis
  proof (cases "utf8 ! unat (b - 128) ! 2 = 0")
    case True
    then have "192 \<le> utf8 ! unat (b - 128) ! 0" "utf8 ! unat (b - 128) ! 0 < 224" "continues (utf8 ! unat (b - 128) ! 1)"
      using e by simp_all
    moreover from this(1) have "\<not> utf8 ! unat (b - 128) ! 0 < 128"
      by (auto simp: byte_range)
    ultimately show ?thesis
      using True unfolding r by simp
  next
    case False
    then have "utf8 ! unat (b - 128) ! 0 = 226"
      using e by simp
    then show ?thesis
      using False unfolding r by simp
  qed
qed

theorem koi_8r_truncates_witness:
  "wf_utf8 (raw_bytes_to_utf8 [193] ''KOI-8R'') \<and> \<not> wf_utf8 (raw_bytes_to_utf8 [128] ''KOI-8R'')"
  using koi_8r_truncates [of 193] koi_8r_truncates [of 128] by (simp add: utf8_def)

end
