(* ===== verification/Spec2Isabelle.thy ===== *)
theory Spec2Isabelle
  imports Dynamic_Vector Allocator_Properties Slab_Properties File_Server Shared_List Base64_Decoders Charset
begin

text \<open>
  Verification of programs of a collection of Linux programming exercises in C and C++. Paths below are under \<open>src/src\<close>.

  \<^bold>\<open>The programs and their theories.\<close> The programs are independent of each other; only the parts of the file server call one another.

  \<^item> \<open>utils/collections/vector\<close>, an array that grows, with a locked variant and interfaces for integers, doubles and strings:
    \<open>Dynamic_Vector\<close>. A vector is a record with the fields of \<open>struct vector\<close>; its storage is a list of bytes. The new
    capacity is computed in doubles, whose rounding is in \<open>Double_Arith\<close>.
  \<^item> \<open>mem/allocator\<close>, an allocator with boundary tags in a block of memory: \<open>Allocator\<close>, over the list of eight byte cells of the
    block, with the headers of the chunks at the places where \<open>alloc_utils.c\<close> puts them.
  \<^item> \<open>mem/mem_cache\<close>, a cache of objects in slabs: \<open>Slab_Cache\<close>, over heaps of slabs and of blocks. \<open>Mem_Pool\<close> is the contract
    that both allocators share.
  \<^item> \<open>net/tcp/server/fileserver\<close>, a server that sends files. \<open>Conn_Pool\<close> models \<open>conn_pool.c\<close>, \<open>Log_Queue\<close>
    \<open>log_msg_queue.c\<close> (a FIFO in the sense of the locale of \<open>Fifo\<close>), \<open>Log\<close> \<open>log.c\<close>, \<open>Request\<close> \<open>utils.c\<close>,
    \<open>File_System\<close> \<open>filesystem.c\<close>, \<open>Net\<close> \<open>net.c\<close>, and \<open>File_Server\<close> \<open>server.c\<close> and \<open>os_layer.c\<close>: the
    loop that accepts connections, the workers and the shutdown are the step relation \<open>srv_step\<close>, in which the parts meet.
  \<^item> \<open>pthreads-problems/problem-3\<close>, four versions of a list of lines that a second thread sorts: \<open>Linked_Sort\<close>
    (\<open>solution.c\<close>, \<open>solution_only_mutex++.c\<close>) and \<open>Shared_List\<close> (\<open>solution_only_mutex.c\<close>, \<open>solution_rw.c\<close>).
  \<^item> \<open>c++/eml-attachments-parser\<close>, the decoders of a mail parser: \<open>Base64\<close> and \<open>Base64_Decoders\<close> (\<open>base64.hpp\<close>,
    \<open>base64_to_bytes.cpp\<close>), \<open>Charset\<close> (\<open>charset_decoder.cpp\<close>, \<open>base16.cpp\<close>).


  \<^bold>\<open>How the code is modelled.\<close> \<open>C_Prelude\<close> has the types of the machine, \<open>C_String\<close> the strings of C. A function of the code is
  a function with the same name and the same branches; a name that clashes has a suffix. What is undefined in C, a null or dangling
  pointer, an access outside of a block, the value of an uninitialised variable, a shift that is too long, is a value of the type
  \<open>fault\<close>, as is \<open>Blocked\<close>, a thread that waits for ever; \<open>bindc\<close> passes faults on. Structures live in maps from addresses, a
  pointer is \<open>nat option\<close>. Integers are words of their width where they can wrap around. What comes from outside, the results of
  \<open>malloc\<close>, \<open>realloc\<close>, \<open>pthread_mutex_init\<close>, \<open>pthread_create\<close>, the contents of uninitialised memory, the bytes on a socket, the
  time, is an argument. Threads are step relations, or the sequence of the pieces of work that are done with a mutex held.

  \<^bold>\<open>Fuel.\<close> A loop over a linked structure or a file has a number of steps as an argument, or takes the size of the block, and is
  \<open>Blocked\<close> when the steps are used up. The theorems that state a result ask for at least the length of the list or of the file, so
  that they show that the loop ends. All other loops are recursions with a termination proof.

  \<^bold>\<open>What is shown.\<close>

  \<^item> Growable array: \<open>add\<close> appends, also when the storage grows, \<open>pop\<close> undoes it; the locale \<open>dyn_array\<close> is its contract. What
    happens without memory, after \<open>clear\<close>, and to an integer that \<open>add_int\<close> narrows.
  \<^item> Allocator: \<open>myalloc\<close> and \<open>myfree\<close> are first fit and release with merging on the list of chunks, for every well-formed
    block; freeing everything gives back one chunk; the new area is disjoint from those in use when the chunk that first fit meets is
    free, and lies inside one of them when it is not, which \<open>find_chunk\<close> does not check.
  \<^item> Slab cache: every operation keeps the invariant of lists, loads and free lists; objects are fresh, freeing returns them, releasing
    frees all slabs. The slab that \<open>alloc_slab\<close> requests is too small, and a double free makes the free list cyclic.
  \<^item> File server: the pool implements a table of sockets; as long as the uninitialised variable of \<open>pool_is_full\<close> has the right value
    the slots in use are those of the workers and the shutdown ends, otherwise a run exists after which it never does; a request for a
    file is answered with its content; requests are split at colons; the log keeps the order of messages, and its shutdown loses messages
    or hangs; \<open>copy_file\<close> and \<open>copy_file_new\<close> agree except for certain lengths.
  \<^item> Lists of lines: a round of the sorting thread is a stable sort; \<open>solution_only_mutex.c\<close> implements a list of lines for every order of
    the threads, but may wait for the sorting thread for ever at its end; \<open>solution_rw.c\<close> can lose a line and \<open>solution_only_mutex++.c\<close> blocks itself.
  \<^item> Mail parser: base64 is decoded to what was encoded, the two decoders agree on valid text and differ on invalid text; quoted printable
    text and Cyrillic letters are decoded; entries of three bytes of the KOI8-R table are cut.


  \<^bold>\<open>Not modelled.\<close> Programs in Go, Python and assembler; \<open>crypto.c\<close>, which calls a cryptographic library; \<open>get_file\<close> of
  \<open>net.c\<close>, which is not finished; the parser of mail headers \<open>get_attachments.cpp\<close>; the allocator and the containers in C++
  (\<open>my_alloc.cpp\<close>, \<open>RTL.cpp\<close>, \<open>shared_ptr.cpp\<close>, \<open>any.cpp\<close>, \<open>array.cpp\<close>); the numerical programs over floating point
  matrices; the readers of directories and of \<open>/proc\<close>, the HTTP client, and the other exercises on graphs, threads, processes and
  sockets, which are independent of what is modelled. The steps of threads are interleaved; weak memory is not modelled.
\<close>

end
